(* ===== verification/Prelude.thy ===== *)
theory Prelude
  imports Main "HOL-Library.Word"
begin

unbundle bit_operations_syntax

text \<open>
  Shared vocabulary of the development: the machine types of the C++ sources, the fact
  collections the components fill, and the generic facts on words and lists they use.
  \<^item> \<open>u8\<close> \dots \<open>u64\<close> are \<^verbatim>\<open>uint8_t\<close> \dots \<^verbatim>\<open>uint64_t\<close>; \<^verbatim>\<open>size_t\<close> is 64 bits wide (the target is
    x86-64), and \<open>+\<close>, \<open>-\<close> and \<open>*\<close> wrap around as the C++ unsigned types do.
  \<^item> A result of type \<open>option\<close> is \<open>None\<close> where the C++ leaves the defined part of the
    language (a read or write outside the object, a failed \<^verbatim>\<open>assert\<close>).
\<close>

type_synonym u8 = "8 word"
type_synonym u16 = "16 word"
type_synonym u32 = "32 word"
type_synonym u64 = "64 word"
type_synonym bytes = "u8 list"

text \<open>
  \<open>queue_laws\<close>: what the queue and pool operations do to the abstract contents;
  \<open>seq_arith\<close>: sequence-number arithmetic.
\<close>

named_theorems queue_laws
named_theorems seq_arith

section \<open>Words read as naturals\<close>

lemma unat_and_mask_power:
  "unat ((w :: 'a::len word) AND (2 ^ k - 1)) = unat w mod 2 ^ k"
proof -
  have "w AND (2 ^ k - 1) = take_bit k w"
    by (simp add: take_bit_eq_mask mask_eq_exp_minus_1)
  then have "unat (w AND (2 ^ k - 1)) = take_bit k (unat w)"
    by (simp only: unsigned_take_bit_eq)
  then show ?thesis
    by (simp only: take_bit_eq_mod)
qed

lemma unat_of_nat_mod:
  "unat (of_nat n :: 'a::len word) = n mod 2 ^ LENGTH('a)"
  by (simp add: unat_of_nat take_bit_eq_mod)

lemma unat_of_nat_small:
  "n < 2 ^ LENGTH('a) \<Longrightarrow> unat (of_nat n :: 'a::len word) = n"
  by (simp add: unat_of_nat_mod)

lemma mod_power_of_word:
  assumes "k \<le> LENGTH('a::len)"
  shows "unat (of_nat n :: 'a word) mod 2 ^ k = n mod 2 ^ k"
  using assms by (simp add: unat_of_nat_mod mod_mod_cancel le_imp_power_dvd)

lemma of_nat_diff_word:
  "m \<le> n \<Longrightarrow> (of_nat n - of_nat m :: 'a::len word) = of_nat (n - m)"
  by simp

lemma unat_of_nat_diff:
  assumes "m \<le> n" "n - m < 2 ^ LENGTH('a)"
  shows "unat (of_nat n - of_nat m :: 'a::len word) = n - m"
  using assms by (simp add: unat_of_nat_small del: of_nat_diff flip: of_nat_diff)

lemma unat_of_nat_diff64:
  assumes "m \<le> n" "n - m < 2 ^ 64"
  shows "unat (of_nat n - of_nat m :: u64) = n - m"
  using assms by (intro unat_of_nat_diff) simp_all

lemma unat_of_nat_u64: "n < 2 ^ 64 \<Longrightarrow> unat (of_nat n :: u64) = n"
  by (rule unat_of_nat_small) simp

lemma unat_of_nat_u32: "n < 2 ^ 32 \<Longrightarrow> unat (of_nat n :: u32) = n"
  by (rule unat_of_nat_small) simp

lemma unat_of_nat_u16: "n < 2 ^ 16 \<Longrightarrow> unat (of_nat n :: u16) = n"
  by (rule unat_of_nat_small) simp

lemma unat_u64_less: "unat (w :: u64) < 2 ^ 64"
  using unsigned_less [of w] by simp

lemma unat_u32_less: "unat (w :: u32) < 2 ^ 32"
  using unsigned_less [of w] by simp

lemma unat_u16_less: "unat (w :: u16) < 2 ^ 16"
  using unsigned_less [of w] by simp

lemma unat_u8_less: "unat (w :: u8) < 2 ^ 8"
  using unsigned_less [of w] by simp

lemma nth_update_same: "g v = g (xs ! i) \<Longrightarrow> g (xs[i := v] ! x) = g (xs ! x)"
  by (cases "x = i"; cases "i < length xs") (simp_all add: list_update_beyond)

lemma upt_0_2: "[0..<2] = [0, 1]"
  by (simp add: upt_rec)

lemma replicate_2: "replicate 2 x = [x, x]"
  by (simp add: numeral_2_eq_2)

lemma unat_ucast_up:
  assumes "LENGTH('a) \<le> LENGTH('b)"
  shows "unat (ucast (a :: 'a :: len word) :: 'b :: len word) = unat a"
proof -
  have "unat a < 2 ^ LENGTH('a)" by (rule unsigned_less)
  also have "\<dots> \<le> 2 ^ LENGTH('b)" using assms by (simp add: power_increasing)
  finally show ?thesis by (simp add: unsigned_ucast_eq take_bit_nat_eq_self_iff)
qed

end
