(* ===== verification/Spsc_Ring.thy ===== *)
theory Spsc_Ring
  imports Prelude
begin

unbundle bit_operations_syntax

text \<open>
  The single-producer/single-consumer ring of \<^verbatim>\<open>include/spsc_ring.h\<close>.
  \<^item> The class template \<^verbatim>\<open>SPSCRing<T, N>\<close> is the record \<open>spsc_ring\<close>; \<open>N\<close> is the length of
    \<open>rg_slots\<close>, and the \<^verbatim>\<open>static_assert\<close> on \<open>N\<close> is part of the invariant \<open>spsc_ok\<close>.
  \<^item> \<open>spsc_push\<close>, \<open>spsc_pop\<close>, \<open>spsc_empty\<close>, \<open>spsc_size\<close> are the member functions.
  \<^item> \<open>bounded_fifo\<close> is the contract the clients of a ring rely on; the ring is an instance
    of it.
\<close>

section \<open>The ring\<close>

record 'a spsc_ring =
  rg_head :: u64
  rg_tail :: u64
  rg_slots :: "'a list"

definition spsc_N :: "'a spsc_ring \<Rightarrow> u64" where
  "spsc_N r = of_nat (length (rg_slots r))"

text \<open>\<open>rg_head\<close> and \<open>rg_tail\<close> start at zero; the slots start with arbitrary contents.\<close>

definition spsc_init :: "'a list \<Rightarrow> 'a spsc_ring" where
  "spsc_init xs = \<lparr>rg_head = 0, rg_tail = 0, rg_slots = xs\<rparr>"

definition spsc_push :: "'a spsc_ring \<Rightarrow> 'a \<Rightarrow> bool \<times> 'a spsc_ring" where
  "spsc_push r item =
     (let tail = rg_tail r; head = rg_head r in
      if tail - head = spsc_N r then (False, r)
      else (True, r\<lparr>rg_slots := (rg_slots r)[unat (tail AND (spsc_N r - 1)) := item],
                    rg_tail := tail + 1\<rparr>))"

definition spsc_pop :: "'a spsc_ring \<Rightarrow> 'a option \<times> 'a spsc_ring" where
  "spsc_pop r =
     (let head = rg_head r; tail = rg_tail r in
      if head = tail then (None, r)
      else (Some (rg_slots r ! unat (head AND (spsc_N r - 1))), r\<lparr>rg_head := head + 1\<rparr>))"

definition spsc_empty :: "'a spsc_ring \<Rightarrow> bool" where
  "spsc_empty r \<longleftrightarrow> rg_head r = rg_tail r"

definition spsc_size :: "'a spsc_ring \<Rightarrow> u64" where
  "spsc_size r = rg_tail r - rg_head r"

section \<open>Invariant and abstract contents\<close>

fun pow2_upto :: "nat \<Rightarrow> nat \<Rightarrow> bool" where
  "pow2_upto 0 n = (n = 1)"
| "pow2_upto (Suc b) n = (n = 2 ^ Suc b \<or> pow2_upto b n)"

definition spsc_ok :: "'a spsc_ring \<Rightarrow> bool" where
  "spsc_ok r \<longleftrightarrow> pow2_upto 63 (length (rg_slots r)) \<and>
     unat (rg_tail r - rg_head r) \<le> length (rg_slots r)"

definition spsc_slot :: "'a spsc_ring \<Rightarrow> nat \<Rightarrow> nat" where
  "spsc_slot r i = unat ((rg_head r + of_nat i) AND (spsc_N r - 1))"

definition spsc_contents :: "'a spsc_ring \<Rightarrow> 'a list" where
  "spsc_contents r = map (\<lambda>i. rg_slots r ! spsc_slot r i) [0..<unat (rg_tail r - rg_head r)]"

lemma pow2_upto_iff: "pow2_upto b n \<longleftrightarrow> (\<exists>k\<le>b. n = 2 ^ k)"
  by (induction b) (auto simp: le_Suc_eq)

lemma spsc_okE:
  assumes "spsc_ok r"
  obtains k where "k \<le> 63" "length (rg_slots r) = 2 ^ k" "unat (rg_tail r - rg_head r) \<le> 2 ^ k"
  using assms unfolding spsc_ok_def pow2_upto_iff by auto

lemma spsc_okI:
  assumes "k \<le> 63" "length (rg_slots r) = 2 ^ k" "unat (rg_tail r - rg_head r) \<le> 2 ^ k"
  shows "spsc_ok r"
  using assms unfolding spsc_ok_def pow2_upto_iff by auto

lemma unat_mask_slot:
  assumes "length (rg_slots r) = 2 ^ k"
  shows "unat (w AND (spsc_N r - 1)) = unat w mod 2 ^ k"
proof -
  have "spsc_N r = 2 ^ k" using assms by (simp add: spsc_N_def)
  then show ?thesis by (simp add: unat_and_mask_power)
qed

lemma spsc_slot_mod:
  assumes "k \<le> 63" "length (rg_slots r) = 2 ^ k"
  shows "spsc_slot r i = (unat (rg_head r) + i) mod 2 ^ k"
proof -
  have "rg_head r + of_nat i = (of_nat (unat (rg_head r) + i) :: u64)" by simp
  then show ?thesis
    using assms mod_power_of_word [where 'a = 64, of k "unat (rg_head r) + i"]
    by (simp add: spsc_slot_def unat_mask_slot)
qed

lemma mod_eq_small:
  fixes a i j m :: nat
  assumes "(a + i) mod m = (a + j) mod m" "i < m" "j < m"
  shows "i = j"
proof -
  have "i = j" if eq: "(a + j) mod m = (a + i) mod m" and le: "i \<le> j" and "j < m" for i j
  proof -
    have "m dvd (a + j) - (a + i)"
      using eq le by (subst mod_eq_dvd_iff_nat [symmetric]) auto
    then show ?thesis using le \<open>j < m\<close> by (auto dest: dvd_imp_le)
  qed
  from this [of i j] this [of j i] show ?thesis using assms by (metis nle_le)
qed

lemma spsc_slot_less:
  "k \<le> 63 \<Longrightarrow> length (rg_slots r) = 2 ^ k \<Longrightarrow> spsc_slot r i < length (rg_slots r)"
  by (simp add: spsc_slot_mod)

lemma spsc_slot_inj:
  assumes "k \<le> 63" "length (rg_slots r) = 2 ^ k" "i < 2 ^ k" "j < 2 ^ k"
  shows "spsc_slot r i = spsc_slot r j \<longleftrightarrow> i = j"
  using assms mod_eq_small [of "unat (rg_head r)" i "2 ^ k" j]
  by (auto simp: spsc_slot_mod)

lemma length_spsc_contents [simp]:
  "length (spsc_contents r) = unat (rg_tail r - rg_head r)"
  by (simp add: spsc_contents_def)

lemma unat_eq_2power:
  assumes "k \<le> 63"
  shows "(w :: u64) = 2 ^ k \<longleftrightarrow> unat w = 2 ^ k"
proof -
  have "(2 :: nat) ^ k < 2 ^ 64"
    using assms by (intro power_strict_increasing) simp_all
  then have "unat (2 ^ k :: u64) = 2 ^ k"
    using unat_of_nat_small [where 'a = 64, of "2 ^ k"] by simp
  then show ?thesis by (metis unsigned_word_eqI)
qed

lemma unat_add_one_diff:
  fixes t h :: u64
  assumes "unat (t - h) < 2 ^ 63"
  shows "unat (t + 1 - h) = unat (t - h) + 1"
proof -
  have "t + 1 - h = (t - h) + 1" by simp
  then have "unat (t + 1 - h) = (unat (t - h) + 1) mod 2 ^ 64"
    by (simp only: unat_word_ariths) simp
  then show ?thesis using assms by simp
qed

lemma unat_diff_add_one:
  fixes t h :: u64
  assumes "h \<noteq> t"
  shows "unat (t - (h + 1)) = unat (t - h) - 1"
proof -
  have "t - (h + 1) = (t - h) - 1" by simp
  moreover have "t - h \<noteq> 0" using assms by auto
  ultimately show ?thesis by (metis unat_minus_one)
qed

section \<open>The operations on the abstract contents\<close>

lemma spsc_push_full:
  assumes "spsc_ok r" "length (spsc_contents r) = length (rg_slots r)"
  shows "spsc_push r x = (False, r)"
proof -
  obtain k where "k \<le> 63" "length (rg_slots r) = 2 ^ k"
    using assms(1) by (rule spsc_okE)
  then show ?thesis
    using assms(2) by (simp add: spsc_push_def Let_def spsc_N_def unat_eq_2power)
qed

lemma spsc_push_room:
  assumes "spsc_ok r" "length (spsc_contents r) < length (rg_slots r)"
  shows "\<exists>r'. spsc_push r x = (True, r') \<and> spsc_ok r' \<and>
           spsc_contents r' = spsc_contents r @ [x] \<and> length (rg_slots r') = length (rg_slots r)"
proof -
  obtain k where k: "k \<le> 63" "length (rg_slots r) = 2 ^ k"
    using assms(1) by (rule spsc_okE)
  let ?n = "unat (rg_tail r - rg_head r)"
  have n: "?n < 2 ^ k" using assms(2) k by simp
  have n63: "?n < 2 ^ 63"
    using n k(1) by (meson less_le_trans power_increasing one_le_numeral)
  have ti: "unat (rg_tail r AND (spsc_N r - 1)) = spsc_slot r ?n"
    by (simp add: spsc_slot_def)
  define r' where "r' = r\<lparr>rg_slots := (rg_slots r)[spsc_slot r ?n := x], rg_tail := rg_tail r + 1\<rparr>"
  have push: "spsc_push r x = (True, r')"
    using n k by (simp add: spsc_push_def Let_def ti r'_def) (simp add: spsc_N_def unat_eq_2power)
  have slot: "spsc_slot r' i = spsc_slot r i" for i
    by (simp add: spsc_slot_def spsc_N_def r'_def)
  have size: "unat (rg_tail r' - rg_head r') = ?n + 1"
    using unat_add_one_diff [OF n63] by (simp add: r'_def)
  have "spsc_ok r'"
    using k n size by (intro spsc_okI [of k]) (simp_all add: r'_def)
  moreover have "spsc_contents r' = spsc_contents r @ [x]"
  proof -
    have "rg_slots r' ! spsc_slot r i = rg_slots r ! spsc_slot r i" if "i < ?n" for i
      using that n k spsc_slot_inj [of k r ?n i] by (simp add: r'_def)
    moreover have "rg_slots r' ! spsc_slot r ?n = x"
      using spsc_slot_less [OF k] by (simp add: r'_def)
    ultimately show ?thesis
      by (simp add: spsc_contents_def size slot)
  qed
  ultimately show ?thesis using push by (simp add: r'_def)
qed

lemma spsc_pop_empty:
  "spsc_contents r = [] \<Longrightarrow> spsc_pop r = (None, r)"
  by (auto simp: spsc_contents_def spsc_pop_def Let_def unat_eq_zero)

lemma spsc_pop_Cons:
  assumes "spsc_ok r" "spsc_contents r = x # xs"
  shows "\<exists>r'. spsc_pop r = (Some x, r') \<and> spsc_ok r' \<and> spsc_contents r' = xs \<and>
           rg_slots r' = rg_slots r"
proof -
  obtain k where k: "k \<le> 63" "length (rg_slots r) = 2 ^ k" "unat (rg_tail r - rg_head r) \<le> 2 ^ k"
    using assms(1) by (rule spsc_okE)
  let ?n = "unat (rg_tail r - rg_head r)"
  define r' where "r' = r\<lparr>rg_head := rg_head r + 1\<rparr>"
  have "?n = Suc (length xs)" using arg_cong [OF assms(2), of length] by simp
  then have ne: "rg_head r \<noteq> rg_tail r" and n: "?n = Suc (?n - 1)" by auto
  have size: "unat (rg_tail r' - rg_head r') = ?n - 1"
    using unat_diff_add_one [OF ne] by (simp add: r'_def)
  have slot: "spsc_slot r' i = spsc_slot r (Suc i)" for i
    by (simp add: spsc_slot_def spsc_N_def r'_def algebra_simps)
  have "x # xs = rg_slots r ! spsc_slot r 0 # map (\<lambda>i. rg_slots r ! spsc_slot r (Suc i)) [0..<?n - 1]"
    using assms(2) by (subst (asm) spsc_contents_def, subst (asm) n, subst (asm) upt_conv_Cons)
      (simp_all add: map_Suc_upt [symmetric] comp_def del: upt_Suc)
  then have x: "x = rg_slots r ! spsc_slot r 0" and xs: "xs = spsc_contents r'"
    by (simp_all add: spsc_contents_def size slot, simp add: r'_def)
  have "spsc_pop r = (Some x, r')"
    using ne x by (simp add: spsc_pop_def Let_def spsc_slot_def r'_def)
  moreover have "spsc_ok r'"
    using k size by (intro spsc_okI [of k]) (simp_all add: r'_def)
  ultimately show ?thesis using xs by (simp add: r'_def)
qed

section \<open>The queue contract\<close>

text \<open>
  What the producers and consumers of a queue rely on: a queue holds at most \<open>cap\<close> items,
  \<open>push\<close> appends or, on a full queue, refuses and changes nothing, \<open>pop\<close> takes the oldest
  item or, on an empty queue, reports so and changes nothing.
\<close>

datatype 'a fifo_op = Push 'a | Pop

text \<open>A sequence of calls: the accepted items, the items handed out, the final queue.\<close>

fun fifo_run ::
  "('q \<Rightarrow> 'a \<Rightarrow> bool \<times> 'q) \<Rightarrow> ('q \<Rightarrow> 'a option \<times> 'q) \<Rightarrow> 'q \<Rightarrow> 'a fifo_op list
    \<Rightarrow> 'a list \<times> 'a list \<times> 'q" where
  "fifo_run push pop q [] = ([], [], q)"
| "fifo_run push pop q (Push x # ops) =
     (let (b, q1) = push q x; (acc, out, q2) = fifo_run push pop q1 ops
      in (if b then x # acc else acc, out, q2))"
| "fifo_run push pop q (Pop # ops) =
     (let (v, q1) = pop q; (acc, out, q2) = fifo_run push pop q1 ops
      in (acc, case v of None \<Rightarrow> out | Some x \<Rightarrow> x # out, q2))"

locale bounded_fifo =
  fixes push :: "'q \<Rightarrow> 'a \<Rightarrow> bool \<times> 'q"
    and pop :: "'q \<Rightarrow> 'a option \<times> 'q"
    and contents :: "'q \<Rightarrow> 'a list"
    and cap :: "'q \<Rightarrow> nat"
    and ok :: "'q \<Rightarrow> bool"
  assumes bounded: "ok q \<Longrightarrow> length (contents q) \<le> cap q"
    and push_full: "ok q \<Longrightarrow> length (contents q) = cap q \<Longrightarrow> push q x = (False, q)"
    and push_room: "ok q \<Longrightarrow> length (contents q) < cap q \<Longrightarrow>
      \<exists>q'. push q x = (True, q') \<and> ok q' \<and> contents q' = contents q @ [x] \<and> cap q' = cap q"
    and pop_empty: "ok q \<Longrightarrow> contents q = [] \<Longrightarrow> pop q = (None, q)"
    and pop_Cons: "ok q \<Longrightarrow> contents q = x # xs \<Longrightarrow>
      \<exists>q'. pop q = (Some x, q') \<and> ok q' \<and> contents q' = xs \<and> cap q' = cap q"
begin

lemma push_result:
  assumes "ok q" "push q x = (b, q')"
  shows "b \<longleftrightarrow> length (contents q) < cap q"
    and "ok q'" and "cap q' = cap q"
    and "contents q' = contents q @ (if b then [x] else [])"
  using assms bounded [of q] push_full [of q x] push_room [of q x]
  by (cases "length (contents q) < cap q"; force)+

lemma pop_result:
  assumes "ok q" "pop q = (v, q')"
  shows "ok q'" and "cap q' = cap q"
    and "contents q = (case v of None \<Rightarrow> [] | Some x \<Rightarrow> [x]) @ contents q'"
    and "v = None \<longleftrightarrow> contents q = []"
  using assms pop_empty [of q] pop_Cons [of q]
  by (cases "contents q"; force)+

lemma run_fifo:
  assumes "ok q" "fifo_run push pop q ops = (acc, out, q')"
  shows "contents q @ acc = out @ contents q' \<and> ok q' \<and> cap q' = cap q"
  using assms
proof (induction ops arbitrary: q acc out q')
  case Nil
  then show ?case by simp
next
  case (Cons op ops)
  show ?case
  proof (cases op)
    case (Push x)
    obtain b q1 where p: "push q x = (b, q1)" by fastforce
    obtain acc1 out1 q2 where r: "fifo_run push pop q1 ops = (acc1, out1, q2)"
      by (metis prod_cases3)
    have "contents q1 @ acc1 = out1 @ contents q2 \<and> ok q2 \<and> cap q2 = cap q1"
      using Cons.IH [OF push_result(2) [OF Cons.prems(1) p] r] .
    then show ?thesis
      using Cons.prems p r Push push_result [OF Cons.prems(1) p] by (auto split: if_splits)
  next
    case Pop
    obtain v q1 where p: "pop q = (v, q1)" by fastforce
    obtain acc1 out1 q2 where r: "fifo_run push pop q1 ops = (acc1, out1, q2)"
      by (metis prod_cases3)
    have "contents q1 @ acc1 = out1 @ contents q2 \<and> ok q2 \<and> cap q2 = cap q1"
      using Cons.IH [OF pop_result(1) [OF Cons.prems(1) p] r] .
    then show ?thesis
      using Cons.prems(2) p r Pop pop_result(2,3) [OF Cons.prems(1) p] by (cases v) auto
  qed
qed

end

interpretation spsc: bounded_fifo spsc_push spsc_pop spsc_contents
  "\<lambda>r. length (rg_slots r)" spsc_ok
proof unfold_locales
  fix q :: "'a spsc_ring" and x xs
  assume ok: "spsc_ok q"
  show "length (spsc_contents q) \<le> length (rg_slots q)"
    using ok by (simp add: spsc_ok_def)
  show "spsc_push q x = (False, q)" if "length (spsc_contents q) = length (rg_slots q)"
    using ok that by (rule spsc_push_full)
  show "\<exists>q'. spsc_push q x = (True, q') \<and> spsc_ok q' \<and> spsc_contents q' = spsc_contents q @ [x] \<and>
      length (rg_slots q') = length (rg_slots q)"
    if "length (spsc_contents q) < length (rg_slots q)"
    using ok that by (rule spsc_push_room)
  show "spsc_pop q = (None, q)" if "spsc_contents q = []"
    using that by (rule spsc_pop_empty)
  show "\<exists>q'. spsc_pop q = (Some x, q') \<and> spsc_ok q' \<and> spsc_contents q' = xs \<and>
      length (rg_slots q') = length (rg_slots q)" if "spsc_contents q = x # xs"
    using spsc_pop_Cons [OF ok that] by force
qed

declare spsc.push_result [queue_laws] spsc.pop_result [queue_laws]

end
