(* ===== verification/Spsc_Concurrent.thy ===== *)
theory Spsc_Concurrent
  imports Spsc_Ring
begin

unbundle bit_operations_syntax

text \<open>
  The ring of \<^verbatim>\<open>include/spsc_ring.h\<close> under concurrency: one producer thread in \<^verbatim>\<open>push\<close> and one
  consumer thread in \<^verbatim>\<open>pop\<close>, interleaved at every atomic access and at the plain access to
  the slot. Each rule of \<open>spsc_step\<close> is one of those accesses.
  \<^item> A thread reads its own index exactly (the relaxed load). The acquire load of the other
    thread's index may return any value between the one this thread saw last and the current
    one, as coherence allows; \<open>p_seen\<close> and \<open>c_seen\<close> are those last values.
  \<^item> \<open>pushed\<close> and \<open>popped\<close> record the items of the calls that returned \<^verbatim>\<open>true\<close>.
\<close>

section \<open>The two threads\<close>

datatype 'a producer =
    PIdle
  | PTail 'a u64        \<comment> \<open>\<^verbatim>\<open>tail\<close> loaded\<close>
  | PHead 'a u64 u64    \<comment> \<open>\<^verbatim>\<open>tail\<close> and \<^verbatim>\<open>head\<close> loaded\<close>
  | PWrote 'a u64       \<comment> \<open>slot written, \<^verbatim>\<open>tail_\<close> not yet stored\<close>

datatype 'a consumer =
    CIdle
  | CHead u64
  | CTail u64 u64
  | CRead u64 'a        \<comment> \<open>slot read, \<^verbatim>\<open>head_\<close> not yet stored\<close>

record 'a spsc_sys =
  ring :: "'a spsc_ring"
  prod :: "'a producer"
  cons :: "'a consumer"
  p_seen :: u64
  c_seen :: u64
  pushed :: "'a list"
  popped :: "'a list"

definition spsc_sys_init :: "'a list \<Rightarrow> 'a spsc_sys" where
  "spsc_sys_init xs = \<lparr>ring = spsc_init xs, prod = PIdle, cons = CIdle,
     p_seen = 0, c_seen = 0, pushed = [], popped = []\<rparr>"

definition may_load :: "u64 \<Rightarrow> u64 \<Rightarrow> u64 \<Rightarrow> bool" where
  "may_load seen current v \<longleftrightarrow> unat (v - seen) \<le> unat (current - seen)"

inductive spsc_step :: "'a spsc_sys \<Rightarrow> 'a spsc_sys \<Rightarrow> bool" where
  push_load_tail: "prod s = PIdle \<Longrightarrow>
     spsc_step s (s\<lparr>prod := PTail x (rg_tail (ring s))\<rparr>)"
| push_load_head: "prod s = PTail x t \<Longrightarrow> may_load (p_seen s) (rg_head (ring s)) h \<Longrightarrow>
     spsc_step s (s\<lparr>prod := PHead x t h, p_seen := h\<rparr>)"
| push_full: "prod s = PHead x t h \<Longrightarrow> t - h = spsc_N (ring s) \<Longrightarrow>
     spsc_step s (s\<lparr>prod := PIdle\<rparr>)"
| push_write: "prod s = PHead x t h \<Longrightarrow> t - h \<noteq> spsc_N (ring s) \<Longrightarrow>
     spsc_step s (s\<lparr>prod := PWrote x t,
       ring := (ring s)\<lparr>rg_slots := (rg_slots (ring s))[unat (t AND (spsc_N (ring s) - 1)) := x]\<rparr>\<rparr>)"
| push_store_tail: "prod s = PWrote x t \<Longrightarrow>
     spsc_step s (s\<lparr>prod := PIdle, ring := (ring s)\<lparr>rg_tail := t + 1\<rparr>,
       pushed := pushed s @ [x]\<rparr>)"
| pop_load_head: "cons s = CIdle \<Longrightarrow>
     spsc_step s (s\<lparr>cons := CHead (rg_head (ring s))\<rparr>)"
| pop_load_tail: "cons s = CHead h \<Longrightarrow> may_load (c_seen s) (rg_tail (ring s)) t \<Longrightarrow>
     spsc_step s (s\<lparr>cons := CTail h t, c_seen := t\<rparr>)"
| pop_empty: "cons s = CTail h t \<Longrightarrow> h = t \<Longrightarrow>
     spsc_step s (s\<lparr>cons := CIdle\<rparr>)"
| pop_read: "cons s = CTail h t \<Longrightarrow> h \<noteq> t \<Longrightarrow>
     spsc_step s (s\<lparr>cons := CRead h (rg_slots (ring s) ! unat (h AND (spsc_N (ring s) - 1)))\<rparr>)"
| pop_store_head: "cons s = CRead h x \<Longrightarrow>
     spsc_step s (s\<lparr>cons := CIdle, ring := (ring s)\<lparr>rg_head := h + 1\<rparr>,
       popped := popped s @ [x]\<rparr>)"

inductive spsc_reach :: "'a list \<Rightarrow> 'a spsc_sys \<Rightarrow> bool" for xs where
  reach_init: "spsc_reach xs (spsc_sys_init xs)"
| reach_step: "spsc_reach xs s \<Longrightarrow> spsc_step s t \<Longrightarrow> spsc_reach xs t"

section \<open>The invariant\<close>

text \<open>
  \<open>np\<close> and \<open>nc\<close> count the completed pushes and pops without wrapping; \<open>ps\<close> and \<open>cs\<close> are the
  counts behind \<open>p_seen\<close> and \<open>c_seen\<close>.
\<close>

text \<open>What a thread in the middle of a call knows, by its position in the call.\<close>

fun push_pc_ok :: "'a producer \<Rightarrow> u64 \<Rightarrow> u64 \<Rightarrow> bool \<Rightarrow> 'a \<Rightarrow> bool" where
  "push_pc_ok PIdle tail seen room slot = True"
| "push_pc_ok (PTail x t) tail seen room slot = (t = tail)"
| "push_pc_ok (PHead x t h) tail seen room slot = (t = tail \<and> h = seen)"
| "push_pc_ok (PWrote x t) tail seen room slot = (t = tail \<and> room \<and> slot = x)"

fun pop_pc_ok :: "'a consumer \<Rightarrow> u64 \<Rightarrow> u64 \<Rightarrow> bool \<Rightarrow> 'a \<Rightarrow> bool" where
  "pop_pc_ok CIdle head seen avail item = True"
| "pop_pc_ok (CHead h) head seen avail item = (h = head)"
| "pop_pc_ok (CTail h t) head seen avail item = (h = head \<and> t = seen)"
| "pop_pc_ok (CRead h x) head seen avail item = (h = head \<and> avail \<and> x = item)"

definition producer_ok :: "'a spsc_sys \<Rightarrow> nat \<Rightarrow> bool" where
  "producer_ok s k \<longleftrightarrow> (\<exists>ps. p_seen s = of_nat ps \<and> ps \<le> length (popped s) \<and>
     length (pushed s) \<le> ps + 2 ^ k \<and>
     push_pc_ok (prod s) (rg_tail (ring s)) (p_seen s) (length (pushed s) < ps + 2 ^ k)
       (rg_slots (ring s) ! (length (pushed s) mod 2 ^ k)))"

definition consumer_ok :: "'a spsc_sys \<Rightarrow> bool" where
  "consumer_ok s \<longleftrightarrow> (\<exists>cs. c_seen s = of_nat cs \<and> length (popped s) \<le> cs \<and>
     cs \<le> length (pushed s) \<and>
     pop_pc_ok (cons s) (rg_head (ring s)) (c_seen s) (length (popped s) < cs)
       (pushed s ! length (popped s)))"

definition data_ok :: "'a spsc_sys \<Rightarrow> nat \<Rightarrow> bool" where
  "data_ok s k \<longleftrightarrow> k \<le> 63 \<and> length (rg_slots (ring s)) = 2 ^ k \<and>
     rg_head (ring s) = of_nat (length (popped s)) \<and>
     rg_tail (ring s) = of_nat (length (pushed s)) \<and>
     length (popped s) \<le> length (pushed s) \<and>
     length (pushed s) \<le> length (popped s) + 2 ^ k \<and>
     popped s = take (length (popped s)) (pushed s) \<and>
     (\<forall>i. length (popped s) \<le> i \<longrightarrow> i < length (pushed s) \<longrightarrow>
        rg_slots (ring s) ! (i mod 2 ^ k) = pushed s ! i)"

definition spsc_inv :: "'a spsc_sys \<Rightarrow> nat \<Rightarrow> bool" where
  "spsc_inv s k \<longleftrightarrow> data_ok s k \<and> producer_ok s k \<and> consumer_ok s"

lemma word_window:
  fixes v :: u64
  assumes "may_load (of_nat a) (of_nat b) v" "a \<le> b" "b - a < 2 ^ 64"
  obtains d where "v = of_nat d" "a \<le> d" "d \<le> b"
proof
  let ?d = "a + unat (v - of_nat a)"
  show "v = of_nat ?d" by simp
  show "a \<le> ?d" by simp
  have "unat (of_nat b - of_nat a :: u64) = b - a"
    by (rule unat_of_nat_diff64) (fact assms(2,3))+
  then show "?d \<le> b"
    using assms(1,2) by (simp add: may_load_def)
qed

lemma pow2_k_less: "k \<le> 63 \<Longrightarrow> (2 :: nat) ^ k < 2 ^ 64"
  by (intro power_strict_increasing) simp_all

lemma slot_index:
  assumes "data_ok s k"
  shows "unat ((of_nat n :: u64) AND (spsc_N (ring s) - 1)) = n mod 2 ^ k"
  using assms mod_power_of_word [where 'a = 64, of k n]
  by (simp add: data_ok_def unat_mask_slot)

text \<open>The full and empty tests decide the unbounded counts.\<close>

lemma full_test:
  assumes "data_ok s k" "ps \<le> n" "n \<le> ps + 2 ^ k"
  shows "(of_nat n - of_nat ps :: u64) = spsc_N (ring s) \<longleftrightarrow> n = ps + 2 ^ k"
proof -
  have k: "k \<le> 63" and N: "spsc_N (ring s) = 2 ^ k"
    using assms(1) by (simp_all add: data_ok_def spsc_N_def)
  have "unat (of_nat n - of_nat ps :: u64) = n - ps"
    using assms(2,3) pow2_k_less [OF k] by (intro unat_of_nat_diff64) linarith+
  then show ?thesis
    using assms(2,3) by (auto simp: N unat_eq_2power [OF k])
qed

lemma empty_test:
  assumes "a \<le> b" "b - a < 2 ^ 64"
  shows "(of_nat a :: u64) = of_nat b \<longleftrightarrow> a = b"
  using unat_of_nat_diff64 [OF assms] assms(1) by (metis diff_is_0_eq diff_self le_antisym unat_0)

lemma mod_window:
  fixes i n c m :: nat
  assumes "c \<le> i" "i < n" "n < c + m"
  shows "i mod m \<noteq> n mod m"
proof
  assume "i mod m = n mod m"
  then have "(c + (i - c)) mod m = (c + (n - c)) mod m" using assms by simp
  then have "i - c = n - c" by (rule mod_eq_small) (use assms in linarith)+
  then show False using assms by linarith
qed

section \<open>Every step keeps the invariant\<close>

lemma frame_simps [simp]:
  "data_ok (s\<lparr>prod := p\<rparr>) k = data_ok s k" "data_ok (s\<lparr>cons := c\<rparr>) k = data_ok s k"
  "data_ok (s\<lparr>p_seen := w\<rparr>) k = data_ok s k" "data_ok (s\<lparr>c_seen := w\<rparr>) k = data_ok s k"
  "producer_ok (s\<lparr>cons := c\<rparr>) k = producer_ok s k"
  "producer_ok (s\<lparr>c_seen := w\<rparr>) k = producer_ok s k"
  "consumer_ok (s\<lparr>prod := p\<rparr>) = consumer_ok s"
  "consumer_ok (s\<lparr>p_seen := w\<rparr>) = consumer_ok s"
  by (simp_all add: data_ok_def producer_ok_def consumer_ok_def)

lemma pop_pc_ok_push:
  "pop_pc_ok c head seen avail item \<Longrightarrow> (avail \<Longrightarrow> item' = item) \<Longrightarrow> pop_pc_ok c head seen avail item'"
  by (cases c) auto

lemma inv_push_write:
  assumes "spsc_inv s k" "prod s = PHead x t h" "t - h \<noteq> spsc_N (ring s)"
  shows "spsc_inv (s\<lparr>prod := PWrote x t,
       ring := (ring s)\<lparr>rg_slots := (rg_slots (ring s))[unat (t AND (spsc_N (ring s) - 1)) := x]\<rparr>\<rparr>) k"
proof -
  let ?np = "length (pushed s)" and ?nc = "length (popped s)"
  have d: "data_ok s k" and c: "consumer_ok s" using assms(1) by (simp_all add: spsc_inv_def)
  obtain ps where ps: "p_seen s = of_nat ps" "ps \<le> ?nc" "?np \<le> ps + 2 ^ k"
    and t: "t = of_nat ?np" "h = of_nat ps"
    using assms(1,2) by (auto simp: spsc_inv_def producer_ok_def data_ok_def)
  have "?nc \<le> ?np" using d by (simp add: data_ok_def)
  then have room: "?np < ps + 2 ^ k"
    using assms(3) full_test [OF d, of ps ?np] ps t by auto
  have idx: "unat (t AND (spsc_N (ring s) - 1)) = ?np mod 2 ^ k"
    using slot_index [OF d] t by simp
  have "?np mod 2 ^ k \<noteq> i mod 2 ^ k" if "?nc \<le> i" "i < ?np" for i
    using mod_window [OF that, of "2 ^ k"] room ps by linarith
  then show ?thesis
    unfolding idx using c d ps room t
    by (auto simp: spsc_inv_def consumer_ok_def producer_ok_def data_ok_def)
qed

lemma inv_push_store_tail:
  assumes "spsc_inv s k" "prod s = PWrote x t"
  shows "spsc_inv (s\<lparr>prod := PIdle, ring := (ring s)\<lparr>rg_tail := t + 1\<rparr>,
       pushed := pushed s @ [x]\<rparr>) k"
proof -
  let ?np = "length (pushed s)" and ?nc = "length (popped s)"
  have d: "data_ok s k" using assms(1) by (simp add: spsc_inv_def)
  obtain ps where ps: "p_seen s = of_nat ps" "ps \<le> ?nc" "?np < ps + 2 ^ k"
    and t: "t = of_nat ?np" "rg_slots (ring s) ! (?np mod 2 ^ k) = x"
    using assms by (auto simp: spsc_inv_def producer_ok_def data_ok_def)
  obtain cs where cs: "c_seen s = of_nat cs" "?nc \<le> cs" "cs \<le> ?np"
    and pc: "pop_pc_ok (cons s) (rg_head (ring s)) (c_seen s) (?nc < cs) (pushed s ! ?nc)"
    using assms(1) by (auto simp: spsc_inv_def consumer_ok_def)
  have "pop_pc_ok (cons s) (rg_head (ring s)) (c_seen s) (?nc < cs) ((pushed s @ [x]) ! ?nc)"
    using pc by (rule pop_pc_ok_push) (use cs in \<open>simp add: nth_append\<close>)
  then have "consumer_ok (s\<lparr>prod := PIdle, ring := (ring s)\<lparr>rg_tail := t + 1\<rparr>,
       pushed := pushed s @ [x]\<rparr>)"
    using cs by (auto simp: consumer_ok_def intro!: exI [of _ cs])
  moreover have "data_ok (s\<lparr>prod := PIdle, ring := (ring s)\<lparr>rg_tail := t + 1\<rparr>,
       pushed := pushed s @ [x]\<rparr>) k"
    using d ps t by (auto simp: data_ok_def nth_append less_Suc_eq)
  moreover have "producer_ok (s\<lparr>prod := PIdle, ring := (ring s)\<lparr>rg_tail := t + 1\<rparr>,
       pushed := pushed s @ [x]\<rparr>) k"
    using ps by (auto simp: producer_ok_def intro!: exI [of _ ps])
  ultimately show ?thesis by (simp add: spsc_inv_def)
qed

lemma inv_pop_read:
  assumes "spsc_inv s k" "cons s = CTail h t" "h \<noteq> t"
  shows "spsc_inv (s\<lparr>cons := CRead h (rg_slots (ring s) ! unat (h AND (spsc_N (ring s) - 1)))\<rparr>) k"
proof -
  let ?np = "length (pushed s)" and ?nc = "length (popped s)"
  have d: "data_ok s k" and p: "producer_ok s k" using assms(1) by (simp_all add: spsc_inv_def)
  obtain cs where cs: "c_seen s = of_nat cs" "?nc \<le> cs" "cs \<le> ?np"
    and h: "h = of_nat ?nc" "t = of_nat cs"
    using assms(1,2) by (auto simp: spsc_inv_def consumer_ok_def data_ok_def)
  have "?nc < cs" using assms(3) cs(2) h by (cases "?nc = cs") auto
  moreover have "rg_slots (ring s) ! (?nc mod 2 ^ k) = pushed s ! ?nc"
    using d cs \<open>?nc < cs\<close> by (auto simp: data_ok_def)
  ultimately show ?thesis
    using d p cs h slot_index [OF d]
    by (auto simp: spsc_inv_def data_ok_def producer_ok_def consumer_ok_def)
qed

lemma inv_pop_store_head:
  assumes "spsc_inv s k" "cons s = CRead h x"
  shows "spsc_inv (s\<lparr>cons := CIdle, ring := (ring s)\<lparr>rg_head := h + 1\<rparr>,
       popped := popped s @ [x]\<rparr>) k"
proof -
  let ?np = "length (pushed s)" and ?nc = "length (popped s)"
  let ?s' = "s\<lparr>cons := CIdle, ring := (ring s)\<lparr>rg_head := h + 1\<rparr>, popped := popped s @ [x]\<rparr>"
  have d: "data_ok s k" and p: "producer_ok s k" using assms(1) by (simp_all add: spsc_inv_def)
  obtain cs where cs: "c_seen s = of_nat cs" "?nc < cs" "cs \<le> ?np"
    and h: "h = of_nat ?nc" "x = pushed s ! ?nc"
    using assms by (auto simp: spsc_inv_def consumer_ok_def data_ok_def)
  have "popped s @ [x] = take (Suc ?nc) (pushed s)"
    using d cs h by (auto simp: data_ok_def take_Suc_conv_app_nth)
  then have "data_ok ?s' k"
    using d cs h by (simp add: data_ok_def)
  moreover have "producer_ok ?s' k"
    using p by (auto simp: producer_ok_def)
  moreover have "consumer_ok ?s'"
    using cs by (auto simp: consumer_ok_def)
  ultimately show ?thesis by (simp add: spsc_inv_def)
qed

lemma inv_push_load_head:
  assumes "spsc_inv s k" "prod s = PTail x t" "may_load (p_seen s) (rg_head (ring s)) h"
  shows "spsc_inv (s\<lparr>prod := PHead x t h, p_seen := h\<rparr>) k"
proof -
  have d: "data_ok s k" using assms(1) by (simp add: spsc_inv_def)
  obtain ps where ps: "p_seen s = of_nat ps" "ps \<le> length (popped s)"
      "length (pushed s) \<le> ps + 2 ^ k" "t = rg_tail (ring s)"
    using assms by (auto simp: spsc_inv_def producer_ok_def)
  have near: "length (popped s) - ps < 2 ^ 64"
    using ps d pow2_k_less [of k] by (auto simp: data_ok_def)
  have "may_load (of_nat ps) (of_nat (length (popped s))) h"
    using assms(3) ps d by (simp add: data_ok_def)
  then obtain h' where "h = of_nat h'" "ps \<le> h'" "h' \<le> length (popped s)"
    using ps(2) near by (rule word_window)
  then show ?thesis
    using assms(1) ps
    by (auto simp: spsc_inv_def) (auto simp: producer_ok_def intro!: exI [of _ h'])
qed

lemma inv_pop_load_tail:
  assumes "spsc_inv s k" "cons s = CHead h" "may_load (c_seen s) (rg_tail (ring s)) t"
  shows "spsc_inv (s\<lparr>cons := CTail h t, c_seen := t\<rparr>) k"
proof -
  have d: "data_ok s k" using assms(1) by (simp add: spsc_inv_def)
  obtain cs where cs: "c_seen s = of_nat cs" "length (popped s) \<le> cs" "cs \<le> length (pushed s)"
      "h = rg_head (ring s)"
    using assms by (auto simp: spsc_inv_def consumer_ok_def)
  have near: "length (pushed s) - cs < 2 ^ 64"
    using cs d pow2_k_less [of k] by (auto simp: data_ok_def)
  have "may_load (of_nat cs) (of_nat (length (pushed s))) t"
    using assms(3) cs d by (simp add: data_ok_def)
  then obtain t' where "t = of_nat t'" "cs \<le> t'" "t' \<le> length (pushed s)"
    using cs(3) near by (rule word_window)
  then show ?thesis
    using assms(1) cs
    by (auto simp: spsc_inv_def) (auto simp: consumer_ok_def intro!: exI [of _ t'])
qed

lemma spsc_step_inv:
  assumes "spsc_step s t" "spsc_inv s k"
  shows "spsc_inv t k"
  using assms
proof (cases rule: spsc_step.cases)
  case push_load_tail
  then show ?thesis using assms(2) by (auto simp: spsc_inv_def producer_ok_def)
next
  case push_full
  then show ?thesis using assms(2) by (auto simp: spsc_inv_def producer_ok_def)
next
  case pop_load_head
  then show ?thesis using assms(2) by (auto simp: spsc_inv_def consumer_ok_def)
next
  case pop_empty
  then show ?thesis using assms(2) by (auto simp: spsc_inv_def consumer_ok_def)
qed (blast intro: inv_push_write inv_push_store_tail inv_pop_read inv_pop_store_head
    inv_push_load_head inv_pop_load_tail)+

lemma spsc_init_inv:
  assumes "pow2_upto 63 (length xs)"
  shows "\<exists>k. spsc_inv (spsc_sys_init xs) k"
  using assms
  by (auto simp: pow2_upto_iff spsc_inv_def data_ok_def producer_ok_def consumer_ok_def
      spsc_sys_init_def spsc_init_def)

lemma spsc_reach_inv:
  assumes "spsc_reach xs s" "pow2_upto 63 (length xs)"
  shows "\<exists>k. spsc_inv s k"
  using assms by (induction rule: spsc_reach.induct) (auto intro: spsc_init_inv dest: spsc_step_inv)

section \<open>Order, loss and races\<close>

lemma spsc_inv_contents:
  assumes "spsc_inv s k"
  shows "spsc_ok (ring s)" and "pushed s = popped s @ spsc_contents (ring s)"
proof -
  let ?np = "length (pushed s)" and ?nc = "length (popped s)"
  have d: "data_ok s k" using assms by (simp add: spsc_inv_def)
  then have k: "k \<le> 63" "length (rg_slots (ring s)) = 2 ^ k" and le: "?nc \<le> ?np" "?np - ?nc \<le> 2 ^ k"
    and take: "popped s = take ?nc (pushed s)"
    by (auto simp: data_ok_def)
  have "?np - ?nc < 2 ^ 64" using le pow2_k_less [OF k(1)] by linarith
  then have size: "unat (rg_tail (ring s) - rg_head (ring s)) = ?np - ?nc"
    using d le unat_of_nat_diff64 [of ?nc ?np] by (simp add: data_ok_def del: of_nat_diff)
  show "spsc_ok (ring s)" using k le size by (intro spsc_okI [of k]) simp_all
  have "rg_slots (ring s) ! spsc_slot (ring s) i = pushed s ! (?nc + i)" if "i < ?np - ?nc" for i
  proof -
    have "spsc_slot (ring s) i = (?nc + i) mod 2 ^ k"
      using d slot_index [OF d, of "?nc + i"] by (simp add: spsc_slot_def data_ok_def)
    then show ?thesis using d that by (simp add: data_ok_def)
  qed
  then have "spsc_contents (ring s) = drop ?nc (pushed s)"
    by (intro nth_equalityI) (auto simp: spsc_contents_def size)
  then show "pushed s = popped s @ spsc_contents (ring s)"
    using take by (metis append_take_drop_id)
qed

text \<open>A run: one item published, the producer about to write the next, the consumer about to read.\<close>

definition example_sys :: "u64 \<Rightarrow> nat list \<Rightarrow> nat producer \<Rightarrow> nat consumer \<Rightarrow> u64 \<Rightarrow> nat list \<Rightarrow> nat spsc_sys" where
  "example_sys tail slots p c cseen xs = \<lparr>ring = \<lparr>rg_head = 0, rg_tail = tail, rg_slots = slots\<rparr>,
     prod = p, cons = c, p_seen = 0, c_seen = cseen, pushed = xs, popped = []\<rparr>"

lemma example_size: "pow2_upto 63 (length [0, 0 :: nat])"
  by (auto simp: pow2_upto_iff intro!: exI [of _ 1])

lemma spsc_example_reach:
  "spsc_reach [0, 0] (example_sys 1 [7, 0] (PHead 8 1 0) (CTail 0 1) 1 [7])"
proof -
  let ?R = "spsc_reach [0, 0 :: nat]"
  note step = reach_step and ex = example_sys_def spsc_N_def may_load_def
  have "?R (example_sys 0 [0, 0] PIdle CIdle 0 [])"
    using reach_init [of "[0, 0 :: nat]"] by (simp add: spsc_sys_init_def spsc_init_def example_sys_def)
  then have "?R (example_sys 0 [0, 0] (PTail 7 0) CIdle 0 [])"
    by (rule step) (use push_load_tail [of "example_sys 0 [0, 0] PIdle CIdle 0 []" 7] in \<open>simp add: ex\<close>)
  then have "?R (example_sys 0 [0, 0] (PHead 7 0 0) CIdle 0 [])"
    by (rule step) (use push_load_head [of "example_sys 0 [0, 0] (PTail 7 0) CIdle 0 []" 7 0 0] in \<open>simp add: ex\<close>)
  then have "?R (example_sys 0 [7, 0] (PWrote 7 0) CIdle 0 [])"
    by (rule step) (use push_write [of "example_sys 0 [0, 0] (PHead 7 0 0) CIdle 0 []" 7 0 0] in \<open>simp add: ex\<close>)
  then have "?R (example_sys 1 [7, 0] PIdle CIdle 0 [7])"
    by (rule step) (use push_store_tail [of "example_sys 0 [7, 0] (PWrote 7 0) CIdle 0 []" 7 0] in \<open>simp add: ex\<close>)
  then have "?R (example_sys 1 [7, 0] PIdle (CHead 0) 0 [7])"
    by (rule step) (use pop_load_head [of "example_sys 1 [7, 0] PIdle CIdle 0 [7]"] in \<open>simp add: ex\<close>)
  then have "?R (example_sys 1 [7, 0] PIdle (CTail 0 1) 1 [7])"
    by (rule step) (use pop_load_tail [of "example_sys 1 [7, 0] PIdle (CHead 0) 0 [7]" 0 1] in \<open>simp add: ex\<close>)
  then have "?R (example_sys 1 [7, 0] (PTail 8 1) (CTail 0 1) 1 [7])"
    by (rule step) (use push_load_tail [of "example_sys 1 [7, 0] PIdle (CTail 0 1) 1 [7]" 8] in \<open>simp add: ex\<close>)
  then show ?thesis
    by (rule step) (use push_load_head [of "example_sys 1 [7, 0] (PTail 8 1) (CTail 0 1) 1 [7]" 8 1 0] in \<open>simp add: ex\<close>)
qed

text \<open>
  C3. No interleaving of one producer and one consumer loses, duplicates or reorders an item:
  at every moment the items whose push succeeded are, in order, the items already popped
  followed by the items still in the ring, and the ring never exceeds its capacity. This
  holds across the wrap-around of the 64-bit indices and for stale loads of the other
  thread's index.
\<close>

theorem spsc_concurrent_fifo:
  assumes "spsc_reach xs s" "pow2_upto 63 (length xs)"
  shows "pushed s = popped s @ spsc_contents (ring s) \<and>
         length (spsc_contents (ring s)) \<le> length (rg_slots (ring s))"
proof -
  obtain k where "spsc_inv s k" using spsc_reach_inv [OF assms] by blast
  from spsc_inv_contents [OF this] show ?thesis using spsc.bounded by auto
qed

theorem spsc_concurrent_fifo_witness:
  "pushed (example_sys 1 [7, 0] (PHead 8 1 0) (CTail 0 1) 1 [7]) =
     popped (example_sys 1 [7, 0] (PHead 8 1 0) (CTail 0 1) 1 [7]) @
     spsc_contents (ring (example_sys 1 [7, 0] (PHead 8 1 0) (CTail 0 1) 1 [7]))"
  using spsc_concurrent_fifo [OF spsc_example_reach example_size] by blast

text \<open>
  C10. The plain accesses to the slots never race: when the producer is about to write a slot
  and the consumer is about to read one, they are different slots.
\<close>

theorem spsc_no_slot_race:
  assumes "spsc_reach xs s" "pow2_upto 63 (length xs)"
    and "prod s = PHead x t h" "t - h \<noteq> spsc_N (ring s)"
    and "cons s = CTail h' t'" "h' \<noteq> t'"
  shows "unat (t AND (spsc_N (ring s) - 1)) \<noteq> unat (h' AND (spsc_N (ring s) - 1))"
proof -
  let ?np = "length (pushed s)" and ?nc = "length (popped s)"
  obtain k where inv: "spsc_inv s k" using spsc_reach_inv [OF assms(1,2)] by blast
  then have d: "data_ok s k" by (simp add: spsc_inv_def)
  obtain ps where ps: "ps \<le> ?nc" "?np \<le> ps + 2 ^ k" "t = of_nat ?np" "h = of_nat ps"
    using inv assms(3) by (auto simp: spsc_inv_def producer_ok_def data_ok_def)
  obtain cs where cs: "?nc \<le> cs" "cs \<le> ?np" "h' = of_nat ?nc" "t' = of_nat cs"
    using inv assms(5) by (auto simp: spsc_inv_def consumer_ok_def data_ok_def)
  have "?nc < ?np" using cs assms(6) by (cases "?nc = cs") auto
  moreover have "?np < ps + 2 ^ k"
    using full_test [OF d, of ps ?np] ps cs assms(4) by auto
  ultimately have "?nc mod 2 ^ k \<noteq> ?np mod 2 ^ k"
    using ps by (intro mod_window [of ?nc]) auto
  then show ?thesis using ps cs slot_index [OF d] by simp
qed

theorem spsc_no_slot_race_witness:
  "unat ((1 :: u64) AND (2 - 1)) \<noteq> unat ((0 :: u64) AND (2 - 1))"
  using spsc_no_slot_race [OF spsc_example_reach example_size, of 8 1 0 0 1]
  by (simp add: example_sys_def spsc_N_def)

end
