(* ===== verification/Huge_Alloc.thy ===== *)
theory Huge_Alloc
  imports Prelude "HOL-Library.AList"
begin

unbundle bit_operations_syntax

text \<open>
  The huge-page allocator of \<^verbatim>\<open>src/huge_alloc.cpp\<close> (\<^verbatim>\<open>HugePageAllocator\<close>).
  \<^item> The kernel is a parameter: \<open>os_calls\<close> holds the effect of \<^verbatim>\<open>mmap\<close>, \<^verbatim>\<open>munmap\<close> and \<^verbatim>\<open>mbind\<close>
    on an abstract kernel state \<open>'os\<close>.
  \<^item> The registry is the association list of the live allocations, one entry per pointer.
  \<^item> A thrown \<^verbatim>\<open>std::runtime_error\<close> is \<open>Inl\<close> of an \<open>alloc_error\<close>; the registry and the kernel
    state that come with it are those at the throw.
  \<^item> \<open>read_meminfo_field\<close> reads the text of \<^verbatim>\<open>/proc/meminfo\<close> with the extraction operators of
    \<^verbatim>\<open>std::ifstream\<close>, character by character.
\<close>

section \<open>The kernel interface\<close>

text \<open>
  \<open>os_mmap os hugetlb len\<close>: an anonymous private mapping; \<open>None\<close> is \<^verbatim>\<open>MAP_FAILED\<close>.
  \<open>os_munmap os p len\<close>: \<open>True\<close> when the call returns 0. The result of \<^verbatim>\<open>mbind\<close> is never read.
\<close>

record 'os os_calls =
  os_mmap :: "'os \<Rightarrow> bool \<Rightarrow> u64 \<Rightarrow> u64 option \<times> 'os"
  os_munmap :: "'os \<Rightarrow> u64 \<Rightarrow> u64 \<Rightarrow> bool \<times> 'os"
  os_mbind :: "'os \<Rightarrow> u64 \<Rightarrow> u64 \<Rightarrow> u64 \<Rightarrow> 'os"

datatype alloc_error =
    Huge_mmap_failed
  | Fallback_mmap_failed
  | Untracked_pointer
  | Munmap_failed
  | Allocate_on_node_failed
  | Zero_buffer_geometry

section \<open>Allocation\<close>

definition HUGE_PAGE_SIZE :: u64 where "HUGE_PAGE_SIZE = 2 * 1024 * 1024"

definition round_up :: "u64 \<Rightarrow> u64 \<Rightarrow> u64" where
  "round_up bytes multiple =
     (if bytes = 0 then multiple
      else ((bytes + multiple - 1) div multiple) * multiple)"

record alloc_info =
  ai_bytes :: u64
  ai_huge :: bool

type_synonym registry = "(u64 \<times> alloc_info) list"

definition allocate ::
  "'os os_calls \<Rightarrow> 'os \<Rightarrow> registry \<Rightarrow> u64 \<Rightarrow> bool \<Rightarrow> (alloc_error + u64) \<times> registry \<times> 'os" where
  "allocate k os reg bytes force_huge =
     (let len = round_up bytes HUGE_PAGE_SIZE in
      case os_mmap k os True len of
        (Some p, os1) \<Rightarrow> (Inr p, AList.update p \<lparr>ai_bytes = len, ai_huge = True\<rparr> reg, os1)
      | (None, os1) \<Rightarrow>
          if force_huge then (Inl Huge_mmap_failed, reg, os1)
          else (case os_mmap k os1 False len of
                  (None, os2) \<Rightarrow> (Inl Fallback_mmap_failed, reg, os2)
                | (Some p, os2) \<Rightarrow>
                    (Inr p, AList.update p \<lparr>ai_bytes = len, ai_huge = False\<rparr> reg, os2)))"

definition deallocate ::
  "'os os_calls \<Rightarrow> 'os \<Rightarrow> registry \<Rightarrow> u64 \<Rightarrow> (alloc_error + unit) \<times> registry \<times> 'os" where
  "deallocate k os reg p =
     (if p = 0 then (Inr (), reg, os)
      else case map_of reg p of
        None \<Rightarrow> (Inl Untracked_pointer, reg, os)
      | Some info \<Rightarrow>
          (let reg1 = AList.delete p reg; (ok, os1) = os_munmap k os p (ai_bytes info)
           in (if ok then Inr () else Inl Munmap_failed, reg1, os1)))"

definition is_huge :: "registry \<Rightarrow> u64 \<Rightarrow> bool" where
  "is_huge reg p = (case map_of reg p of None \<Rightarrow> False | Some info \<Rightarrow> ai_huge info)"

text \<open>The four totals \<^verbatim>\<open>print_stats\<close> prints: huge count and bytes, regular count and bytes.\<close>

fun alloc_stats :: "registry \<Rightarrow> u64 \<times> u64 \<times> u64 \<times> u64 \<Rightarrow> u64 \<times> u64 \<times> u64 \<times> u64" where
  "alloc_stats [] acc = acc"
| "alloc_stats ((p, info) # reg) (hc, hb, rc, rb) =
     alloc_stats reg
       (if ai_huge info then (hc + 1, hb + ai_bytes info, rc, rb)
        else (hc, hb, rc + 1, rb + ai_bytes info))"

definition print_stats :: "registry \<Rightarrow> u64 \<times> u64 \<times> u64 \<times> u64" where
  "print_stats reg = alloc_stats reg (0, 0, 0, 0)"

section \<open>Reading /proc/meminfo\<close>

definition is_space :: "char \<Rightarrow> bool" where
  "is_space c \<longleftrightarrow> c \<in> set [CHR '' '', CHR 0x09, CHR 0x0A, CHR 0x0B, CHR 0x0C, CHR 0x0D]"

definition is_digit :: "char \<Rightarrow> bool" where
  "is_digit c \<longleftrightarrow> 48 \<le> (of_char c :: nat) \<and> (of_char c :: nat) \<le> 57"

definition digits_val :: "string \<Rightarrow> nat" where
  "digits_val ds = foldl (\<lambda>n c. 10 * n + (of_char c - 48)) 0 ds"

text \<open>\<^verbatim>\<open>stream >> std::string\<close>: skip white space, then take everything up to the next white space.\<close>

definition ext_string :: "string \<Rightarrow> (string \<times> string) option" where
  "ext_string s =
     (let t = dropWhile is_space s; w = takeWhile (\<lambda>c. \<not> is_space c) t
      in if w = [] then None else Some (w, drop (length w) t))"

text \<open>
  \<^verbatim>\<open>stream >> size_t\<close>: skip white space, an optional sign, then decimal digits; it fails on no
  digit and on a value that does not fit. A minus sign negates modulo \<open>2 ^ 64\<close>.
\<close>

definition ext_size :: "string \<Rightarrow> (u64 \<times> string) option" where
  "ext_size s =
     (let t = dropWhile is_space s;
          neg = (t \<noteq> [] \<and> hd t = CHR ''-'');
          u = (if t \<noteq> [] \<and> (hd t = CHR ''-'' \<or> hd t = CHR ''+'') then tl t else t);
          ds = takeWhile is_digit u
      in if ds = [] \<or> 2 ^ 64 \<le> digits_val ds then None
         else Some (if neg then - of_nat (digits_val ds) else of_nat (digits_val ds),
                    drop (length ds) u))"

text \<open>One round of \<^verbatim>\<open>meminfo >> name >> value >> unit\<close>.\<close>

definition ext_entry :: "string \<Rightarrow> (string \<times> u64 \<times> string) option" where
  "ext_entry s =
     (case ext_string s of None \<Rightarrow> None
      | Some (name, s1) \<Rightarrow>
          (case ext_size s1 of None \<Rightarrow> None
           | Some (value, s2) \<Rightarrow>
               (case ext_string s2 of None \<Rightarrow> None
                | Some (unit, s3) \<Rightarrow> Some (name, value, s3))))"

lemma ext_string_shorter:
  "ext_string s = Some (w, t) \<Longrightarrow> length t < length s"
  by (auto simp: ext_string_def Let_def split: if_splits)
    (metis (no_types, lifting) diff_less le_less_trans length_dropWhile_le length_greater_0_conv
      length_takeWhile_le less_le_trans not_less takeWhile_eq_Nil_iff)

lemma ext_size_shorter:
  "ext_size s = Some (v, t) \<Longrightarrow> length t \<le> length s"
  using length_dropWhile_le [of is_space s]
  by (auto simp: ext_size_def Let_def split: if_splits)

lemma ext_entry_shorter:
  "ext_entry s = Some (n, v, t) \<Longrightarrow> length t < length s"
  by (auto simp: ext_entry_def dest!: ext_string_shorter ext_size_shorter split: option.splits)

function read_meminfo_field :: "string \<Rightarrow> string \<Rightarrow> u64" where
  "read_meminfo_field key s =
     (case ext_entry s of None \<Rightarrow> 0
      | Some (name, value, t) \<Rightarrow> if name = key then value else read_meminfo_field key t)"
  by pat_completeness auto
termination
  by (relation "measure (length \<circ> snd)") (auto dest: ext_entry_shorter)

declare read_meminfo_field.simps [simp del]

definition available_huge_pages :: "string \<Rightarrow> u64" where
  "available_huge_pages meminfo = read_meminfo_field ''HugePages_Free:'' meminfo"

definition total_huge_pages :: "string \<Rightarrow> u64" where
  "total_huge_pages meminfo = read_meminfo_field ''HugePages_Total:'' meminfo"

section \<open>Rounding and bookkeeping\<close>

lemma round_up_unat:
  assumes "b \<noteq> 0" "0 < unat m" "unat b + unat m \<le> 2 ^ 64"
  shows "unat (round_up b m) = ((unat b + unat m - 1) div unat m) * unat m"
proof -
  let ?n = "unat b + unat m - 1"
  have b: "0 < unat b" using assms(1) by (simp add: unat_gt_0)
  have "b + m - 1 = (of_nat ?n :: u64)"
    using b by (simp add: of_nat_diff)
  moreover have lt: "?n < 2 ^ 64" using assms(3) b by linarith
  ultimately have n: "unat (b + m - 1) = ?n"
    by (simp only: unat_of_nat_u64)
  have "?n div unat m * unat m \<le> ?n" by (rule div_times_less_eq_dividend)
  then have "unat (of_nat (?n div unat m * unat m) :: u64) = ?n div unat m * unat m"
    using lt by (intro unat_of_nat_u64) linarith
  moreover have "round_up b m = of_nat (?n div unat m * unat m)"
    using assms(1) by (simp add: round_up_def word_arith_nat_div n)
  ultimately show ?thesis by simp
qed

lemma div_ceil_bounds:
  fixes b m :: nat
  assumes "0 < m" "0 < b"
  shows "b \<le> (b + m - 1) div m * m" and "(b + m - 1) div m * m < b + m"
proof -
  have eq: "(b + m - 1) div m * m + (b + m - 1) mod m = b + m - 1" by simp
  have "(b + m - 1) mod m < m" using assms(1) by simp
  then show "b \<le> (b + m - 1) div m * m" "(b + m - 1) div m * m < b + m"
    using eq assms by linarith+
qed

lemma delete_update_fresh:
  "map_of xs p = None \<Longrightarrow> AList.delete p (AList.update p v xs) = xs"
proof (induction xs)
  case Nil
  then show ?case by (simp add: AList.delete_eq)
next
  case (Cons a xs)
  then show ?case by (cases a) (auto simp: AList.delete_eq split: if_splits)
qed

section \<open>White-space separated text\<close>

definition word_ok :: "string \<Rightarrow> bool" where
  "word_ok w \<longleftrightarrow> w \<noteq> [] \<and> (\<forall>c \<in> set w. \<not> is_space c)"

definition gap_ok :: "string \<Rightarrow> bool" where
  "gap_ok g \<longleftrightarrow> g \<noteq> [] \<and> (\<forall>c \<in> set g. is_space c)"

definition num_ok :: "string \<Rightarrow> bool" where
  "num_ok v \<longleftrightarrow> v \<noteq> [] \<and> (\<forall>c \<in> set v. is_digit c) \<and> digits_val v < 2 ^ 64"

lemma digit_not_space: "is_digit c \<Longrightarrow> \<not> is_space c"
  by (auto simp: is_digit_def is_space_def)

lemma digit_not_sign: "is_digit c \<Longrightarrow> c \<noteq> CHR ''-'' \<and> c \<noteq> CHR ''+''"
  by (auto simp: is_digit_def)

lemma num_ok_word: "num_ok v \<Longrightarrow> word_ok v"
  by (auto simp: num_ok_def word_ok_def digit_not_space)

lemma gap_hd: "gap_ok g \<Longrightarrow> g \<noteq> [] \<and> is_space (hd g)"
  by (simp add: gap_ok_def)

lemma skip_spaces:
  assumes "\<forall>c \<in> set g. is_space c" "w \<noteq> []" "\<not> is_space (hd w)"
  shows "dropWhile is_space (g @ w @ s) = w @ s"
  using assms by (induction g) (cases w, auto)+

lemma span_until:
  assumes "\<forall>c \<in> set w. P c" "g = [] \<or> \<not> P (hd g)"
  shows "takeWhile P (w @ g @ s) = w @ (if g = [] then takeWhile P s else [])"
  using assms by (cases g) (auto simp: takeWhile_append)

lemma ext_string_word:
  assumes "\<forall>c \<in> set g0. is_space c" "word_ok w" "gap_ok g"
  shows "ext_string (g0 @ w @ g @ s) = Some (w, g @ s)"
proof -
  have "dropWhile is_space (g0 @ w @ g @ s) = w @ g @ s"
    using assms by (intro skip_spaces) (auto simp: word_ok_def)
  moreover have "takeWhile (\<lambda>c. \<not> is_space c) (w @ g @ s) = w"
    using assms by (subst span_until) (auto simp: word_ok_def gap_ok_def)
  ultimately show ?thesis
    using assms(2) by (simp add: ext_string_def Let_def word_ok_def)
qed

lemma ext_size_num:
  assumes "\<forall>c \<in> set g0. is_space c" "num_ok v" "gap_ok g"
  shows "ext_size (g0 @ v @ g @ s) = Some (of_nat (digits_val v), g @ s)"
proof -
  have v: "v \<noteq> []" "is_digit (hd v)" using assms(2) by (auto simp: num_ok_def)
  have "dropWhile is_space (g0 @ v @ g @ s) = v @ g @ s"
    using assms v by (intro skip_spaces) (auto simp: digit_not_space)
  moreover have "takeWhile is_digit (v @ g @ s) = v"
    using assms gap_hd [OF assms(3)] by (subst span_until) (auto simp: num_ok_def dest: digit_not_space)
  ultimately show ?thesis
    using assms(2) v digit_not_sign [OF v(2)] by (simp add: ext_size_def Let_def num_ok_def)
qed

lemma ext_size_not_number:
  assumes "\<forall>c \<in> set g0. is_space c" "w \<noteq> []" "\<not> is_space (hd w)" "\<not> is_digit (hd w)"
    "hd w \<noteq> CHR ''-''" "hd w \<noteq> CHR ''+''"
  shows "ext_size (g0 @ w @ s) = None"
proof -
  have "dropWhile is_space (g0 @ w @ s) = w @ s"
    using assms by (intro skip_spaces) auto
  moreover have "takeWhile is_digit (w @ s) = []"
    using assms(2,4) by (cases w) auto
  ultimately show ?thesis
    using assms by (simp add: ext_size_def Let_def)
qed

lemma ext_entry_line:
  assumes "\<forall>c \<in> set g0. is_space c" "word_ok n" "gap_ok g1" "num_ok v" "gap_ok g2" "word_ok u" "gap_ok g3"
  shows "ext_entry (g0 @ n @ g1 @ v @ g2 @ u @ g3 @ s) = Some (n, of_nat (digits_val v), g3 @ s)"
proof -
  have "\<forall>c \<in> set g1. is_space c" "\<forall>c \<in> set g2. is_space c"
    using assms by (simp_all add: gap_ok_def)
  then show ?thesis
    using assms by (simp add: ext_entry_def ext_string_word ext_size_num)
qed

text \<open>A line of \<^verbatim>\<open>/proc/meminfo\<close> with a unit: name, gap, number, gap, unit, end of line.\<close>

type_synonym meminfo_line = "string \<times> string \<times> string \<times> string \<times> string \<times> string"

fun line_ok :: "meminfo_line \<Rightarrow> bool" where
  "line_ok (n, g1, v, g2, u, g3) \<longleftrightarrow>
     word_ok n \<and> gap_ok g1 \<and> num_ok v \<and> gap_ok g2 \<and> word_ok u \<and> gap_ok g3"

fun line_text :: "meminfo_line \<Rightarrow> string" where
  "line_text (n, g1, v, g2, u, g3) = n @ g1 @ v @ g2 @ u @ g3"

lemma read_skips_lines:
  assumes "\<forall>l \<in> set ls. line_ok l \<and> fst l \<noteq> key" "\<forall>c \<in> set g. is_space c"
  shows "\<exists>g'. (\<forall>c \<in> set g'. is_space c) \<and>
    read_meminfo_field key (g @ concat (map line_text ls) @ s) = read_meminfo_field key (g' @ s)"
  using assms
proof (induction ls arbitrary: g)
  case Nil
  then show ?case by auto
next
  case (Cons l ls)
  obtain n g1 v g2 u g3 where l: "l = (n, g1, v, g2, u, g3)" by (cases l)
  have "read_meminfo_field key (g @ concat (map line_text (l # ls)) @ s)
      = read_meminfo_field key (g3 @ concat (map line_text ls) @ s)"
    using Cons.prems l by (subst read_meminfo_field.simps) (simp add: ext_entry_line)
  moreover have "\<forall>c \<in> set g3. is_space c" using Cons.prems l by (simp add: gap_ok_def)
  ultimately show ?case using Cons.IH [of g3] Cons.prems by force
qed

text \<open>Two entries without a unit: the first is read, the second is taken for the first one's unit.\<close>

lemma first_field_read:
  assumes "\<forall>l \<in> set ls. line_ok l \<and> fst l \<noteq> K1" "word_ok K1" "word_ok K2"
    and "gap_ok g1" "num_ok v" "gap_ok g2" "gap_ok g3"
  shows "read_meminfo_field K1 (concat (map line_text ls) @ K1 @ g1 @ v @ g2 @ K2 @ g3 @ s)
    = of_nat (digits_val v)"
proof -
  obtain g where "\<forall>c \<in> set g. is_space c"
    "read_meminfo_field K1 (concat (map line_text ls) @ K1 @ g1 @ v @ g2 @ K2 @ g3 @ s)
      = read_meminfo_field K1 (g @ K1 @ g1 @ v @ g2 @ K2 @ g3 @ s)"
    using read_skips_lines [OF assms(1), of "[]"] by auto
  then show ?thesis
    using assms by (simp add: read_meminfo_field.simps ext_entry_line)
qed

lemma second_field_lost:
  assumes "\<forall>l \<in> set ls. line_ok l \<and> fst l \<noteq> K2" "word_ok K1" "word_ok K2" "K1 \<noteq> K2" "\<not> is_digit (hd K2)"
    and "gap_ok g1" "num_ok v" "gap_ok g2" "gap_ok g3" "num_ok w" "gap_ok g4"
    and "K3 \<noteq> []" "\<not> is_space (hd K3)" "\<not> is_digit (hd K3)" "hd K3 \<noteq> CHR ''-''" "hd K3 \<noteq> CHR ''+''"
  shows "read_meminfo_field K2 (concat (map line_text ls) @ K1 @ g1 @ v @ g2 @ K2 @ g3 @ w @ g4 @ K3 @ s) = 0"
proof -
  obtain g where "\<forall>c \<in> set g. is_space c"
    "read_meminfo_field K2 (concat (map line_text ls) @ K1 @ g1 @ v @ g2 @ K2 @ g3 @ w @ g4 @ K3 @ s)
      = read_meminfo_field K2 (g @ K1 @ g1 @ v @ g2 @ K2 @ g3 @ w @ g4 @ K3 @ s)"
    using read_skips_lines [OF assms(1), of "[]"] by auto
  moreover have "ext_entry (g3 @ w @ g4 @ K3 @ s) = None"
    using assms ext_size_not_number [of g4 K3 s]
    by (simp add: ext_entry_def ext_string_word num_ok_word gap_ok_def)
  ultimately show ?thesis
    using assms by (simp add: read_meminfo_field.simps ext_entry_line)
qed

section \<open>Properties\<close>

text \<open>
  Rounding a request: unless the addition of \<open>HUGE_PAGE_SIZE - 1\<close> wraps, the mapped
  length is a whole number of 2 MB pages that holds the request, with less than one page of
  excess; a request of zero bytes takes one page.
\<close>

theorem round_up_huge:
  assumes "unat bytes + unat HUGE_PAGE_SIZE \<le> 2 ^ 64"
  shows "unat HUGE_PAGE_SIZE dvd unat (round_up bytes HUGE_PAGE_SIZE) \<and>
         unat bytes \<le> unat (round_up bytes HUGE_PAGE_SIZE) \<and>
         unat (round_up bytes HUGE_PAGE_SIZE) < max 1 (unat bytes) + unat HUGE_PAGE_SIZE"
proof (cases "bytes = 0")
  case True
  then show ?thesis by (simp add: round_up_def)
next
  case False
  have m: "0 < unat HUGE_PAGE_SIZE" by (simp add: HUGE_PAGE_SIZE_def)
  have b: "0 < unat bytes" using False by (simp add: unat_gt_0)
  show ?thesis
    using round_up_unat [OF False m assms] div_ceil_bounds [OF m b] by simp
qed

theorem round_up_huge_witness:
  "unat (round_up 1 HUGE_PAGE_SIZE) < 1 + unat HUGE_PAGE_SIZE \<and> round_up 1 HUGE_PAGE_SIZE = HUGE_PAGE_SIZE"
  using round_up_huge [of 1] by (simp add: HUGE_PAGE_SIZE_def round_up_def)

text \<open>
  Allocation followed by deallocation: a pointer obtained from \<open>allocate\<close> is released with
  exactly the length that was mapped, whichever of the two \<open>mmap\<close> calls produced it, and the
  registry is then what it was before.
\<close>

theorem allocate_deallocate:
  assumes "allocate k os reg bytes force = (Inr p, reg1, os1)"
    and "p \<noteq> 0" "map_of reg p = None"
    and "os_munmap k os1 p (round_up bytes HUGE_PAGE_SIZE) = (True, os2)"
  shows "deallocate k os1 reg1 p = (Inr (), reg, os2)"
proof -
  obtain h where "reg1 = AList.update p \<lparr>ai_bytes = round_up bytes HUGE_PAGE_SIZE, ai_huge = h\<rparr> reg"
    using assms(1) by (auto simp: allocate_def Let_def split: prod.splits option.splits if_splits)
  then show ?thesis
    using assms(2-4) by (simp add: deallocate_def update_conv delete_update_fresh)
qed

text \<open>A kernel that grants every mapping at one address, used to instantiate the parameter.\<close>

definition example_os :: "nat os_calls" where
  "example_os = \<lparr>os_mmap = (\<lambda>n huge len. (if huge then None else Some 4096, Suc n)),
     os_munmap = (\<lambda>n p len. (len = 2097152, n)), os_mbind = (\<lambda>n p len mask. n)\<rparr>"

theorem allocate_deallocate_witness:
  "deallocate example_os 2 [(4096, \<lparr>ai_bytes = 2097152, ai_huge = False\<rparr>)] 4096 = (Inr (), [], 2)"
  by (rule allocate_deallocate [of example_os 0 "[]" 5 False])
    (simp_all add: allocate_def example_os_def round_up_def HUGE_PAGE_SIZE_def)

text \<open>
  C40. Reading the huge-page counters: in \<^verbatim>\<open>/proc/meminfo\<close> the \<^verbatim>\<open>HugePages_*\<close> lines carry no
  unit, so the read of a unit takes the next line's name. \<open>total_huge_pages\<close> still returns the
  number on its line, but \<open>available_huge_pages\<close> returns 0 whatever the number of free pages.
\<close>

theorem huge_page_counters:
  assumes "\<forall>l \<in> set ls. line_ok l \<and> fst l \<noteq> ''HugePages_Total:'' \<and> fst l \<noteq> ''HugePages_Free:''"
    and "gap_ok g1" "num_ok nt" "gap_ok g2" "gap_ok g3" "num_ok nf" "gap_ok g4"
    and "meminfo = concat (map line_text ls) @ ''HugePages_Total:'' @ g1 @ nt @ g2 @
      ''HugePages_Free:'' @ g3 @ nf @ g4 @ ''HugePages_Rsvd:'' @ rest"
  shows "total_huge_pages meminfo = of_nat (digits_val nt) \<and> available_huge_pages meminfo = 0"
proof -
  have "word_ok ''HugePages_Total:''" "word_ok ''HugePages_Free:''"
    by (auto simp: word_ok_def is_space_def)
  then show ?thesis
    unfolding assms(8) total_huge_pages_def available_huge_pages_def
    by (intro conjI first_field_read second_field_lost) (use assms(1-7) in \<open>simp_all add: is_space_def is_digit_def\<close>)
qed

theorem huge_page_counters_witness:
  "available_huge_pages (''MemTotal: 16 kB'' @ [CHR 0x0A] @ ''HugePages_Total: 9'' @ [CHR 0x0A] @
     ''HugePages_Free: 7'' @ [CHR 0x0A] @ ''HugePages_Rsvd: 0'' @ [CHR 0x0A]) = 0"
  using huge_page_counters [of "[(''MemTotal:'', '' '', ''16'', '' '', ''kB'', [CHR 0x0A])]" "'' ''" "''9''"
      "[CHR 0x0A]" "'' ''" "''7''" "[CHR 0x0A]" _ "'' 0'' @ [CHR 0x0A]"]
  by (simp add: word_ok_def gap_ok_def num_ok_def is_space_def is_digit_def digits_val_def)

end
