(* ===== verification/Numa_Util.thy ===== *)
theory Numa_Util
  imports Huge_Alloc
begin

unbundle bit_operations_syntax

text \<open>
  The NUMA helpers of \<^verbatim>\<open>src/numa_util.cpp\<close> over the kernel interface \<open>os_calls\<close>.
\<close>

text \<open>
  \<^verbatim>\<open>allocate_on_node\<close>: a huge-page mapping, else a regular one, else \<^verbatim>\<open>nullptr\<close> (\<open>None\<close>); then
  \<^verbatim>\<open>mbind\<close> with the mask \<^verbatim>\<open>1UL << node\<close>, whose result is ignored. The outer \<open>None\<close> is the
  undefined shift by a node number that is negative or at least 64.
\<close>

definition allocate_on_node ::
  "'os os_calls \<Rightarrow> 'os \<Rightarrow> u64 \<Rightarrow> int \<Rightarrow> (u64 option \<times> 'os) option" where
  "allocate_on_node k os bytes node =
     (let (p1, os1) = os_mmap k os True bytes;
          (p, os2) = (case p1 of None \<Rightarrow> os_mmap k os1 False bytes | Some q \<Rightarrow> (Some q, os1))
      in case p of
           None \<Rightarrow> Some (None, os2)
         | Some q \<Rightarrow>
             if node = -1 then Some (Some q, os2)
             else if 0 \<le> node \<and> node < 64
             then Some (Some q, os_mbind k os2 q bytes (push_bit (nat node) 1))
             else None)"

end
