(* ===== verification/Buffer_Pool.thy ===== *)
theory Buffer_Pool
  imports Numa_Util "HOL-Library.Multiset"
begin

unbundle bit_operations_syntax

text \<open>
  The buffer pool of \<^verbatim>\<open>include/buffer_pool.h\<close> and \<^verbatim>\<open>src/buffer_pool.cpp\<close>.
  \<^item> \<open>buffer_descriptor\<close> is \<^verbatim>\<open>BufferDescriptor\<close>; \<open>bd_next\<close> is the free-list link kept in the first
    four padding bytes (\<^verbatim>\<open>next_of\<close>), \<open>bd_bytes\<close> the contents of the \<^verbatim>\<open>buffer_size\<close> bytes that
    \<open>bd_data\<close> points to.
  \<^item> A \<^verbatim>\<open>BufferDescriptor*\<close> of a pool is the index of the descriptor in the pool's array.
  \<^item> \<open>fs_push\<close>, \<open>fs_pop\<close> are one uncontended pass of the compare-and-swap loops of \<^verbatim>\<open>FreeStack\<close>;
    the interleaving of several threads is the subject of \<open>Free_Stack_Concurrent\<close>.
  \<^item> \<open>None\<close> is a descriptor index outside the array, the failed \<^verbatim>\<open>assert\<close> of \<^verbatim>\<open>release\<close>, or a pool whose
    size wraps around, so that the blocks are smaller than the buffers or the descriptors in them.
\<close>

section \<open>Descriptors and the free stack\<close>

record buffer_descriptor =
  bd_data :: u64
  bd_len :: u32
  bd_capacity :: u32
  bd_pool_index :: u32
  bd_next :: u32
  bd_bytes :: bytes

record free_stack =
  fs_top :: u64
  fs_size :: u32

definition kEmpty :: u32 where "kEmpty = 0xFFFFFFFF"

definition pack :: "u32 \<Rightarrow> u32 \<Rightarrow> u64" where
  "pack gen index = push_bit 32 (ucast gen) OR ucast index"

definition gen_of :: "u64 \<Rightarrow> u32" where
  "gen_of v = ucast (drop_bit 32 v)"

definition index_of :: "u64 \<Rightarrow> u32" where
  "index_of v = ucast v"

definition fs_init :: free_stack where
  "fs_init = \<lparr>fs_top = pack 0 kEmpty, fs_size = 0\<rparr>"

definition fs_push ::
  "free_stack \<Rightarrow> buffer_descriptor list \<Rightarrow> u32 \<Rightarrow> (free_stack \<times> buffer_descriptor list) option" where
  "fs_push fs ds index =
     (if unat index < length ds then
        (let old = fs_top fs;
             ds' = ds[unat index := (ds ! unat index)\<lparr>bd_next := index_of old\<rparr>];
             neu = pack (gen_of old + 1) index
         in Some (fs\<lparr>fs_top := neu, fs_size := fs_size fs + 1\<rparr>, ds'))
      else None)"

definition fs_pop ::
  "free_stack \<Rightarrow> buffer_descriptor list \<Rightarrow> (u32 \<times> free_stack) option" where
  "fs_pop fs ds =
     (let old = fs_top fs; index = index_of old in
      if index = kEmpty then Some (kEmpty, fs)
      else if unat index < length ds then
        (let nxt = bd_next (ds ! unat index); neu = pack (gen_of old + 1) nxt
         in Some (index, fs\<lparr>fs_top := neu, fs_size := fs_size fs - 1\<rparr>))
      else None)"

section \<open>The pool\<close>

record buffer_pool =
  bp_buffer_size :: u64
  bp_buffer_count :: u64
  bp_numa_node :: int
  bp_backing :: u64
  bp_descriptors :: u64
  bp_backing_bytes :: u64
  bp_descriptor_bytes :: u64
  bp_descs :: "buffer_descriptor list"
  bp_stack :: free_stack
  bp_acquires :: u64
  bp_releases :: u64
  bp_exhausted :: u64

definition alloc_region ::
  "'os os_calls \<Rightarrow> 'os \<Rightarrow> registry \<Rightarrow> u64 \<Rightarrow> int
    \<Rightarrow> ((alloc_error + u64) \<times> registry \<times> 'os) option" where
  "alloc_region k os reg bytes node =
     (if node \<noteq> -1 then
        (case allocate_on_node k os bytes node of
           None \<Rightarrow> None
         | Some (None, os1) \<Rightarrow> Some (Inl Allocate_on_node_failed, reg, os1)
         | Some (Some p, os1) \<Rightarrow> Some (Inr p, reg, os1))
      else Some (allocate k os reg bytes False))"

definition free_region ::
  "'os os_calls \<Rightarrow> 'os \<Rightarrow> registry \<Rightarrow> u64 \<Rightarrow> u64 \<Rightarrow> int \<Rightarrow> (alloc_error + unit) \<times> registry \<times> 'os" where
  "free_region k os reg p bytes node =
     (if p = 0 then (Inr (), reg, os)
      else if node \<noteq> -1 then (Inr (), reg, snd (os_munmap k os p bytes))
      else deallocate k os reg p)"

text \<open>The descriptor array and the buffers as an anonymous mapping delivers them: zero filled.\<close>

definition zero_descriptor :: "u64 \<Rightarrow> buffer_descriptor" where
  "zero_descriptor bsize = \<lparr>bd_data = 0, bd_len = 0, bd_capacity = 0, bd_pool_index = 0,
     bd_next = 0, bd_bytes = replicate (unat bsize) 0\<rparr>"

definition pool_init_slot :: "buffer_pool \<Rightarrow> nat \<Rightarrow> buffer_pool option" where
  "pool_init_slot p i =
     (let d = (bp_descs p ! i)\<lparr>bd_data := bp_backing p + of_nat i * bp_buffer_size p,
                bd_len := 0, bd_capacity := ucast (bp_buffer_size p), bd_pool_index := of_nat i\<rparr>
      in case fs_push (bp_stack p) ((bp_descs p)[i := d]) (of_nat i) of
           None \<Rightarrow> None
         | Some (fs, ds) \<Rightarrow> Some (p\<lparr>bp_stack := fs, bp_descs := ds\<rparr>))"

fun pool_init_slots :: "buffer_pool \<Rightarrow> nat list \<Rightarrow> buffer_pool option" where
  "pool_init_slots p [] = Some p"
| "pool_init_slots p (i # is) =
     (case pool_init_slot p i of None \<Rightarrow> None | Some p' \<Rightarrow> pool_init_slots p' is)"

text \<open>
  The two products are 64-bit products. When one has wrapped around, the loop of the constructor forms
  addresses or writes descriptors outside the block that was mapped.
\<close>

definition buffer_pool_new ::
  "'os os_calls \<Rightarrow> 'os \<Rightarrow> registry \<Rightarrow> u64 \<Rightarrow> u64 \<Rightarrow> int
    \<Rightarrow> ((alloc_error + buffer_pool) \<times> registry \<times> 'os) option" where
  "buffer_pool_new k os reg bsize cnt node =
     (if bsize = 0 \<or> cnt = 0 then Some (Inl Zero_buffer_geometry, reg, os)
      else
        (let bytes = bsize * cnt; dbytes = cnt * 64 in
         case alloc_region k os reg bytes node of
           None \<Rightarrow> None
         | Some (Inl e, reg1, os1) \<Rightarrow> Some (Inl e, reg1, os1)
         | Some (Inr backing, reg1, os1) \<Rightarrow>
             (case alloc_region k os1 reg1 dbytes node of
                None \<Rightarrow> None
              | Some (Inl e, reg2, os2) \<Rightarrow> Some (Inl e, reg2, os2)
              | Some (Inr descriptors, reg2, os2) \<Rightarrow>
                  if unat bytes \<noteq> unat bsize * unat cnt \<or> unat dbytes \<noteq> unat cnt * 64 then None
                  else (case pool_init_slots
                     \<lparr>bp_buffer_size = bsize, bp_buffer_count = cnt, bp_numa_node = node,
                      bp_backing = backing, bp_descriptors = descriptors,
                      bp_backing_bytes = bytes, bp_descriptor_bytes = dbytes,
                      bp_descs = replicate (unat cnt) (zero_descriptor bsize),
                      bp_stack = fs_init, bp_acquires = 0, bp_releases = 0, bp_exhausted = 0\<rparr>
                     [0..<unat cnt] of
                     None \<Rightarrow> None
                   | Some p \<Rightarrow> Some (Inr p, reg2, os2)))))"

definition buffer_pool_delete ::
  "'os os_calls \<Rightarrow> 'os \<Rightarrow> registry \<Rightarrow> buffer_pool \<Rightarrow> (alloc_error + unit) \<times> registry \<times> 'os" where
  "buffer_pool_delete k os reg p =
     (case free_region k os reg (bp_backing p) (bp_backing_bytes p) (bp_numa_node p) of
        (Inl e, reg1, os1) \<Rightarrow> (Inl e, reg1, os1)
      | (Inr _, reg1, os1) \<Rightarrow>
          free_region k os1 reg1 (bp_descriptors p) (bp_descriptor_bytes p) (bp_numa_node p))"

definition acquire :: "buffer_pool \<Rightarrow> (nat option \<times> buffer_pool) option" where
  "acquire p =
     (case fs_pop (bp_stack p) (bp_descs p) of
        None \<Rightarrow> None
      | Some (index, fs) \<Rightarrow>
          if index = kEmpty then
            Some (None, p\<lparr>bp_stack := fs, bp_exhausted := bp_exhausted p + 1\<rparr>)
          else Some (Some (unat index), p\<lparr>bp_stack := fs, bp_acquires := bp_acquires p + 1\<rparr>))"

definition release :: "buffer_pool \<Rightarrow> nat \<Rightarrow> buffer_pool option" where
  "release p buf =
     (if buf < length (bp_descs p) \<and>
         unat (bd_pool_index (bp_descs p ! buf)) < unat (bp_buffer_count p) then
        (let ds = (bp_descs p)[buf := (bp_descs p ! buf)\<lparr>bd_len := 0\<rparr>] in
         case fs_push (bp_stack p) ds (bd_pool_index (ds ! buf)) of
           None \<Rightarrow> None
         | Some (fs, ds') \<Rightarrow>
             Some (p\<lparr>bp_stack := fs, bp_descs := ds', bp_releases := bp_releases p + 1\<rparr>))
      else None)"

definition free_count :: "buffer_pool \<Rightarrow> u32" where
  "free_count p = fs_size (bp_stack p)"

text \<open>
  The accesses clients make through a descriptor: \<^verbatim>\<open>memcpy\<close> into the buffer at an offset, the
  store to \<^verbatim>\<open>len\<close>, and a read of the buffer. A copy past the end of the buffer is undefined.
\<close>

definition buf_write :: "buffer_pool \<Rightarrow> nat \<Rightarrow> nat \<Rightarrow> bytes \<Rightarrow> buffer_pool option" where
  "buf_write p buf off bs =
     (if buf < length (bp_descs p) \<and> off + length bs \<le> length (bd_bytes (bp_descs p ! buf)) then
        (let d = bp_descs p ! buf;
             mem = take off (bd_bytes d) @ bs @ drop (off + length bs) (bd_bytes d)
         in Some (p\<lparr>bp_descs := (bp_descs p)[buf := d\<lparr>bd_bytes := mem\<rparr>]\<rparr>))
      else None)"

definition buf_set_len :: "buffer_pool \<Rightarrow> nat \<Rightarrow> u32 \<Rightarrow> buffer_pool option" where
  "buf_set_len p buf n =
     (if buf < length (bp_descs p)
      then Some (p\<lparr>bp_descs := (bp_descs p)[buf := (bp_descs p ! buf)\<lparr>bd_len := n\<rparr>]\<rparr>)
      else None)"

definition buf_read :: "buffer_pool \<Rightarrow> nat \<Rightarrow> nat \<Rightarrow> nat \<Rightarrow> bytes option" where
  "buf_read p buf off n =
     (if buf < length (bp_descs p) \<and> off + n \<le> length (bd_bytes (bp_descs p ! buf))
      then Some (take n (drop off (bd_bytes (bp_descs p ! buf)))) else None)"

section \<open>The free list\<close>

lemma gen_of_pack [simp]: "gen_of (pack g i) = g"
  by (rule bit_word_eqI) (auto simp: pack_def gen_of_def bit_simps dest: bit_imp_le_length)

lemma index_of_pack [simp]: "index_of (pack g i) = i"
  by (rule bit_word_eqI) (auto simp: pack_def index_of_def bit_simps dest: bit_imp_le_length)

lemma unat_kEmpty: "unat kEmpty = 2 ^ 32 - 1"
  by (simp add: kEmpty_def)

lemma of_nat_not_kEmpty: "n < 2 ^ 32 - 1 \<Longrightarrow> (of_nat n :: u32) \<noteq> kEmpty"
  using unat_of_nat_u32 [of n] unat_kEmpty by auto

text \<open>Following the links from an index: the free descriptors in the order they would be popped.\<close>

fun walk :: "nat \<Rightarrow> buffer_descriptor list \<Rightarrow> u32 \<Rightarrow> nat list" where
  "walk 0 ds i = []"
| "walk (Suc fuel) ds i =
     (if i = kEmpty \<or> length ds \<le> unat i then []
      else unat i # walk fuel ds (bd_next (ds ! unat i)))"

fun chain :: "buffer_descriptor list \<Rightarrow> u32 \<Rightarrow> nat list \<Rightarrow> bool" where
  "chain ds i [] \<longleftrightarrow> i = kEmpty"
| "chain ds i (x # xs) \<longleftrightarrow>
     i \<noteq> kEmpty \<and> unat i = x \<and> x < length ds \<and> chain ds (bd_next (ds ! x)) xs"

definition pool_free :: "buffer_pool \<Rightarrow> nat list" where
  "pool_free p = walk (length (bp_descs p)) (bp_descs p) (index_of (fs_top (bp_stack p)))"

definition desc_ok :: "buffer_pool \<Rightarrow> nat \<Rightarrow> bool" where
  "desc_ok p i \<longleftrightarrow> bd_pool_index (bp_descs p ! i) = of_nat i \<and>
     length (bd_bytes (bp_descs p ! i)) = unat (bp_buffer_size p)"

definition pool_ok :: "buffer_pool \<Rightarrow> bool" where
  "pool_ok p \<longleftrightarrow> length (bp_descs p) = unat (bp_buffer_count p) \<and> unat (bp_buffer_count p) < 2 ^ 32 \<and>
     list_all (desc_ok p) [0..<length (bp_descs p)] \<and>
     chain (bp_descs p) (index_of (fs_top (bp_stack p))) (pool_free p) \<and>
     distinct (pool_free p) \<and> fs_size (bp_stack p) = of_nat (length (pool_free p))"

lemma chain_less: "chain ds i xs \<Longrightarrow> x \<in> set xs \<Longrightarrow> x < length ds"
  by (induction xs arbitrary: i) auto

lemma chain_length: "chain ds i xs \<Longrightarrow> distinct xs \<Longrightarrow> length xs \<le> length ds"
  using card_mono [of "{..<length ds}" "set xs"] chain_less [of ds i xs]
  by (auto simp: distinct_card)

lemma walk_chain: "chain ds i xs \<Longrightarrow> length xs \<le> fuel \<Longrightarrow> walk fuel ds i = xs"
proof (induction xs arbitrary: i fuel)
  case Nil
  then show ?case by (cases fuel) auto
next
  case (Cons x xs)
  then show ?case by (cases fuel) auto
qed

lemma chain_cong:
  assumes "length ds' = length ds" "\<And>x. x \<in> set xs \<Longrightarrow> bd_next (ds' ! x) = bd_next (ds ! x)"
  shows "chain ds' i xs = chain ds i xs"
  using assms by (induction xs arbitrary: i) auto

lemma pool_free_eq:
  assumes "chain (bp_descs p) (index_of (fs_top (bp_stack p))) xs" "distinct xs"
  shows "pool_free p = xs"
  using assms by (simp add: pool_free_def walk_chain chain_length)

lemma pool_okI:
  assumes "length (bp_descs p) = unat (bp_buffer_count p)" "unat (bp_buffer_count p) < 2 ^ 32"
    and "\<And>i. i < length (bp_descs p) \<Longrightarrow> desc_ok p i"
    and "chain (bp_descs p) (index_of (fs_top (bp_stack p))) xs" "distinct xs"
    and "fs_size (bp_stack p) = of_nat (length xs)"
  shows "pool_ok p" "pool_free p = xs"
  using assms pool_free_eq [OF assms(4,5)] by (auto simp: pool_ok_def list_all_iff)

lemma pool_okD:
  assumes "pool_ok p"
  shows "length (bp_descs p) = unat (bp_buffer_count p)" "unat (bp_buffer_count p) < 2 ^ 32"
    and "i < length (bp_descs p) \<Longrightarrow> desc_ok p i"
    and "chain (bp_descs p) (index_of (fs_top (bp_stack p))) (pool_free p)" "distinct (pool_free p)"
    and "fs_size (bp_stack p) = of_nat (length (pool_free p))"
  using assms by (auto simp: pool_ok_def list_all_iff)

lemma pool_free_less: "pool_ok p \<Longrightarrow> i \<in> set (pool_free p) \<Longrightarrow> i < length (bp_descs p)"
  by (meson chain_less pool_okD(4))

section \<open>What the operations do to the free list\<close>

lemma acquire_Nil:
  assumes "pool_ok p" "pool_free p = []"
  shows "acquire p = Some (None, p\<lparr>bp_exhausted := bp_exhausted p + 1\<rparr>)"
  using pool_okD(4) [OF assms(1)] assms(2)
  by (simp add: acquire_def fs_pop_def Let_def)

lemma acquire_Cons:
  assumes "pool_ok p" "pool_free p = i # is"
  shows "\<exists>p'. acquire p = Some (Some i, p') \<and> pool_ok p' \<and> pool_free p' = is \<and>
     bp_descs p' = bp_descs p \<and> bp_buffer_size p' = bp_buffer_size p"
proof -
  note ok = pool_okD [OF assms(1), unfolded assms(2)]
  let ?top = "fs_top (bp_stack p)"
  let ?p' = "p\<lparr>bp_stack := (bp_stack p)\<lparr>fs_top := pack (gen_of ?top + 1) (bd_next (bp_descs p ! i)),
      fs_size := fs_size (bp_stack p) - 1\<rparr>, bp_acquires := bp_acquires p + 1\<rparr>"
  have i: "index_of ?top \<noteq> kEmpty" "unat (index_of ?top) = i" "i < length (bp_descs p)"
    "chain (bp_descs p) (bd_next (bp_descs p ! i)) is"
    using ok(4) by auto
  have "acquire p = Some (Some i, ?p')"
    using i by (simp add: acquire_def fs_pop_def Let_def)
  moreover have "pool_ok ?p'" "pool_free ?p' = is"
    by (rule pool_okI [of _ "is"]; use ok i in \<open>simp add: desc_ok_def\<close>)+
  ultimately show ?thesis by auto
qed

lemma release_held:
  assumes "pool_ok p" "i < length (bp_descs p)" "i \<notin> set (pool_free p)"
  shows "\<exists>p'. release p i = Some p' \<and> pool_ok p' \<and> pool_free p' = i # pool_free p \<and>
     length (bp_descs p') = length (bp_descs p) \<and> bp_buffer_size p' = bp_buffer_size p \<and>
     (\<forall>j. bd_bytes (bp_descs p' ! j) = bd_bytes (bp_descs p ! j)) \<and>
     (\<forall>j. j \<noteq> i \<longrightarrow> bp_descs p' ! j = bp_descs p ! j)"
proof -
  note ok = pool_okD [OF assms(1)]
  let ?top = "fs_top (bp_stack p)"
  let ?d = "(bp_descs p ! i)\<lparr>bd_len := 0, bd_next := index_of ?top\<rparr>"
  let ?p' = "p\<lparr>bp_stack := (bp_stack p)\<lparr>fs_top := pack (gen_of ?top + 1) (of_nat i),
      fs_size := fs_size (bp_stack p) + 1\<rparr>, bp_descs := (bp_descs p)[i := ?d],
      bp_releases := bp_releases p + 1\<rparr>"
  have idx: "bd_pool_index (bp_descs p ! i) = of_nat i" "unat (of_nat i :: u32) = i" "(of_nat i :: u32) \<noteq> kEmpty"
    using ok(1,2,3) assms(2) by (auto simp: desc_ok_def intro!: unat_of_nat_u32 of_nat_not_kEmpty)
  have rel: "release p i = Some ?p'"
    using assms(2) idx ok(1) by (simp add: release_def fs_push_def Let_def)
  have "chain (bp_descs ?p') (index_of ?top) (pool_free p)"
    using ok(4) assms(2,3) by (subst chain_cong [of _ "bp_descs p"]) (auto simp: nth_list_update)
  then have "chain (bp_descs ?p') (index_of (fs_top (bp_stack ?p'))) (i # pool_free p)"
    using assms(2) idx by simp
  moreover have "desc_ok ?p' j" if "j < length (bp_descs ?p')" for j
    using ok(3) [of j] that by (cases "j = i") (simp_all add: desc_ok_def)
  ultimately have "pool_ok ?p'" "pool_free ?p' = i # pool_free p"
    by (intro pool_okI [of ?p' "i # pool_free p"]; use ok assms in \<open>simp\<close>)+
  then show ?thesis
    using rel assms(2) by (auto simp: nth_list_update)
qed

text \<open>Writing through a descriptor leaves the free list alone.\<close>

lemma buf_write_frame:
  assumes "pool_ok p" "buf_write p i off bs = Some p'"
  shows "pool_ok p'" "pool_free p' = pool_free p" "length (bp_descs p') = length (bp_descs p)"
    and "\<And>j. j \<noteq> i \<Longrightarrow> bp_descs p' ! j = bp_descs p ! j"
proof -
  note ok = pool_okD [OF assms(1)]
  let ?d = "bp_descs p ! i"
  let ?m = "take off (bd_bytes ?d) @ bs @ drop (off + length bs) (bd_bytes ?d)"
  have p': "p' = p\<lparr>bp_descs := (bp_descs p)[i := ?d\<lparr>bd_bytes := ?m\<rparr>]\<rparr>"
    and fits: "off + length bs \<le> length (bd_bytes ?d)"
    using assms(2) by (auto simp: buf_write_def Let_def split: if_splits)
  have c: "chain (bp_descs p') (index_of (fs_top (bp_stack p'))) (pool_free p)"
    unfolding p' using ok(4)
    by (subst chain_cong [of _ "bp_descs p"]) (simp_all add: nth_update_same [where g = bd_next])
  have d: "desc_ok p' j" if "j < length (bp_descs p')" for j
    using ok(3) [of j] that fits unfolding p' by (cases "j = i") (simp_all add: desc_ok_def)
  show "pool_ok p'" "pool_free p' = pool_free p"
    by (rule pool_okI [OF _ _ d c]; use ok p' in simp)+
  show "length (bp_descs p') = length (bp_descs p)"
    and "\<And>j. j \<noteq> i \<Longrightarrow> bp_descs p' ! j = bp_descs p ! j"
    unfolding p' by simp_all
qed

lemma buf_set_len_frame:
  assumes "pool_ok p" "buf_set_len p i n = Some p'"
  shows "pool_ok p'" "pool_free p' = pool_free p" "length (bp_descs p') = length (bp_descs p)"
    and "\<And>j. j \<noteq> i \<Longrightarrow> bp_descs p' ! j = bp_descs p ! j"
proof -
  note ok = pool_okD [OF assms(1)]
  have p': "p' = p\<lparr>bp_descs := (bp_descs p)[i := (bp_descs p ! i)\<lparr>bd_len := n\<rparr>]\<rparr>"
    using assms(2) by (auto simp: buf_set_len_def split: if_splits)
  have c: "chain (bp_descs p') (index_of (fs_top (bp_stack p'))) (pool_free p)"
    unfolding p' using ok(4)
    by (subst chain_cong [of _ "bp_descs p"]) (simp_all add: nth_update_same [where g = bd_next])
  have d: "desc_ok p' j" if "j < length (bp_descs p')" for j
    using ok(3) [of j] that unfolding p' by (cases "j = i") (simp_all add: desc_ok_def)
  show "pool_ok p'" "pool_free p' = pool_free p"
    by (rule pool_okI [OF _ _ d c]; use ok p' in simp)+
  show "length (bp_descs p') = length (bp_descs p)"
    and "\<And>j. j \<noteq> i \<Longrightarrow> bp_descs p' ! j = bp_descs p ! j"
    unfolding p' by simp_all
qed

lemma buf_read_write:
  "buf_write p i off bs = Some p' \<Longrightarrow> buf_read p' i off (length bs) = Some bs"
  by (auto simp: buf_write_def buf_read_def Let_def split: if_splits)

section \<open>Construction\<close>

text \<open>The pool after the constructor's loop has threaded the first \<open>m\<close> descriptors.\<close>

definition threaded :: "buffer_pool \<Rightarrow> nat \<Rightarrow> bool" where
  "threaded p m \<longleftrightarrow> m \<le> length (bp_descs p) \<and>
     chain (bp_descs p) (index_of (fs_top (bp_stack p))) (rev [0..<m]) \<and>
     fs_size (bp_stack p) = of_nat m \<and>
     (\<forall>i < length (bp_descs p). length (bd_bytes (bp_descs p ! i)) = unat (bp_buffer_size p)) \<and>
     (\<forall>i < m. bd_pool_index (bp_descs p ! i) = of_nat i \<and> bd_len (bp_descs p ! i) = 0 \<and>
        bd_data (bp_descs p ! i) = bp_backing p + of_nat i * bp_buffer_size p \<and>
        bd_capacity (bp_descs p ! i) = ucast (bp_buffer_size p))"

lemma pool_init_slot_threaded:
  assumes "threaded p m" "m < length (bp_descs p)" "length (bp_descs p) < 2 ^ 32"
  shows "\<exists>p'. pool_init_slot p m = Some p' \<and> threaded p' (Suc m) \<and>
     length (bp_descs p') = length (bp_descs p) \<and>
     p' = p\<lparr>bp_descs := bp_descs p', bp_stack := bp_stack p'\<rparr>"
proof -
  have m: "unat (of_nat m :: u32) = m" "(of_nat m :: u32) \<noteq> kEmpty"
    using assms(2,3) by (auto intro!: unat_of_nat_u32 of_nat_not_kEmpty)
  let ?top = "fs_top (bp_stack p)"
  let ?d = "(bp_descs p ! m)\<lparr>bd_data := bp_backing p + of_nat m * bp_buffer_size p, bd_len := 0,
      bd_capacity := ucast (bp_buffer_size p), bd_pool_index := of_nat m, bd_next := index_of ?top\<rparr>"
  let ?p' = "p\<lparr>bp_stack := (bp_stack p)\<lparr>fs_top := pack (gen_of ?top + 1) (of_nat m),
      fs_size := fs_size (bp_stack p) + 1\<rparr>, bp_descs := (bp_descs p)[m := ?d]\<rparr>"
  have e: "pool_init_slot p m = Some ?p'"
    using assms(2) m by (simp add: pool_init_slot_def fs_push_def Let_def)
  have "chain (bp_descs ?p') (index_of ?top) (rev [0..<m])"
    using assms(1) by (subst chain_cong [of _ "bp_descs p"]) (auto simp: threaded_def)
  then have "threaded ?p' (Suc m)"
    using assms m by (simp add: threaded_def nth_list_update less_Suc_eq)
  then show ?thesis using e by auto
qed

lemma pool_init_slots_threaded:
  assumes "threaded p m" "m + n = length (bp_descs p)" "length (bp_descs p) < 2 ^ 32"
  shows "\<exists>p'. pool_init_slots p [m..<m + n] = Some p' \<and> threaded p' (m + n) \<and>
     length (bp_descs p') = length (bp_descs p) \<and>
     p' = p\<lparr>bp_descs := bp_descs p', bp_stack := bp_stack p'\<rparr>"
  using assms
proof (induction n arbitrary: p m)
  case 0
  then show ?case by simp
next
  case (Suc n)
  obtain p1 where p1: "pool_init_slot p m = Some p1" "threaded p1 (Suc m)"
      "length (bp_descs p1) = length (bp_descs p)"
      "p1 = p\<lparr>bp_descs := bp_descs p1, bp_stack := bp_stack p1\<rparr>"
    using pool_init_slot_threaded [of p m] Suc.prems by auto
  obtain p' where p': "pool_init_slots p1 [Suc m..<Suc m + n] = Some p'" "threaded p' (Suc m + n)"
      "length (bp_descs p') = length (bp_descs p1)"
      "p' = p1\<lparr>bp_descs := bp_descs p', bp_stack := bp_stack p'\<rparr>"
    using Suc.IH [of p1 "Suc m"] Suc.prems p1 by auto
  have "p' = p\<lparr>bp_descs := bp_descs p', bp_stack := bp_stack p'\<rparr>"
    by (subst p'(4), subst p1(4)) simp
  moreover have "[m..<m + Suc n] = m # [Suc m..<Suc m + n]"
    by (simp add: upt_conv_Cons del: upt_Suc)
  then have "pool_init_slots p [m..<m + Suc n] = Some p'"
    using p1(1) p'(1) by simp
  ultimately show ?case
    using p1(3) p'(2,3) by auto
qed

lemma buffer_pool_new_cases:
  assumes "buffer_pool_new k os reg bsize cnt node = Some (Inr p, reg', os')" "unat cnt < 2 ^ 32"
  shows "threaded p (unat cnt)" "length (bp_descs p) = unat cnt" "bp_buffer_count p = cnt"
    "bp_buffer_size p = bsize" "bp_exhausted p = 0"
proof -
  obtain p0 where p0: "pool_init_slots p0 [0..<0 + unat cnt] = Some p" "bp_buffer_count p0 = cnt"
      "bp_buffer_size p0 = bsize" "bp_stack p0 = fs_init" "bp_exhausted p0 = 0"
      "bp_descs p0 = replicate (unat cnt) (zero_descriptor bsize)"
    using assms(1)
    by (auto simp: buffer_pool_new_def Let_def split: if_splits option.splits sum.splits)
  have "threaded p0 0"
    using p0 by (simp add: threaded_def fs_init_def zero_descriptor_def)
  then obtain p' where "pool_init_slots p0 [0..<0 + unat cnt] = Some p'" "threaded p' (unat cnt)"
      "length (bp_descs p') = length (bp_descs p0)"
      and eq: "p' = p0\<lparr>bp_descs := bp_descs p', bp_stack := bp_stack p'\<rparr>"
    using pool_init_slots_threaded [of p0 0 "unat cnt"] p0 assms(2) by auto
  moreover have "bp_buffer_count p' = bp_buffer_count p0" "bp_buffer_size p' = bp_buffer_size p0"
    "bp_exhausted p' = bp_exhausted p0"
    by (subst eq, simp)+
  ultimately show "threaded p (unat cnt)" "length (bp_descs p) = unat cnt" "bp_buffer_count p = cnt"
    "bp_buffer_size p = bsize" "bp_exhausted p = 0"
    using p0 by auto
qed

text \<open>The constructor succeeds as soon as its two allocations do and the size does not wrap around.\<close>

lemma unat_mult_exact: "unat a * unat b < 2 ^ 64 \<Longrightarrow> unat (a * b :: u64) = unat a * unat b"
  using unat_of_nat_u64 [of "unat a * unat b"] by simp

lemma buffer_pool_new_succeeds:
  assumes "alloc_region k os reg (bsize * cnt) node = Some (Inr backing, reg1, os1)"
    and "alloc_region k os1 reg1 (cnt * 64) node = Some (Inr descriptors, reg2, os2)"
    and "bsize \<noteq> 0" "cnt \<noteq> 0" "unat cnt < 2 ^ 32" "unat bsize * unat cnt < 2 ^ 64"
  shows "\<exists>p. buffer_pool_new k os reg bsize cnt node = Some (Inr p, reg2, os2)"
proof -
  have "unat (bsize * cnt) = unat bsize * unat cnt" "unat (cnt * 64) = unat cnt * 64"
    using assms(5,6) by (simp_all add: unat_mult_exact)
  note exact = this
  let ?p0 = "\<lparr>bp_buffer_size = bsize, bp_buffer_count = cnt, bp_numa_node = node, bp_backing = backing,
    bp_descriptors = descriptors, bp_backing_bytes = bsize * cnt, bp_descriptor_bytes = cnt * 64,
    bp_descs = replicate (unat cnt) (zero_descriptor bsize), bp_stack = fs_init, bp_acquires = 0,
    bp_releases = 0, bp_exhausted = 0\<rparr>"
  have "threaded ?p0 0" by (simp add: threaded_def fs_init_def zero_descriptor_def)
  then obtain p where "pool_init_slots ?p0 [0..<unat cnt] = Some p"
    using pool_init_slots_threaded [of ?p0 0 "unat cnt"] assms(5) by auto
  then show ?thesis using assms(1-4) exact by (simp add: buffer_pool_new_def)
qed

lemma threaded_pool_ok:
  assumes "threaded p (unat (bp_buffer_count p))" "length (bp_descs p) = unat (bp_buffer_count p)"
    and "unat (bp_buffer_count p) < 2 ^ 32"
  shows "pool_ok p" "pool_free p = rev [0..<unat (bp_buffer_count p)]"
proof -
  have c: "chain (bp_descs p) (index_of (fs_top (bp_stack p))) (rev [0..<unat (bp_buffer_count p)])"
    using assms by (simp add: threaded_def)
  have d: "desc_ok p i" if "i < length (bp_descs p)" for i
    using assms that by (simp add: threaded_def desc_ok_def)
  show "pool_ok p" "pool_free p = rev [0..<unat (bp_buffer_count p)]"
    by (rule pool_okI [OF _ _ d c]; use assms in \<open>simp add: threaded_def\<close>)+
qed

lemma slot_address:
  fixes base bsize :: u64
  assumes "unat base + unat bsize * n \<le> 2 ^ 64" "i < n" "0 < unat bsize"
  shows "unat (base + of_nat i * bsize) = unat base + i * unat bsize"
proof -
  have "(i + 1) * unat bsize \<le> unat bsize * n"
    using assms(2) by (simp add: mult.commute [of n] mult_le_mono1 del: mult_Suc)
  then have "unat base + i * unat bsize < 2 ^ 64"
    using assms(1,3) by simp
  then show ?thesis
    using unat_of_nat_u64 [of "unat base + i * unat bsize"] by simp
qed

section \<open>The contract of a buffer store\<close>

text \<open>
  A client's script: take a buffer, or give back the \<open>n\<close>-th buffer it holds. \<open>store_run\<close> executes
  it and tracks the buffers held; a hand-out the store refuses changes nothing.
\<close>

datatype store_op = Take | Give nat

fun store_run ::
  "('p \<Rightarrow> (nat option \<times> 'p) option) \<Rightarrow> ('p \<Rightarrow> nat \<Rightarrow> 'p option) \<Rightarrow> 'p \<Rightarrow> nat list \<Rightarrow> store_op list
    \<Rightarrow> ('p \<times> nat list) option" where
  "store_run acq rel p held [] = Some (p, held)"
| "store_run acq rel p held (Take # ops) =
     (case acq p of
        None \<Rightarrow> None
      | Some (None, p') \<Rightarrow> store_run acq rel p' held ops
      | Some (Some b, p') \<Rightarrow> store_run acq rel p' (b # held) ops)"
| "store_run acq rel p held (Give n # ops) =
     (if n < length held then
        (case rel p (held ! n) of
           None \<Rightarrow> None
         | Some p' \<Rightarrow> store_run acq rel p' (take n held @ drop (Suc n) held) ops)
      else store_run acq rel p held ops)"

locale buffer_store =
  fixes acq :: "'p \<Rightarrow> (nat option \<times> 'p) option"
    and rel :: "'p \<Rightarrow> nat \<Rightarrow> 'p option"
    and avail :: "'p \<Rightarrow> nat list"
    and cap :: "'p \<Rightarrow> nat"
    and ok :: "'p \<Rightarrow> bool"
  assumes acq_Nil: "ok p \<Longrightarrow> avail p = [] \<Longrightarrow>
      \<exists>p'. acq p = Some (None, p') \<and> ok p' \<and> avail p' = [] \<and> cap p' = cap p"
    and acq_Cons: "ok p \<Longrightarrow> avail p = b # bs \<Longrightarrow>
      \<exists>p'. acq p = Some (Some b, p') \<and> ok p' \<and> avail p' = bs \<and> cap p' = cap p"
    and rel_held: "ok p \<Longrightarrow> b < cap p \<Longrightarrow> b \<notin> set (avail p) \<Longrightarrow>
      \<exists>p'. rel p b = Some p' \<and> ok p' \<and> avail p' = b # avail p \<and> cap p' = cap p"
begin

definition conserved :: "'p \<Rightarrow> nat list \<Rightarrow> bool" where
  "conserved p held \<longleftrightarrow> ok p \<and> mset (avail p) + mset held = mset [0..<cap p]"

lemma conserved_split: "conserved p held \<Longrightarrow> distinct (avail p @ held) \<and> set (avail p) \<union> set held = {..<cap p}"
  by (metis conserved_def atLeast_upt distinct_upt mset_append mset_eq_imp_distinct_iff mset_eq_setD set_append)

lemma conserved_nth:
  assumes "conserved p held" "n < length held"
  shows "held ! n < cap p" "held ! n \<notin> set (avail p)"
  using conserved_split [OF assms(1)] nth_mem [OF assms(2)] by auto

lemma mset_take_out: "n < length xs \<Longrightarrow> mset xs = add_mset (xs ! n) (mset (take n xs @ drop (Suc n) xs))"
  by (subst (1) id_take_nth_drop [of n]) simp_all

lemma run_conserved:
  assumes "conserved p held"
  shows "\<exists>p' held'. store_run acq rel p held ops = Some (p', held') \<and> conserved p' held' \<and> cap p' = cap p"
  using assms
proof (induction ops arbitrary: p held)
  case Nil
  then show ?case by simp
next
  case (Cons op ops)
  show ?case
  proof (cases op)
    case Take
    show ?thesis
    proof (cases "avail p")
      case Nil
      then obtain p' where "acq p = Some (None, p')" "ok p'" "avail p' = []" "cap p' = cap p"
        using acq_Nil Cons.prems conserved_def by blast
      with Nil Take Cons.IH [of p' held] Cons.prems show ?thesis
        by (auto simp: conserved_def)
    next
      case (Cons b bs)
      then obtain p' where "acq p = Some (Some b, p')" "ok p'" "avail p' = bs" "cap p' = cap p"
        using acq_Cons Cons.prems conserved_def by blast
      with Cons Take Cons.IH [of p' "b # held"] Cons.prems show ?thesis
        by (auto simp: conserved_def)
    qed
  next
    case (Give n)
    show ?thesis
    proof (cases "n < length held")
      case True
      obtain p' where p': "rel p (held ! n) = Some p'" "ok p'" "avail p' = held ! n # avail p" "cap p' = cap p"
        using rel_held conserved_nth [OF Cons.prems True] Cons.prems conserved_def by blast
      then have "conserved p' (take n held @ drop (Suc n) held)"
        using Cons.prems mset_take_out [OF True] by (simp add: conserved_def)
      with p' Give True Cons.IH show ?thesis by fastforce
    next
      case False
      with Give Cons show ?thesis by simp
    qed
  qed
qed

end

lemma pool_acq_Nil:
  assumes "pool_ok p" "pool_free p = []"
  shows "\<exists>p'. acquire p = Some (None, p') \<and> pool_ok p' \<and> pool_free p' = [] \<and>
    length (bp_descs p') = length (bp_descs p)"
proof -
  let ?p' = "p\<lparr>bp_exhausted := bp_exhausted p + 1\<rparr>"
  have "pool_free ?p' = pool_free p" "desc_ok ?p' = desc_ok p"
    by (simp_all add: pool_free_def desc_ok_def fun_eq_iff)
  then show ?thesis
    using acquire_Nil [OF assms] assms by (auto simp: pool_ok_def)
qed

interpretation pool: buffer_store acquire release pool_free "\<lambda>p. length (bp_descs p)" pool_ok
proof
  show "\<exists>p'. acquire p = Some (None, p') \<and> pool_ok p' \<and> pool_free p' = [] \<and> length (bp_descs p') = length (bp_descs p)"
    if "pool_ok p" "pool_free p = []" for p
    using pool_acq_Nil [OF that] .
  show "\<exists>p'. acquire p = Some (Some b, p') \<and> pool_ok p' \<and> pool_free p' = bs \<and> length (bp_descs p') = length (bp_descs p)"
    if "pool_ok p" "pool_free p = b # bs" for p b bs
    using acquire_Cons [OF that] by auto
  show "\<exists>p'. release p b = Some p' \<and> pool_ok p' \<and> pool_free p' = b # pool_free p \<and> length (bp_descs p') = length (bp_descs p)"
    if "pool_ok p" "b < length (bp_descs p)" "b \<notin> set (pool_free p)" for p b
    using release_held [OF that] by auto
qed

section \<open>Properties\<close>

text \<open>
  C6. Buffers are conserved. Starting from a pool the constructor delivered with fewer than
  \<open>2 ^ 32\<close> buffers, every script of \<open>acquire\<close> and \<open>release\<close> calls runs to its end; at the end the
  buffers held and the buffers on the free list are pairwise distinct and together all buffers of
  the pool (so no buffer is handed out twice and none is lost), and \<open>free_count\<close> is the number of
  buffers not held.
\<close>

theorem pool_conservation:
  assumes "buffer_pool_new k os reg bsize cnt node = Some (Inr p, reg', os')" "unat cnt < 2 ^ 32"
  shows "\<exists>p' held. store_run acquire release p [] ops = Some (p', held) \<and>
    distinct (pool_free p' @ held) \<and> set (pool_free p') \<union> set held = {..<unat cnt} \<and>
    length held \<le> unat cnt \<and> free_count p' = of_nat (unat cnt - length held)"
proof -
  note new = buffer_pool_new_cases [OF assms]
  have "pool.conserved p []"
    using threaded_pool_ok [of p] new assms(2) by (simp add: pool.conserved_def)
  then obtain p' held where run: "store_run acquire release p [] ops = Some (p', held)"
      and con: "pool.conserved p' held" and cap: "length (bp_descs p') = unat cnt"
    using pool.run_conserved [of p "[]" ops] new(2) by auto
  have len: "length (pool_free p') + length held = unat cnt"
    using con cap by (metis add.commute diff_zero length_upt pool.conserved_def size_mset size_union)
  then have "free_count p' = of_nat (unat cnt - length held)"
    using con pool_okD(6) [of p'] by (simp add: free_count_def pool.conserved_def flip: len)
  then show ?thesis
    using run pool.conserved_split [OF con] cap len by auto
qed

definition bump_os :: "u64 os_calls" where
  "bump_os = \<lparr>os_mmap = (\<lambda>n huge len. (Some n, n + len)),
     os_munmap = (\<lambda>n p len. (True, n)), os_mbind = (\<lambda>n p len mask. n)\<rparr>"

lemma bump_pool_new:
  fixes bsize cnt :: u64
  assumes "bsize \<noteq> 0" "cnt \<noteq> 0" "unat cnt < 2 ^ 32" "unat bsize * unat cnt < 2 ^ 64"
  shows "\<exists>p reg os. buffer_pool_new bump_os 4096 [] bsize cnt (-1) = Some (Inr p, reg, os)"
proof -
  obtain a b r1 r2 o1 o2 where al:
      "alloc_region bump_os 4096 [] (bsize * cnt) (-1) = Some (Inr a, r1, o1)"
      "alloc_region bump_os o1 r1 (cnt * 64) (-1) = Some (Inr b, r2, o2)"
    by (simp add: alloc_region_def allocate_def bump_os_def Let_def)
  show ?thesis using buffer_pool_new_succeeds [OF al assms] by blast
qed

lemma bump_pool_exists:
  fixes bsize cnt :: u64
  assumes "bsize \<noteq> 0" "cnt \<noteq> 0" "unat cnt < 2 ^ 32" "unat bsize * unat cnt < 2 ^ 64"
  shows "\<exists>p. pool_ok p \<and> bp_buffer_size p = bsize \<and> length (bp_descs p) = unat cnt \<and>
    pool_free p = rev [0..<unat cnt]"
proof -
  obtain p reg os where new: "buffer_pool_new bump_os 4096 [] bsize cnt (-1) = Some (Inr p, reg, os)"
    using bump_pool_new [OF assms] by blast
  note c = buffer_pool_new_cases [OF new assms(3)]
  show ?thesis using c threaded_pool_ok [of p] assms(3) by auto
qed

definition tiny_pool :: buffer_pool where
  "tiny_pool = \<lparr>bp_buffer_size = 2, bp_buffer_count = 2, bp_numa_node = -1,
     bp_backing = 4096, bp_descriptors = 2101248, bp_backing_bytes = 4, bp_descriptor_bytes = 128,
     bp_descs =
       [\<lparr>bd_data = 4096, bd_len = 0, bd_capacity = 2, bd_pool_index = 0, bd_next = kEmpty, bd_bytes = [0, 0]\<rparr>,
        \<lparr>bd_data = 4098, bd_len = 0, bd_capacity = 2, bd_pool_index = 1, bd_next = 0, bd_bytes = [0, 0]\<rparr>],
     bp_stack = \<lparr>fs_top = pack 2 1, fs_size = 2\<rparr>, bp_acquires = 0, bp_releases = 0, bp_exhausted = 0\<rparr>"

lemma tiny_pool_new:
  "\<exists>reg os. buffer_pool_new bump_os 4096 [] 2 2 (-1) = Some (Inr tiny_pool, reg, os)"
  by (simp add: buffer_pool_new_def alloc_region_def allocate_def bump_os_def round_up_def
      HUGE_PAGE_SIZE_def zero_descriptor_def pool_init_slot_def fs_push_def fs_init_def tiny_pool_def
      Let_def upt_0_2 replicate_2)

theorem pool_conservation_witness:
  "\<exists>p' held. store_run acquire release tiny_pool [] [Take, Take, Take, Give 1] = Some (p', held) \<and>
    distinct (pool_free p' @ held) \<and> set (pool_free p') \<union> set held = {..<2} \<and>
    length held \<le> 2 \<and> free_count p' = of_nat (2 - length held)"
proof -
  obtain reg os where "buffer_pool_new bump_os 4096 [] 2 2 (-1) = Some (Inr tiny_pool, reg, os)"
    using tiny_pool_new by auto
  from pool_conservation [OF this, of "[Take, Take, Take, Give 1]"] show ?thesis
    by (simp del: store_run.simps)
qed

text \<open>
  Layout of a fresh pool. When the buffer array does not run past the end of the address
  space, buffer \<open>i\<close> starts at \<open>backing + i * buffer_size\<close>; different buffers do not overlap and all of
  them lie in the array; and all buffers are free, the last one on top.
\<close>

theorem pool_layout:
  assumes "buffer_pool_new k os reg bsize cnt node = Some (Inr p, reg', os')" "unat cnt < 2 ^ 32"
    and "0 < unat bsize" "unat (bp_backing p) + unat bsize * unat cnt \<le> 2 ^ 64"
    and "i < j" "j < unat cnt"
  shows "unat (bd_data (bp_descs p ! i)) + unat bsize \<le> unat (bd_data (bp_descs p ! j)) \<and>
    unat (bp_backing p) \<le> unat (bd_data (bp_descs p ! i)) \<and>
    unat (bd_data (bp_descs p ! j)) + unat bsize \<le> unat (bp_backing p) + unat bsize * unat cnt \<and>
    length (bd_bytes (bp_descs p ! i)) = unat bsize \<and> pool_free p = rev [0..<unat cnt]"
proof -
  note new = buffer_pool_new_cases [OF assms(1,2)]
  have addr: "unat (bd_data (bp_descs p ! n)) = unat (bp_backing p) + n * unat bsize" if "n < unat cnt" for n
    using slot_address [OF assms(4) that assms(3)] new that by (simp add: threaded_def)
  have "Suc i * unat bsize \<le> j * unat bsize" "Suc j * unat bsize \<le> unat cnt * unat bsize"
    using assms(5,6) by (intro mult_le_mono1; simp)+
  then have "unat (bp_backing p) + i * unat bsize + unat bsize \<le> unat (bp_backing p) + j * unat bsize"
    "unat (bp_backing p) + j * unat bsize + unat bsize \<le> unat (bp_backing p) + unat bsize * unat cnt"
    by (simp_all add: mult.commute)
  then show ?thesis
    using addr [of i] addr [of j] assms(5,6) threaded_pool_ok(2) [of p] new assms(2)
    by (simp add: threaded_def)
qed

theorem pool_layout_witness:
  "unat (bd_data (bp_descs tiny_pool ! 0)) + 2 \<le> unat (bd_data (bp_descs tiny_pool ! 1)) \<and>
    pool_free tiny_pool = [1, 0]"
proof -
  obtain reg os where new: "buffer_pool_new bump_os 4096 [] 2 2 (-1) = Some (Inr tiny_pool, reg, os)"
    using tiny_pool_new by auto
  have "bp_backing tiny_pool = 4096" by (simp add: tiny_pool_def)
  then show ?thesis using pool_layout [OF new, of 0 1] by (simp add: upt_0_2)
qed

text \<open>
  C39. The constructor leaks. When the second of its two allocations fails (no NUMA node asked for)
  the constructor reports the error, and the block it had already obtained for the buffers is still
  registered with the allocator: no later destructor runs, so nothing gives it back.
\<close>

theorem pool_new_leak:
  assumes "bsize \<noteq> 0" "cnt \<noteq> 0"
    and "allocate k os reg (bsize * cnt) False = (Inr backing, reg1, os1)"
    and "allocate k os1 reg1 (cnt * 64) False = (Inl e, reg2, os2)"
  shows "buffer_pool_new k os reg bsize cnt (-1) = Some (Inl e, reg2, os2) \<and> map_of reg2 backing \<noteq> None"
proof -
  have "map_of reg1 backing \<noteq> None"
    using assms(3) by (auto simp: allocate_def Let_def update_conv' split: prod.splits option.splits if_splits)
  moreover have "reg2 = reg1"
    using assms(4) by (auto simp: allocate_def Let_def split: prod.splits option.splits if_splits)
  ultimately show ?thesis
    using assms by (simp add: buffer_pool_new_def alloc_region_def)
qed

text \<open>A kernel with one mapping left to give.\<close>

definition one_mapping_os :: "u64 os_calls" where
  "one_mapping_os = bump_os\<lparr>os_mmap := (\<lambda>n huge len. if n = 0 then (Some 4096, 1) else (None, n))\<rparr>"

theorem pool_new_leak_witness:
  "map_of [(4096 :: u64, \<lparr>ai_bytes = 2097152, ai_huge = True\<rparr>)] 4096 \<noteq> None \<and>
   buffer_pool_new one_mapping_os 0 [] 2 2 (-1) =
     Some (Inl Fallback_mmap_failed, [(4096, \<lparr>ai_bytes = 2097152, ai_huge = True\<rparr>)], 1)"
  using pool_new_leak [of 2 2 one_mapping_os 0 "[]" 4096 "[(4096, \<lparr>ai_bytes = 2097152, ai_huge = True\<rparr>)]" 1
      Fallback_mmap_failed "[(4096, \<lparr>ai_bytes = 2097152, ai_huge = True\<rparr>)]" 1]
  by (simp add: allocate_def one_mapping_os_def bump_os_def round_up_def HUGE_PAGE_SIZE_def)

end
