(* ===== verification/Free_Stack_Concurrent.thy ===== *)
theory Free_Stack_Concurrent
  imports Buffer_Pool
begin

text \<open>
  The free list of the buffer pool under concurrency: any number of threads in \<^verbatim>\<open>FreeStack::push\<close> and
  \<^verbatim>\<open>FreeStack::pop\<close> (\<^verbatim>\<open>src/buffer_pool.cpp\<close>), interleaved at every access to \<^verbatim>\<open>top_\<close>, to a link and to
  \<^verbatim>\<open>size_\<close>. Each rule of \<open>fs_cstep\<close> is one of those accesses.
  \<^item> \<open>fc_hist\<close> lists the values \<^verbatim>\<open>top_\<close> has had. A load, and the load of a compare-and-swap that fails, may
    return any of them, which is more than coherence allows; a compare-and-swap that succeeds reads the
    latest. It may fail for no reason (\<^verbatim>\<open>compare_exchange_weak\<close>). What holds in all runs of \<open>fs_cstep\<close> holds
    in those of the machine. The other way round, what is claimed to happen is shown on runs of \<open>fs_sc\<close>, the
    sequentially consistent ones, in which a load returns the latest value.
  \<^item> The \<open>nat\<close> in a thread state is the position in \<open>fc_hist\<close> of the value the thread has loaded.
  \<^item> \<open>fc_held\<close> are the buffers handed out; a caller pushes only such a buffer.
\<close>

section \<open>The threads\<close>

datatype fs_thread =
    TIdle
  | TPush u32                \<comment> \<open>\<^verbatim>\<open>push\<close> called\<close>
  | TPushLoaded u32 u64 nat  \<comment> \<open>\<^verbatim>\<open>old\<close> loaded\<close>
  | TPushLinked u32 u64 nat  \<comment> \<open>link written\<close>
  | TPushed                  \<comment> \<open>\<^verbatim>\<open>top_\<close> exchanged, \<^verbatim>\<open>size_\<close> not yet increased\<close>
  | TPopLoaded u64 nat
  | TPopNext u64 nat u32     \<comment> \<open>link read\<close>
  | TPopped u32              \<comment> \<open>\<^verbatim>\<open>top_\<close> exchanged, \<^verbatim>\<open>size_\<close> not yet decreased\<close>

record fs_sys =
  fc_top :: u64
  fc_size :: u32
  fc_descs :: "buffer_descriptor list"
  fc_threads :: "fs_thread list"
  fc_hist :: "u64 list"
  fc_held :: "nat list"

definition fs_sys_init :: "buffer_pool \<Rightarrow> nat list \<Rightarrow> nat \<Rightarrow> fs_sys" where
  "fs_sys_init p held n = \<lparr>fc_top = fs_top (bp_stack p), fc_size = fs_size (bp_stack p), fc_descs = bp_descs p,
     fc_threads = replicate n TIdle, fc_hist = [fs_top (bp_stack p)], fc_held = held\<rparr>"

definition goto :: "nat \<Rightarrow> fs_thread \<Rightarrow> fs_sys \<Rightarrow> fs_sys" where
  "goto t th s = s\<lparr>fc_threads := (fc_threads s)[t := th]\<rparr>"

definition at :: "fs_sys \<Rightarrow> nat \<Rightarrow> fs_thread \<Rightarrow> bool" where
  "at s t th \<longleftrightarrow> t < length (fc_threads s) \<and> fc_threads s ! t = th"

definition set_top :: "u64 \<Rightarrow> fs_sys \<Rightarrow> fs_sys" where
  "set_top v s = s\<lparr>fc_top := v, fc_hist := fc_hist s @ [v]\<rparr>"

inductive fs_cstep :: "fs_sys \<Rightarrow> fs_sys \<Rightarrow> bool" where
  push_call: "at s t TIdle \<Longrightarrow> i \<in> set (fc_held s) \<Longrightarrow>
     fs_cstep s (goto t (TPush (of_nat i)) (s\<lparr>fc_held := remove1 i (fc_held s)\<rparr>))"
| push_load: "at s t (TPush i) \<Longrightarrow> v < length (fc_hist s) \<Longrightarrow>
     fs_cstep s (goto t (TPushLoaded i (fc_hist s ! v) v) s)"
| push_link: "at s t (TPushLoaded i old v) \<Longrightarrow>
     fs_cstep s (goto t (TPushLinked i old v)
       (s\<lparr>fc_descs := (fc_descs s)[unat i := (fc_descs s ! unat i)\<lparr>bd_next := index_of old\<rparr>]\<rparr>))"
| push_cas: "at s t (TPushLinked i old v) \<Longrightarrow> fc_top s = old \<Longrightarrow>
     fs_cstep s (goto t TPushed (set_top (pack (gen_of old + 1) i) s))"
| push_retry: "at s t (TPushLinked i old v) \<Longrightarrow> w < length (fc_hist s) \<Longrightarrow>
     fs_cstep s (goto t (TPushLoaded i (fc_hist s ! w) w) s)"
| push_done: "at s t TPushed \<Longrightarrow>
     fs_cstep s (goto t TIdle (s\<lparr>fc_size := fc_size s + 1\<rparr>))"
| pop_load: "at s t TIdle \<Longrightarrow> v < length (fc_hist s) \<Longrightarrow>
     fs_cstep s (goto t (TPopLoaded (fc_hist s ! v) v) s)"
| pop_empty: "at s t (TPopLoaded old v) \<Longrightarrow> index_of old = kEmpty \<Longrightarrow>
     fs_cstep s (goto t TIdle s)"
| pop_next: "at s t (TPopLoaded old v) \<Longrightarrow> index_of old \<noteq> kEmpty \<Longrightarrow>
     fs_cstep s (goto t (TPopNext old v (bd_next (fc_descs s ! unat (index_of old)))) s)"
| pop_cas: "at s t (TPopNext old v nxt) \<Longrightarrow> fc_top s = old \<Longrightarrow>
     fs_cstep s (goto t (TPopped (index_of old)) (set_top (pack (gen_of old + 1) nxt) s))"
| pop_retry: "at s t (TPopNext old v nxt) \<Longrightarrow> w < length (fc_hist s) \<Longrightarrow>
     fs_cstep s (goto t (TPopLoaded (fc_hist s ! w) w) s)"
| pop_done: "at s t (TPopped i) \<Longrightarrow>
     fs_cstep s (goto t TIdle (s\<lparr>fc_size := fc_size s - 1, fc_held := unat i # fc_held s\<rparr>))"

text \<open>
  The generation counter has 32 bits, so a thread must not be overtaken by \<open>2 ^ 32\<close> updates of \<^verbatim>\<open>top_\<close>
  between its load and its compare-and-swap. \<open>fs_reach\<close> are the states of the runs where none is.
\<close>

fun loaded :: "fs_thread \<Rightarrow> nat option" where
  "loaded (TPushLoaded i old v) = Some v"
| "loaded (TPushLinked i old v) = Some v"
| "loaded (TPopLoaded old v) = Some v"
| "loaded (TPopNext old v nxt) = Some v"
| "loaded th = None"

definition timely :: "fs_sys \<Rightarrow> bool" where
  "timely s \<longleftrightarrow> (\<forall>th \<in> set (fc_threads s). \<forall>v. loaded th = Some v \<longrightarrow> length (fc_hist s) \<le> v + 2 ^ 32)"

text \<open>
  The next access of a thread. \<^verbatim>\<open>top_\<close> and \<^verbatim>\<open>size_\<close> are \<^verbatim>\<open>std::atomic\<close>; a link is a plain \<^verbatim>\<open>uint32_t\<close> in the
  padding of a descriptor (\<^verbatim>\<open>next_of\<close>).
\<close>

datatype access = Atomic_top | Atomic_size | Plain_read u32 | Plain_write u32 | No_access

fun next_access :: "fs_thread \<Rightarrow> access" where
  "next_access TIdle = Atomic_top"
| "next_access (TPush i) = Atomic_top"
| "next_access (TPushLoaded i old v) = Plain_write i"
| "next_access (TPushLinked i old v) = Atomic_top"
| "next_access TPushed = Atomic_size"
| "next_access (TPopLoaded old v) = (if index_of old = kEmpty then No_access else Plain_read (index_of old))"
| "next_access (TPopNext old v nxt) = Atomic_top"
| "next_access (TPopped i) = Atomic_size"

text \<open>The link a thread is about to read or write.\<close>

definition link_access :: "fs_thread \<Rightarrow> u32 option" where
  "link_access th = (case next_access th of Plain_read i \<Rightarrow> Some i | Plain_write i \<Rightarrow> Some i | _ \<Rightarrow> None)"

text \<open>Two threads about to access the same plain location, one of them to write it: nothing orders the two.\<close>

definition data_race :: "fs_sys \<Rightarrow> bool" where
  "data_race s \<longleftrightarrow> (\<exists>t u th th' i. t \<noteq> u \<and> at s t th \<and> at s u th' \<and> next_access th = Plain_write i \<and>
     (next_access th' = Plain_read i \<or> next_access th' = Plain_write i))"

text \<open>Sequential consistency: a thread that has just loaded \<^verbatim>\<open>top_\<close> has its latest value.\<close>

fun load_pos :: "fs_thread \<Rightarrow> nat option" where
  "load_pos (TPushLoaded i old v) = Some v"
| "load_pos (TPopLoaded old v) = Some v"
| "load_pos th = None"

definition fs_sc :: "fs_sys \<Rightarrow> fs_sys \<Rightarrow> bool" where
  "fs_sc s s' \<longleftrightarrow> fs_cstep s s' \<and> (\<forall>t v. t < length (fc_threads s') \<longrightarrow> fc_threads s' ! t \<noteq> fc_threads s ! t \<longrightarrow>
     load_pos (fc_threads s' ! t) = Some v \<longrightarrow> Suc v = length (fc_hist s))"

inductive fs_reach :: "fs_sys \<Rightarrow> fs_sys \<Rightarrow> bool" for s0 where
  fs_reach_init: "fs_reach s0 s0"
| fs_reach_step: "fs_reach s0 s \<Longrightarrow> fs_cstep s s' \<Longrightarrow> timely s' \<Longrightarrow> fs_reach s0 s'"

section \<open>The invariant\<close>

text \<open>The buffer a thread is responsible for, and what it knows, by its position in the call.\<close>

fun owned :: "fs_thread \<Rightarrow> nat list" where
  "owned (TPush i) = [unat i]"
| "owned (TPushLoaded i old v) = [unat i]"
| "owned (TPushLinked i old v) = [unat i]"
| "owned (TPopped i) = [unat i]"
| "owned th = []"

fun thread_ok :: "buffer_descriptor list \<Rightarrow> u64 list \<Rightarrow> fs_thread \<Rightarrow> bool" where
  "thread_ok ds hist (TPushLoaded i old v) \<longleftrightarrow> v < length hist \<and> old = hist ! v"
| "thread_ok ds hist (TPushLinked i old v) \<longleftrightarrow>
     v < length hist \<and> old = hist ! v \<and> bd_next (ds ! unat i) = index_of old"
| "thread_ok ds hist (TPopLoaded old v) \<longleftrightarrow> v < length hist \<and> old = hist ! v"
| "thread_ok ds hist (TPopNext old v nxt) \<longleftrightarrow>
     v < length hist \<and> old = hist ! v \<and> index_of old \<noteq> kEmpty \<and>
     (Suc v = length hist \<longrightarrow> nxt = bd_next (ds ! unat (index_of old)))"
| "thread_ok ds hist th \<longleftrightarrow> True"

definition in_calls :: "fs_thread multiset \<Rightarrow> nat multiset" where
  "in_calls M = (\<Sum>th \<in># M. mset (owned th))"

fun size_due :: "fs_thread \<Rightarrow> u32" where
  "size_due TPushed = 1"
| "size_due (TPopped i) = -1"
| "size_due th = 0"

definition hist_ok :: "nat \<Rightarrow> u32 \<Rightarrow> u64 list \<Rightarrow> bool" where
  "hist_ok n g hist \<longleftrightarrow> hist \<noteq> [] \<and> (\<forall>v < length hist. gen_of (hist ! v) = g + of_nat v \<and>
     (index_of (hist ! v) \<noteq> kEmpty \<longrightarrow> unat (index_of (hist ! v)) < n))"

definition fs_inv :: "nat \<Rightarrow> u32 \<Rightarrow> fs_sys \<Rightarrow> nat list \<Rightarrow> bool" where
  "fs_inv n g s free \<longleftrightarrow> n < 2 ^ 32 \<and> length (fc_descs s) = n \<and> chain (fc_descs s) (index_of (fc_top s)) free \<and>
     mset free + mset (fc_held s) + in_calls (mset (fc_threads s)) = mset [0..<n] \<and>
     (\<forall>th \<in># mset (fc_threads s). thread_ok (fc_descs s) (fc_hist s) th) \<and>
     hist_ok n g (fc_hist s) \<and> fc_top s = last (fc_hist s) \<and>
     fc_size s + (\<Sum>th \<in># mset (fc_threads s). size_due th) = of_nat (length free)"

lemma in_calls_add [simp]: "in_calls (add_mset th M) = mset (owned th) + in_calls M"
  by (simp add: in_calls_def)

lemma at_split:
  assumes "at s t th"
  obtains R where "mset (fc_threads s) = add_mset th R" "\<And>x. mset ((fc_threads s)[t := x]) = add_mset x R"
proof
  let ?R = "mset (fc_threads s) - {#th#}"
  have t: "t < length (fc_threads s)" "fc_threads s ! t = th"
    using assms by (auto simp: at_def)
  then have "th \<in># mset (fc_threads s)" by auto
  then show "mset (fc_threads s) = add_mset th ?R" by simp
  show "mset ((fc_threads s)[t := x]) = add_mset x ?R" for x
    using t by (simp add: mset_update)
qed

lemma goto_sel [simp]:
  "fc_top (goto t th s) = fc_top s" "fc_size (goto t th s) = fc_size s" "fc_descs (goto t th s) = fc_descs s"
  "fc_hist (goto t th s) = fc_hist s" "fc_held (goto t th s) = fc_held s"
  "fc_threads (goto t th s) = (fc_threads s)[t := th]"
  by (simp_all add: goto_def)

lemma set_top_sel [simp]:
  "fc_top (set_top v s) = v" "fc_size (set_top v s) = fc_size s" "fc_descs (set_top v s) = fc_descs s"
  "fc_hist (set_top v s) = fc_hist s @ [v]" "fc_held (set_top v s) = fc_held s"
  "fc_threads (set_top v s) = fc_threads s"
  by (simp_all add: set_top_def)

lemma thread_ok_grow:
  assumes "thread_ok ds hist th"
  shows "thread_ok ds (hist @ [v]) th"
  using assms by (cases th) (auto simp: nth_append)

lemma thread_ok_link:
  assumes "thread_ok ds hist th" "unat i \<notin> set (owned th)"
    and "hist \<noteq> []" "index_of (last hist) \<noteq> kEmpty \<Longrightarrow> unat (index_of (last hist)) \<noteq> unat i"
  shows "thread_ok (ds[unat i := (ds ! unat i)\<lparr>bd_next := j\<rparr>]) hist th"
proof (cases th)
  case (TPopNext old v nxt)
  moreover have "Suc v = length hist \<Longrightarrow> hist ! v = last hist"
    using assms(3) by (metis diff_Suc_1 last_conv_nth)
  ultimately show ?thesis using assms by (auto simp: nth_list_update)
qed (use assms in \<open>auto simp: nth_list_update\<close>)

lemma hist_ok_snoc:
  assumes "hist_ok n g hist" "i \<noteq> kEmpty \<Longrightarrow> unat i < n"
  shows "hist_ok n g (hist @ [pack (gen_of (last hist) + 1) i])"
proof -
  have "gen_of (last hist) = g + of_nat (length hist - 1)" "hist \<noteq> []"
    using assms(1) by (auto simp: hist_ok_def last_conv_nth)
  moreover have "(of_nat (length hist) :: u32) = of_nat (length hist - 1) + 1" if "hist \<noteq> []"
    using that by (cases hist) simp_all
  ultimately have gen: "gen_of (last hist) + 1 = g + of_nat (length hist)"
    by (simp add: add.assoc)
  show ?thesis
    unfolding hist_ok_def
  proof (intro conjI allI impI)
    fix v assume "v < length (hist @ [pack (gen_of (last hist) + 1) i])"
    then have v: "v < length hist \<or> v = length hist" by auto
    then show "gen_of ((hist @ [pack (gen_of (last hist) + 1) i]) ! v) =
        g + of_nat v"
      by (elim disjE) (use assms(1) gen in \<open>auto simp: hist_ok_def nth_append\<close>)
    assume "index_of ((hist @ [pack (gen_of (last hist) + 1) i]) ! v) \<noteq> kEmpty"
    then show "unat (index_of ((hist @ [pack (gen_of (last hist) + 1) i]) ! v)) < n"
      using v assms by (auto simp: hist_ok_def nth_append)
  qed simp
qed

text \<open>A compare-and-swap that succeeds in time has loaded the current value.\<close>

lemma cas_current:
  assumes "hist_ok n g hist" "v < length hist" "hist ! v = last hist" "length hist \<le> v + 2 ^ 32"
  shows "Suc v = length hist"
proof -
  let ?c = "length hist - 1"
  have "gen_of (hist ! v) = g + of_nat v" "gen_of (hist ! ?c) = g + of_nat ?c"
    using assms(1,2) by (auto simp: hist_ok_def)
  moreover have "hist ! ?c = last hist"
    using assms(1) by (simp add: hist_ok_def last_conv_nth)
  ultimately have "(of_nat ?c :: u32) = of_nat v"
    using assms(3) by (metis add_left_cancel)
  then have "(of_nat (?c - v) :: u32) = 0"
    using of_nat_diff [of v ?c, where 'a = "32 word"] assms(2) by auto
  moreover have "?c - v < 2 ^ 32" using assms(2,4) by linarith
  ultimately have "?c - v = 0"
    using unat_of_nat_u32 [of "?c - v"] by simp
  then show ?thesis using assms(2) by linarith
qed

lemma fs_invD:
  assumes "fs_inv n g s free"
  shows "n < 2 ^ 32" "length (fc_descs s) = n" "chain (fc_descs s) (index_of (fc_top s)) free"
    and "mset free + mset (fc_held s) + in_calls (mset (fc_threads s)) = mset [0..<n]"
    and "th \<in># mset (fc_threads s) \<Longrightarrow> thread_ok (fc_descs s) (fc_hist s) th"
    and "hist_ok n g (fc_hist s)" "fc_top s = last (fc_hist s)"
    and "fc_size s + (\<Sum>th \<in># mset (fc_threads s). size_due th) = of_nat (length free)"
  using assms by (auto simp: fs_inv_def)

text \<open>Free, held and in a call: the buffers of a reachable state are these, each once.\<close>

lemma fs_inv_distinct:
  assumes "fs_inv n g s free" "mset (fc_threads s) = mset ths"
  shows "distinct (free @ fc_held s @ concat (map owned ths))"
    and "set (free @ fc_held s @ concat (map owned ths)) = {..<n}"
proof -
  have "in_calls (mset ths) = mset (concat (map owned ths))"
    by (induction ths) (simp_all add: in_calls_def)
  then have e: "mset (free @ fc_held s @ concat (map owned ths)) = mset [0..<n]"
    using fs_invD(4) [OF assms(1)] unfolding mset_append by (simp add: add.assoc assms(2))
  show "distinct (free @ fc_held s @ concat (map owned ths))"
    using mset_eq_imp_distinct_iff [OF e] by (metis distinct_upt)
  show "set (free @ fc_held s @ concat (map owned ths)) = {..<n}"
    using mset_eq_setD [OF e] by (simp only: set_upt atLeast0LessThan)
qed

lemma fs_inv_owned:
  assumes "fs_inv n g s free" "mset (fc_threads s) = add_mset th R" "x \<in> set (owned th)"
  shows "x < n" "x \<notin> set free" "x \<notin> set (fc_held s)" "th' \<in># R \<Longrightarrow> x \<notin> set (owned th')"
proof -
  obtain ths where ths: "R = mset ths" using ex_mset by metis
  have "distinct (free @ fc_held s @ concat (map owned (th # ths)))"
    "set (free @ fc_held s @ concat (map owned (th # ths))) = {..<n}"
    using fs_inv_distinct [OF assms(1), of "th # ths"] assms(2) ths by simp_all
  then show "x < n" "x \<notin> set free" "x \<notin> set (fc_held s)" "th' \<in># R \<Longrightarrow> x \<notin> set (owned th')"
    using assms(3) ths by auto
qed

lemma fs_inv_links:
  assumes "fs_inv n g s free" "th \<in> set (fc_threads s)" "link_access th = Some i"
  shows "unat i < length (fc_descs s)"
proof -
  obtain R where R: "mset (fc_threads s) = add_mset th R"
    using assms(2) by (metis multi_member_split set_mset_mset)
  note D = fs_invD [OF assms(1)] and own = fs_inv_owned [OF assms(1) R]
  have "thread_ok (fc_descs s) (fc_hist s) th" using D(5) assms(2) by simp
  then show ?thesis
    using assms(3) own(1) D(2,6) by (cases th) (auto simp: link_access_def hist_ok_def split: if_splits)
qed

section \<open>Every access keeps it\<close>

text \<open>A step that changes only the state of one thread.\<close>

lemma fs_inv_goto:
  assumes "fs_inv n g s free" "at s t th" "owned th' = owned th" "size_due th' = size_due th"
    and "thread_ok (fc_descs s) (fc_hist s) th'"
  shows "fs_inv n g (goto t th' s) free"
proof -
  obtain R where "mset (fc_threads s) = add_mset th R" "\<And>x. mset ((fc_threads s)[t := x]) = add_mset x R"
    using at_split [OF assms(2)] by metis
  then show ?thesis
    using fs_invD [OF assms(1)] assms(3-5) unfolding fs_inv_def by (simp del: mset_update)
qed

lemma thread_at:
  assumes "fs_inv n g s free" "at s t th"
  shows "thread_ok (fc_descs s) (fc_hist s) th"
  using fs_invD(5) [OF assms(1)] assms(2) by (auto simp: at_def)

lemma step_push_call:
  assumes "fs_inv n g s free" "at s t TIdle" "i \<in> set (fc_held s)"
  shows "fs_inv n g (goto t (TPush (of_nat i)) (s\<lparr>fc_held := remove1 i (fc_held s)\<rparr>)) free"
proof -
  obtain R where R: "mset (fc_threads s) = add_mset TIdle R" "\<And>x. mset ((fc_threads s)[t := x]) = add_mset x R"
    using at_split [OF assms(2)] by metis
  have "i < n" using fs_inv_distinct(2) [OF assms(1) refl] assms(3) by auto
  then have "unat (of_nat i :: u32) = i" using fs_invD(1) [OF assms(1)] by (intro unat_of_nat_u32) simp
  moreover obtain H where "mset (fc_held s) = add_mset i H"
    using assms(3) by (metis multi_member_split set_mset_mset)
  ultimately show ?thesis
    using fs_invD [OF assms(1)] R unfolding fs_inv_def by (simp del: mset_update)
qed

lemma step_push_link:
  assumes inv: "fs_inv n g s free" and at: "at s t (TPushLoaded i old v)"
  shows "fs_inv n g (goto t (TPushLinked i old v)
       (s\<lparr>fc_descs := (fc_descs s)[unat i := (fc_descs s ! unat i)\<lparr>bd_next := index_of old\<rparr>]\<rparr>)) free"
proof -
  let ?ds = "(fc_descs s)[unat i := (fc_descs s ! unat i)\<lparr>bd_next := index_of old\<rparr>]"
  obtain R where R: "mset (fc_threads s) = add_mset (TPushLoaded i old v) R"
    "\<And>x. mset ((fc_threads s)[t := x]) = add_mset x R"
    using at_split [OF at] by metis
  note own = fs_inv_owned [OF inv R(1), of "unat i", simplified] and D = fs_invD [OF inv]
  have chain: "chain ?ds (index_of (fc_top s)) free"
    using D(3) own(2) by (subst chain_cong [of _ "fc_descs s"]) (simp_all, metis nth_list_update_neq)
  have "thread_ok ?ds (fc_hist s) th" if "th \<in># R" for th
  proof (rule thread_ok_link)
    show "thread_ok (fc_descs s) (fc_hist s) th" using D(5) that R(1) by simp
    show "unat i \<notin> set (owned th)" using own(4) that by blast
    show "fc_hist s \<noteq> []" using D(6) by (simp add: hist_ok_def)
    show "unat (index_of (last (fc_hist s))) \<noteq> unat i" if "index_of (last (fc_hist s)) \<noteq> kEmpty"
      using D(3,7) own(2) that by (cases free) auto
  qed
  moreover have "thread_ok ?ds (fc_hist s) (TPushLinked i old v)"
    using thread_at [OF inv at] own(1) D(2) by simp
  ultimately show ?thesis
    using D R chain own(1) unfolding fs_inv_def by (simp del: mset_update)
qed

lemma step_push_cas:
  assumes inv: "fs_inv n g s free" and at: "at s t (TPushLinked i old v)" and cas: "fc_top s = old"
  shows "fs_inv n g (goto t TPushed (set_top (pack (gen_of old + 1) i) s)) (unat i # free)"
proof -
  obtain R where R: "mset (fc_threads s) = add_mset (TPushLinked i old v) R"
    "\<And>x. mset ((fc_threads s)[t := x]) = add_mset x R"
    using at_split [OF at] by metis
  note own = fs_inv_owned [OF inv R(1), of "unat i", simplified] and D = fs_invD [OF inv]
  have "i \<noteq> kEmpty" using own(1) D(1) unat_kEmpty by auto
  moreover have "bd_next (fc_descs s ! unat i) = index_of old" using thread_at [OF inv at] by simp
  moreover have "hist_ok n g (fc_hist s @ [pack (gen_of old + 1) i])"
    using hist_ok_snoc [OF D(6)] D(7) own(1) cas by metis
  moreover have "\<forall>th \<in># R. thread_ok (fc_descs s) (fc_hist s @ [x]) th" for x
    using D(5) R(1) by (simp add: thread_ok_grow)
  moreover have "fc_size s + (\<Sum>th \<in># R. size_due th) = of_nat (length free)"
    using D(8) R(1) by simp
  ultimately show ?thesis
    using D(1-4) R own(1) cas unfolding fs_inv_def by (simp del: mset_update add: ac_simps)
qed

lemma step_pop_cas:
  assumes inv: "fs_inv n g s free" and at: "at s t (TPopNext old v nxt)" and cas: "fc_top s = old"
    and time: "length (fc_hist s) \<le> v + 2 ^ 32"
  obtains free' where "free = unat (index_of old) # free'"
    "fs_inv n g (goto t (TPopped (index_of old)) (set_top (pack (gen_of old + 1) nxt) s)) free'"
proof -
  obtain R where R: "mset (fc_threads s) = add_mset (TPopNext old v nxt) R"
    "\<And>x. mset ((fc_threads s)[t := x]) = add_mset x R"
    using at_split [OF at] by metis
  note D = fs_invD [OF inv] and th = thread_at [OF inv at, simplified]
  have "Suc v = length (fc_hist s)"
    using cas_current [OF D(6)] th D(7) cas time by metis
  then have nxt: "nxt = bd_next (fc_descs s ! unat (index_of old))" using th by blast
  obtain free' where free: "free = unat (index_of old) # free'" "chain (fc_descs s) nxt free'"
    using D(3) th cas nxt by (cases free) auto
  have "hist_ok n g (fc_hist s @ [pack (gen_of old + 1) nxt])"
  proof (subst cas [symmetric], subst D(7), rule hist_ok_snoc [OF D(6)])
    show "unat nxt < n" if "nxt \<noteq> kEmpty" using free(2) D(2) that by (cases free') auto
  qed
  moreover have "\<forall>th \<in># R. thread_ok (fc_descs s) (fc_hist s @ [x]) th" for x
    using D(5) R(1) by (simp add: thread_ok_grow)
  moreover have "fc_size s + ((\<Sum>th \<in># R. size_due th) - 1) = of_nat (length free')"
    using D(8) R(1) free(1) by (simp add: add_diff_eq)
  ultimately have "fs_inv n g (goto t (TPopped (index_of old)) (set_top (pack (gen_of old + 1) nxt) s)) free'"
    using D(1,2,4) R free cas unfolding fs_inv_def by (simp del: mset_update add: ac_simps)
  with free(1) show thesis by (rule that)
qed

lemma step_done:
  assumes "fs_inv n g s free" "at s t th" "th = TPushed \<and> held = fc_held s \<and> k = 1 \<or>
      (\<exists>i. th = TPopped i \<and> held = unat i # fc_held s \<and> k = - 1)"
  shows "fs_inv n g (goto t TIdle (s\<lparr>fc_size := fc_size s + k, fc_held := held\<rparr>)) free"
proof -
  obtain R where R: "mset (fc_threads s) = add_mset th R" "\<And>x. mset ((fc_threads s)[t := x]) = add_mset x R"
    using at_split [OF assms(2)] by metis
  then show ?thesis
    using fs_invD [OF assms(1)] assms(3) unfolding fs_inv_def by (auto simp del: mset_update simp add: ac_simps)
qed

text \<open>What a step does to the free list: nothing, or it is the one place where a call takes effect.\<close>

definition fs_effect :: "fs_sys \<Rightarrow> fs_sys \<Rightarrow> nat list \<Rightarrow> nat list \<Rightarrow> bool" where
  "fs_effect s s' free free' \<longleftrightarrow> free' = free \<or>
     (\<exists>t i old v. at s t (TPushLinked i old v) \<and> at s' t TPushed \<and> free' = unat i # free) \<or>
     (\<exists>t i old v nxt. at s t (TPopNext old v nxt) \<and> at s' t (TPopped i) \<and> free = unat i # free')"

lemma at_goto: "at s t th \<Longrightarrow> fc_threads s' = fc_threads s \<Longrightarrow> at (goto t th' s') t th'"
  by (simp add: at_def)

lemma fs_inv_stutter: "fs_inv n g s' free \<Longrightarrow> \<exists>free'. fs_inv n g s' free' \<and> fs_effect s s' free free'"
  by (auto simp: fs_effect_def)

lemma fs_step_inv:
  assumes "fs_cstep s s'" "fs_inv n g s free" "timely s"
  shows "\<exists>free'. fs_inv n g s' free' \<and> fs_effect s s' free free'"
  using assms(1)
proof cases
  case (push_cas t i old v)
  then show ?thesis
    using step_push_cas [OF assms(2) push_cas(2,3)] at_goto [OF push_cas(2)]
    by (metis fs_effect_def set_top_sel(6))
next
  case (pop_cas t old v nxt)
  have "length (fc_hist s) \<le> v + 2 ^ 32"
    using assms(3) pop_cas(2) unfolding timely_def at_def by (metis loaded.simps(4) nth_mem)
  then show ?thesis
    using step_pop_cas [OF assms(2) pop_cas(2,3)] at_goto [OF pop_cas(2)] pop_cas(1,2)
    by (metis fs_effect_def set_top_sel(6))
next
  case (push_done t)
  then show ?thesis
    using step_done [OF assms(2) push_done(2), of "fc_held s" 1] by (auto simp: fs_effect_def)
next
  case (pop_done t i)
  then show ?thesis
    using step_done [OF assms(2) pop_done(2), of "unat i # fc_held s" "-1"] by (auto simp: fs_effect_def)
next
  case (push_call t i)
  then show ?thesis using step_push_call [OF assms(2) push_call(2,3)] by (auto simp: fs_effect_def)
next
  case (push_link t i old v)
  then show ?thesis using step_push_link [OF assms(2) push_link(2)] by (auto simp: fs_effect_def)
next
  case (push_load t i v)
  then show ?thesis
    by (simp only: push_load(1)) (rule fs_inv_stutter, rule fs_inv_goto [OF assms(2) push_load(2)]; simp)
next
  case (push_retry t i old v w)
  then show ?thesis
    by (simp only: push_retry(1)) (rule fs_inv_stutter, rule fs_inv_goto [OF assms(2) push_retry(2)]; simp)
next
  case (pop_load t v)
  then show ?thesis
    by (simp only: pop_load(1)) (rule fs_inv_stutter, rule fs_inv_goto [OF assms(2) pop_load(2)]; simp)
next
  case (pop_empty t old v)
  then show ?thesis
    by (simp only: pop_empty(1)) (rule fs_inv_stutter, rule fs_inv_goto [OF assms(2) pop_empty(2)]; simp)
next
  case (pop_next t old v)
  then show ?thesis using thread_at [OF assms(2) pop_next(2)]
    by (simp only: pop_next(1)) (rule fs_inv_stutter, rule fs_inv_goto [OF assms(2) pop_next(2)]; simp)
next
  case (pop_retry t old v nxt w)
  then show ?thesis
    by (simp only: pop_retry(1)) (rule fs_inv_stutter, rule fs_inv_goto [OF assms(2) pop_retry(2)]; simp)
qed

lemma fs_init_inv:
  assumes "pool_ok p" "mset (pool_free p) + mset held = mset [0..<length (bp_descs p)]"
  shows "fs_inv (length (bp_descs p)) (gen_of (fs_top (bp_stack p))) (fs_sys_init p held n) (pool_free p)"
proof -
  note ok = pool_okD [OF assms(1)]
  have "in_calls (replicate_mset n TIdle) = {#}" by (simp add: in_calls_def)
  moreover have "unat (index_of (fs_top (bp_stack p))) < length (bp_descs p)" if "index_of (fs_top (bp_stack p)) \<noteq> kEmpty"
    using ok(4) that by (cases "pool_free p") auto
  ultimately show ?thesis
    using ok assms(2) by (auto simp: fs_inv_def fs_sys_init_def hist_ok_def)
qed

lemma fs_reach_inv:
  assumes "fs_reach (fs_sys_init p held n) s" "pool_ok p" "mset (pool_free p) + mset held = mset [0..<length (bp_descs p)]"
  shows "timely s \<and> (\<exists>free. fs_inv (length (bp_descs p)) (gen_of (fs_top (bp_stack p))) s free)"
  using assms(1)
proof induction
  case fs_reach_init
  then show ?case using fs_init_inv [OF assms(2,3), of n] by (auto simp: timely_def fs_sys_init_def)
next
  case (fs_reach_step s s')
  then show ?case using fs_step_inv by blast
qed

section \<open>A thread that is not disturbed\<close>

text \<open>When the other threads pause, the accesses of a call add up to \<open>fs_pop\<close> and \<open>fs_push\<close>.\<close>

definition put_stack :: "free_stack \<Rightarrow> fs_sys \<Rightarrow> fs_sys" where
  "put_stack fs s = s\<lparr>fc_top := fs_top fs, fc_size := fs_size fs, fc_hist := fc_hist s @ [fs_top fs]\<rparr>"

definition get_stack :: "fs_sys \<Rightarrow> free_stack" where
  "get_stack s = \<lparr>fs_top = fc_top s, fs_size = fc_size s\<rparr>"

definition quiet_at :: "fs_sys \<Rightarrow> nat \<Rightarrow> bool" where
  "quiet_at s t \<longleftrightarrow> at s t TIdle \<and> fc_hist s \<noteq> [] \<and> last (fc_hist s) = fc_top s"

lemma fs_sc_goto:
  assumes "fs_cstep s (goto t th s1)" "fc_threads s1 = fc_threads s"
    and "load_pos th = None \<or> load_pos th = Some (length (fc_hist s) - 1) \<and> fc_hist s \<noteq> []"
  shows "fs_sc s (goto t th s1)"
proof -
  have "Suc v = length (fc_hist s)" if "u < length (fc_threads s)" "(fc_threads s)[t := th] ! u \<noteq> fc_threads s ! u"
    "load_pos ((fc_threads s)[t := th] ! u) = Some v" for u v
    using that assms(3) by (cases "u = t") auto
  then show ?thesis using assms(1,2) by (simp add: fs_sc_def)
qed

lemma fs_sc_steps: "fs_sc\<^sup>*\<^sup>* s s' \<Longrightarrow> fs_cstep\<^sup>*\<^sup>* s s'"
  by (erule rtranclp_mono [THEN predicate2D, rotated]) (auto simp: fs_sc_def)

lemma steps4: "R a b \<Longrightarrow> R b c \<Longrightarrow> R c d \<Longrightarrow> R d e \<Longrightarrow> R\<^sup>*\<^sup>* a e"
  by (meson converse_rtranclp_into_rtranclp rtranclp.rtrancl_refl)

lemma idle_again: "at s t TIdle \<Longrightarrow> (fc_threads s)[t := TIdle] = fc_threads s"
  by (metis at_def list_update_id)

lemma undisturbed_pop:
  assumes "quiet_at s t" "fs_pop (get_stack s) (fc_descs s) = Some (i, fs)" "i \<noteq> kEmpty"
  shows "fs_sc\<^sup>*\<^sup>* s (put_stack fs (s\<lparr>fc_held := unat i # fc_held s\<rparr>))"
proof -
  let ?v = "length (fc_hist s) - 1"
  let ?n = "bd_next (fc_descs s ! unat i)"
  have at: "at s t TIdle" and v: "?v < length (fc_hist s)" "fc_hist s ! ?v = fc_top s" and nonempty: "fc_hist s \<noteq> []"
    using assms(1) by (auto simp: quiet_at_def last_conv_nth)
  have i: "index_of (fc_top s) = i" and fs: "fs = \<lparr>fs_top = pack (gen_of (fc_top s) + 1) ?n, fs_size = fc_size s - 1\<rparr>"
    using assms(2,3) by (auto simp: fs_pop_def get_stack_def Let_def split: if_splits)
  let ?s1 = "goto t (TPopLoaded (fc_top s) ?v) s"
  let ?s2 = "goto t (TPopNext (fc_top s) ?v ?n) ?s1"
  let ?s3 = "goto t (TPopped i) (set_top (pack (gen_of (fc_top s) + 1) ?n) ?s2)"
  let ?s4 = "goto t TIdle (?s3\<lparr>fc_size := fc_size s - 1, fc_held := unat i # fc_held s\<rparr>)"
  have a: "at ?s1 t (TPopLoaded (fc_top s) ?v)" "at ?s2 t (TPopNext (fc_top s) ?v ?n)" "at ?s3 t (TPopped i)"
    using at by (simp_all add: at_def)
  have "fs_sc s ?s1" by (rule fs_sc_goto) (use fs_cstep.pop_load [OF at v(1)] v(2) nonempty in simp_all)
  moreover have "fs_sc ?s1 ?s2" by (rule fs_sc_goto) (use fs_cstep.pop_next [OF a(1)] assms(3) i nonempty in simp_all)
  moreover have "fs_sc ?s2 ?s3" by (rule fs_sc_goto) (use fs_cstep.pop_cas [OF a(2)] i nonempty in simp_all)
  moreover have "fs_sc ?s3 ?s4" by (rule fs_sc_goto) (use fs_cstep.pop_done [OF a(3)] nonempty in simp_all)
  ultimately have "fs_sc\<^sup>*\<^sup>* s ?s4" by (rule steps4)
  moreover have "?s4 = put_stack fs (s\<lparr>fc_held := unat i # fc_held s\<rparr>)"
    using idle_again [OF at] by (cases s) (simp add: put_stack_def goto_def set_top_def fs)
  ultimately show ?thesis by (simp only:)
qed

lemma undisturbed_push:
  assumes "quiet_at s t" "fs_push (get_stack s) (fc_descs s) (of_nat i) = Some (fs, ds)" "i \<in> set (fc_held s)"
  shows "fs_sc\<^sup>*\<^sup>* s (put_stack fs (s\<lparr>fc_held := remove1 i (fc_held s), fc_descs := ds\<rparr>))"
proof -
  let ?v = "length (fc_hist s) - 1"
  let ?i = "of_nat i :: u32"
  have at: "at s t TIdle" and v: "?v < length (fc_hist s)" "fc_hist s ! ?v = fc_top s" and nonempty: "fc_hist s \<noteq> []"
    using assms(1) by (auto simp: quiet_at_def last_conv_nth)
  have ds: "ds = (fc_descs s)[unat ?i := (fc_descs s ! unat ?i)\<lparr>bd_next := index_of (fc_top s)\<rparr>]"
    and fs: "fs = \<lparr>fs_top = pack (gen_of (fc_top s) + 1) ?i, fs_size = fc_size s + 1\<rparr>"
    using assms(2) by (auto simp: fs_push_def get_stack_def Let_def split: if_splits)
  let ?s1 = "goto t (TPush ?i) (s\<lparr>fc_held := remove1 i (fc_held s)\<rparr>)"
  let ?s2 = "goto t (TPushLoaded ?i (fc_top s) ?v) ?s1"
  let ?s3 = "goto t (TPushLinked ?i (fc_top s) ?v) (?s2\<lparr>fc_descs := ds\<rparr>)"
  let ?s4 = "goto t TPushed (set_top (pack (gen_of (fc_top s) + 1) ?i) ?s3)"
  let ?s5 = "goto t TIdle (?s4\<lparr>fc_size := fc_size s + 1\<rparr>)"
  have a: "at ?s1 t (TPush ?i)" "at ?s2 t (TPushLoaded ?i (fc_top s) ?v)" "at ?s3 t (TPushLinked ?i (fc_top s) ?v)"
    "at ?s4 t TPushed"
    using at by (simp_all add: at_def)
  have "fs_sc s ?s1" by (rule fs_sc_goto) (use fs_cstep.push_call [OF at assms(3)] in simp_all)
  moreover have "fs_sc ?s1 ?s2" by (rule fs_sc_goto) (use fs_cstep.push_load [OF a(1), of ?v] v nonempty in simp_all)
  moreover have "fs_sc ?s2 ?s3" by (rule fs_sc_goto) (use fs_cstep.push_link [OF a(2)] ds nonempty in simp_all)
  moreover have "fs_sc ?s3 ?s4" by (rule fs_sc_goto) (use fs_cstep.push_cas [OF a(3)] nonempty in simp_all)
  ultimately have "fs_sc\<^sup>*\<^sup>* s ?s4" by (rule steps4)
  moreover have "fs_sc ?s4 ?s5" by (rule fs_sc_goto) (use fs_cstep.push_done [OF a(4)] nonempty in simp_all)
  ultimately have "fs_sc\<^sup>*\<^sup>* s ?s5" by (rule rtranclp.rtrancl_into_rtrancl)
  moreover have "?s5 = put_stack fs (s\<lparr>fc_held := remove1 i (fc_held s), fc_descs := ds\<rparr>)"
    using idle_again [OF at] by (cases s) (simp add: put_stack_def goto_def set_top_def fs)
  ultimately show ?thesis by (simp only:)
qed

section \<open>A thread that is overtaken\<close>

lemma pack_gen_index: "pack (gen_of v) (index_of v) = v"
  by (rule bit_word_eqI) (auto simp: pack_def gen_of_def index_of_def bit_simps dest: bit_imp_le_length)

text \<open>
  Thread 0 has read the link of the top, the first value of \<^verbatim>\<open>top_\<close>; thread 1 is between two calls, and
  \<^verbatim>\<open>top_\<close> has had \<open>m\<close> values.
\<close>

definition stale :: "u64 \<Rightarrow> u32 \<Rightarrow> nat \<Rightarrow> buffer_descriptor list \<Rightarrow> nat list \<Rightarrow> fs_sys \<Rightarrow> u64 \<Rightarrow> bool" where
  "stale old nxt m ds held s w \<longleftrightarrow> at s 0 (TPopNext old 0 nxt) \<and> length (fc_hist s) = m \<and> quiet_at s 1 \<and>
     fc_descs s = ds \<and> fc_held s = held \<and> fc_top s = w"

lemma stale_pop:
  assumes "stale old nxt m ds held s (pack g i)" "unat i < length ds" "i \<noteq> kEmpty"
  shows "\<exists>s'. fs_sc\<^sup>*\<^sup>* s s' \<and> stale old nxt (Suc m) ds (unat i # held) s' (pack (g + 1) (bd_next (ds ! unat i)))"
proof -
  let ?fs = "\<lparr>fs_top = pack (g + 1) (bd_next (ds ! unat i)), fs_size = fc_size s - 1\<rparr>"
  have "fs_pop (get_stack s) (fc_descs s) = Some (i, ?fs)"
    using assms by (simp add: fs_pop_def get_stack_def stale_def Let_def)
  then have "fs_sc\<^sup>*\<^sup>* s (put_stack ?fs (s\<lparr>fc_held := unat i # fc_held s\<rparr>))"
    using undisturbed_pop [OF _ _ assms(3)] assms(1) unfolding stale_def by blast
  moreover have "stale old nxt (Suc m) ds (unat i # held) (put_stack ?fs (s\<lparr>fc_held := unat i # fc_held s\<rparr>))
      (pack (g + 1) (bd_next (ds ! unat i)))"
    using assms(1) by (simp add: stale_def quiet_at_def at_def put_stack_def)
  ultimately show ?thesis by blast
qed

lemma stale_push:
  assumes "stale old nxt m ds held s (pack g j)" "i < length ds" "i < 2 ^ 32" "i \<in> set held"
  shows "\<exists>s'. fs_sc\<^sup>*\<^sup>* s s' \<and>
    stale old nxt (Suc m) (ds[i := (ds ! i)\<lparr>bd_next := j\<rparr>]) (remove1 i held) s' (pack (g + 1) (of_nat i))"
proof -
  let ?fs = "\<lparr>fs_top = pack (g + 1) (of_nat i), fs_size = fc_size s + 1\<rparr>"
  let ?ds = "ds[i := (ds ! i)\<lparr>bd_next := j\<rparr>]"
  have "fs_push (get_stack s) (fc_descs s) (of_nat i) = Some (?fs, ?ds)"
    using assms unat_of_nat_u32 [of i] by (simp add: fs_push_def get_stack_def stale_def Let_def)
  then have "fs_sc\<^sup>*\<^sup>* s (put_stack ?fs (s\<lparr>fc_held := remove1 i (fc_held s), fc_descs := ?ds\<rparr>))"
    using undisturbed_push assms(1,4) unfolding stale_def by blast
  moreover have "stale old nxt (Suc m) ?ds (remove1 i held)
      (put_stack ?fs (s\<lparr>fc_held := remove1 i (fc_held s), fc_descs := ?ds\<rparr>)) (pack (g + 1) (of_nat i))"
    using assms(1) by (simp add: stale_def quiet_at_def at_def put_stack_def)
  ultimately show ?thesis by blast
qed

text \<open>Taking the top off and putting it back advances the generation by two.\<close>

lemma stale_spin:
  assumes "stale old nxt m ds held s (pack g (of_nat a))" "a < length ds" "a < 2 ^ 32 - 1"
  shows "\<exists>s'. fs_sc\<^sup>*\<^sup>* s s' \<and> stale old nxt (m + 2 * k) ds held s' (pack (g + of_nat (2 * k)) (of_nat a))"
proof (induction k)
  case 0
  then show ?case using assms(1) by auto
next
  case (Suc k)
  then obtain s1 where s1: "fs_sc\<^sup>*\<^sup>* s s1" "stale old nxt (m + 2 * k) ds held s1 (pack (g + of_nat (2 * k)) (of_nat a))"
    by blast
  have a: "unat (of_nat a :: u32) = a" "(of_nat a :: u32) \<noteq> kEmpty"
    using assms(3) by (auto intro!: unat_of_nat_u32 of_nat_not_kEmpty)
  let ?j = "bd_next (ds ! a)"
  obtain s2 where s2: "fs_sc\<^sup>*\<^sup>* s1 s2" "stale old nxt (Suc (m + 2 * k)) ds (a # held) s2 (pack (g + of_nat (2 * k) + 1) ?j)"
    using stale_pop [OF s1(2)] a assms(2) by auto
  obtain s3 where s3: "fs_sc\<^sup>*\<^sup>* s2 s3" "stale old nxt (Suc (Suc (m + 2 * k))) (ds[a := (ds ! a)\<lparr>bd_next := ?j\<rparr>]) held s3
      (pack (g + of_nat (2 * k) + 1 + 1) (of_nat a))"
    using stale_push [OF s2(2), of a] assms(2,3) by auto
  have "ds[a := (ds ! a)\<lparr>bd_next := ?j\<rparr>] = ds" by simp
  moreover have "g + of_nat (2 * k) + 1 + 1 = (g + of_nat (2 * Suc k) :: u32)" by simp
  moreover have "Suc (Suc (m + 2 * k)) = m + 2 * Suc k" by simp
  ultimately show ?case using s1(1) s2(1) s3 by (metis rtranclp_trans)
qed

lemma stale_start:
  assumes "pool_ok p" "pool_free p = a # b # rest"
  shows "\<exists>s. fs_sc\<^sup>*\<^sup>* (fs_sys_init p held 2) s \<and>
    stale (fs_top (bp_stack p)) (of_nat b) 1 (bp_descs p) held s (fs_top (bp_stack p))"
proof -
  let ?ds = "bp_descs p" and ?top = "fs_top (bp_stack p)" and ?s0 = "fs_sys_init p held 2"
  note ok = pool_okD [OF assms(1), unfolded assms(2)]
  have n: "index_of ?top \<noteq> kEmpty" "unat (index_of ?top) = a" "bd_next (?ds ! a) = of_nat b" using ok(4) by auto
  let ?s1 = "goto 0 (TPopLoaded ?top 0) ?s0"
  let ?s2 = "goto 0 (TPopNext ?top 0 (of_nat b)) ?s1"
  have a01: "at ?s0 0 TIdle" "at ?s1 0 (TPopLoaded ?top 0)" by (simp_all add: at_def fs_sys_init_def)
  have "fs_sc ?s0 ?s1"
    by (rule fs_sc_goto) (use fs_cstep.pop_load [OF a01(1), of 0] in \<open>simp_all add: fs_sys_init_def\<close>)
  moreover have "fs_sc ?s1 ?s2"
    by (rule fs_sc_goto) (use fs_cstep.pop_next [OF a01(2)] n in \<open>simp_all add: fs_sys_init_def\<close>)
  ultimately have "fs_sc\<^sup>*\<^sup>* ?s0 ?s2" by (rule converse_rtranclp_into_rtranclp [OF _ r_into_rtranclp])
  moreover have "stale ?top (of_nat b) 1 ?ds held ?s2 ?top"
    by (simp add: stale_def quiet_at_def at_def fs_sys_init_def)
  ultimately show ?thesis by blast
qed

text \<open>Thread 1 takes the three buffers on top and puts the first one back: four updates.\<close>

lemma stale_four:
  assumes "stale old nxt m ds held s (pack g (of_nat a))" "a < length ds" "b < length ds" "c < length ds" "a \<noteq> b" "a \<noteq> c"
    and "length ds < 2 ^ 32" "bd_next (ds ! a) = of_nat b" "bd_next (ds ! b) = of_nat c"
  shows "\<exists>s' ds'. fs_sc\<^sup>*\<^sup>* s s' \<and> length ds' = length ds \<and> bd_next (ds' ! b) = of_nat c \<and>
    stale old nxt (m + 4) ds' (c # b # held) s' (pack (g + 4) (of_nat a))"
proof -
  have w: "unat (of_nat a :: u32) = a" "unat (of_nat b :: u32) = b" "unat (of_nat c :: u32) = c"
    "(of_nat a :: u32) \<noteq> kEmpty" "(of_nat b :: u32) \<noteq> kEmpty" "(of_nat c :: u32) \<noteq> kEmpty"
    using assms(2-4,7) by (auto intro!: unat_of_nat_u32 of_nat_not_kEmpty)
  obtain s3 where s3: "fs_sc\<^sup>*\<^sup>* s s3" "stale old nxt (Suc m) ds (a # held) s3 (pack (g + 1) (of_nat b))"
    using stale_pop [OF assms(1)] w assms(2,8) by auto
  obtain s4 where s4: "fs_sc\<^sup>*\<^sup>* s3 s4" "stale old nxt (Suc (Suc m)) ds (b # a # held) s4 (pack (g + 1 + 1) (of_nat c))"
    using stale_pop [OF s3(2)] w assms(3,9) by auto
  obtain s5 j where s5: "fs_sc\<^sup>*\<^sup>* s4 s5" "stale old nxt (Suc (Suc (Suc m))) ds (c # b # a # held) s5 (pack (g + 1 + 1 + 1) j)"
    using stale_pop [OF s4(2)] w assms(4) by auto
  obtain s6 where s6: "fs_sc\<^sup>*\<^sup>* s5 s6" "stale old nxt (Suc (Suc (Suc (Suc m)))) (ds[a := (ds ! a)\<lparr>bd_next := j\<rparr>]) (c # b # held) s6
      (pack (g + 1 + 1 + 1 + 1) (of_nat a))"
    using stale_push [OF s5(2), of a] assms(2,5-7) by auto
  have "fs_sc\<^sup>*\<^sup>* s s6" using s3(1) s4(1) s5(1) s6(1) by (meson rtranclp_trans)
  then show ?thesis
    using s6(2) assms(5,9) by (intro exI [of _ s6] exI [of _ "ds[a := (ds ! a)\<lparr>bd_next := j\<rparr>]"]) (simp add: add.assoc numeral_eq_Suc)
qed

text \<open>After \<open>2 ^ 32\<close> updates the compare-and-swap of thread 0 succeeds, with the link it read at the start.\<close>

lemma stale_twice:
  assumes "stale old (of_nat b) m ds held s old" "b < length ds" "b \<in> set held" "length ds < 2 ^ 32"
  shows "\<exists>s1 s2. fs_sc s s1 \<and> at s1 0 (TPopped (index_of old)) \<and> fs_sc\<^sup>*\<^sup>* s1 s2 \<and> 2 \<le> count_list (fc_held s2) b"
proof -
  let ?g = "gen_of old"
  let ?s1 = "goto 0 (TPopped (index_of old)) (set_top (pack (?g + 1) (of_nat b)) s)"
  let ?fs = "\<lparr>fs_top = pack (?g + 1 + 1) (bd_next (ds ! b)), fs_size = fc_size s - 1\<rparr>"
  have "fs_cstep s ?s1" using assms(1) by (intro fs_cstep.pop_cas) (auto simp: stale_def)
  then have step: "fs_sc s ?s1" by (rule fs_sc_goto) simp_all
  have quiet: "quiet_at ?s1 1" using assms(1) by (simp add: stale_def quiet_at_def at_def)
  have b: "unat (of_nat b :: u32) = b" "(of_nat b :: u32) \<noteq> kEmpty"
    using assms(2,4) by (auto intro!: unat_of_nat_u32 of_nat_not_kEmpty)
  have pop: "fs_pop (get_stack ?s1) (fc_descs ?s1) = Some (of_nat b, ?fs)"
    using assms(1,2) b by (simp add: fs_pop_def get_stack_def stale_def Let_def)
  let ?s2 = "put_stack ?fs (?s1\<lparr>fc_held := unat (of_nat b :: u32) # fc_held ?s1\<rparr>)"
  have "1 \<le> count_list held b" using assms(3) by (metis count_list_0_iff less_one not_le)
  then have "2 \<le> count_list (fc_held ?s2) b" using assms(1) b(1) by (simp add: put_stack_def stale_def)
  moreover have "at ?s1 0 (TPopped (index_of old))" using assms(1) by (auto simp: stale_def at_def)
  ultimately show ?thesis using step undisturbed_pop [OF quiet pop b(2)] by blast
qed

text \<open>A run with fewer than \<open>2 ^ 32\<close> updates has no overtaken thread.\<close>

lemma fs_cstep_hist: "fs_cstep s s' \<Longrightarrow> length (fc_hist s) \<le> length (fc_hist s')"
  by (induction rule: fs_cstep.induct) simp_all

lemma short_run_reach:
  assumes "fs_cstep\<^sup>*\<^sup>* s0 s" "length (fc_hist s) \<le> 2 ^ 32"
  shows "fs_reach s0 s"
  using assms
proof (induction rule: rtranclp_induct)
  case (step s s')
  then have "timely s'" by (auto simp: timely_def)
  moreover have "fs_reach s0 s" using step fs_cstep_hist [OF step(2)] by auto
  ultimately show ?case using step(2) fs_reach.fs_reach_step by blast
qed (rule fs_reach.fs_reach_init)

lemma overtaken_twice:
  assumes "pool_ok p" "pool_free p = a # b # c # rest"
  shows "\<exists>old nxt s1 s2 s3 s4. fs_sc\<^sup>*\<^sup>* (fs_sys_init p held 2) s1 \<and> at s1 0 (TPopNext old 0 nxt) \<and> length (fc_hist s1) = 1 \<and>
    fs_sc\<^sup>*\<^sup>* s1 s2 \<and> at s2 0 (TPopNext old 0 nxt) \<and> length (fc_hist s2) = 1 + 2 ^ 32 \<and>
    fs_sc s2 s3 \<and> at s3 0 (TPopped (index_of old)) \<and> fs_sc\<^sup>*\<^sup>* s3 s4 \<and> 2 \<le> count_list (fc_held s4) b"
proof -
  let ?top = "fs_top (bp_stack p)" and ?ds = "bp_descs p"
  let ?g = "gen_of ?top"
  note ok = pool_okD [OF assms(1), unfolded assms(2)]
  have l: "a < length ?ds" "b < length ?ds" "c < length ?ds" "a \<noteq> b" "a \<noteq> c" "length ?ds < 2 ^ 32"
    and n: "index_of ?top = of_nat a" "bd_next (?ds ! a) = of_nat b" "bd_next (?ds ! b) = of_nat c"
    using ok(1,2,4,5) by auto
  have top: "pack ?g (of_nat a) = ?top" using pack_gen_index [of ?top] n(1) by simp
  obtain s1 where s1: "fs_sc\<^sup>*\<^sup>* (fs_sys_init p held 2) s1" "stale ?top (of_nat b) 1 ?ds held s1 (pack ?g (of_nat a))"
    unfolding top using stale_start [OF assms] by blast
  obtain s ds where s: "fs_sc\<^sup>*\<^sup>* s1 s" "length ds = length ?ds" "stale ?top (of_nat b) (1 + 4) ds (c # b # held) s (pack (?g + 4) (of_nat a))"
    using stale_four [OF s1(2) l n(2,3)] by blast
  have wrap: "?g + 4 + of_nat (2 * (2 ^ 31 - 2)) = ?g" "1 + 4 + 2 * (2 ^ 31 - 2) = (1 + 2 ^ 32 :: nat)" by simp_all
  obtain s2 where s2: "fs_sc\<^sup>*\<^sup>* s s2" "stale ?top (of_nat b) (1 + 2 ^ 32) ds (c # b # held) s2 ?top"
    using stale_spin [OF s(3), of "2 ^ 31 - 2"] l s(2) unfolding wrap top by auto
  obtain s3 s4 where s3: "fs_sc s2 s3" "at s3 0 (TPopped (index_of ?top))" "fs_sc\<^sup>*\<^sup>* s3 s4" "2 \<le> count_list (fc_held s4) b"
    using stale_twice [OF s2(2)] l s(2) by auto
  have "at s1 0 (TPopNext ?top 0 (of_nat b))" "length (fc_hist s1) = 1" "at s2 0 (TPopNext ?top 0 (of_nat b))"
    "length (fc_hist s2) = 1 + 2 ^ 32"
    using s1(2) s2(2) by (simp_all add: stale_def)
  moreover have "fs_sc\<^sup>*\<^sup>* s1 s2" using s(1) s2(1) by (rule rtranclp_trans)
  ultimately show ?thesis using s1(1) s3 by blast
qed

section \<open>Properties\<close>

text \<open>
  C4. The lock-free free list. Any number of threads take and return buffers of a fresh pool. In every
  interleaving in which no thread is overtaken by \<open>2 ^ 32\<close> updates of \<^verbatim>\<open>top_\<close> in the middle of a call: every
  buffer is in exactly one place, the free list, a caller's hands or a call; the size is that of the free
  list, but for the updates still due; no link outside the array is accessed; and each access either leaves
  the free list alone or is the compare-and-swap of a \<^verbatim>\<open>push\<close>, which puts its buffer on top, or of a
  \<^verbatim>\<open>pop\<close>, which takes the top buffer off.
\<close>

theorem free_list_concurrent:
  assumes "buffer_pool_new k os reg bsize cnt node = Some (Inr p, reg', os')" "unat cnt < 2 ^ 32"
    and "fs_reach (fs_sys_init p [] n) s"
  shows "\<exists>free. chain (fc_descs s) (index_of (fc_top s)) free \<and>
    mset free + mset (fc_held s) + in_calls (mset (fc_threads s)) = mset [0..<unat cnt] \<and>
    fc_size s + (\<Sum>th \<in># mset (fc_threads s). size_due th) = of_nat (length free) \<and>
    (\<forall>th \<in> set (fc_threads s). \<forall>i. link_access th = Some i \<longrightarrow> unat i < length (fc_descs s)) \<and>
    (\<forall>s'. fs_cstep s s' \<longrightarrow> timely s' \<longrightarrow>
       (\<exists>free'. chain (fc_descs s') (index_of (fc_top s')) free' \<and> fs_effect s s' free free'))"
proof -
  note new = buffer_pool_new_cases [OF assms(1,2)]
  have "pool_ok p" "pool_free p = rev [0..<unat cnt]"
    using new threaded_pool_ok [of p] assms(2) by auto
  then obtain free where inv: "fs_inv (unat cnt) (gen_of (fs_top (bp_stack p))) s free" and time: "timely s"
    using fs_reach_inv [OF assms(3)] new(2) by auto
  have "unat i < length (fc_descs s)" if "th \<in> set (fc_threads s)" "link_access th = Some i" for th i
    using that fs_inv_links [OF inv that(1)] by blast
  moreover have "\<exists>free'. chain (fc_descs s') (index_of (fc_top s')) free' \<and> fs_effect s s' free free'"
    if "fs_cstep s s'" for s'
    using fs_step_inv [OF that inv time] fs_invD(3) by blast
  ultimately show ?thesis using fs_invD(3,4,8) [OF inv] by blast
qed

text \<open>
  C31. The generation counter protects up to \<open>2 ^ 32\<close> updates and no further. As long as no thread is
  overtaken by \<open>2 ^ 32\<close> updates of \<^verbatim>\<open>top_\<close> between its load and its compare-and-swap, no buffer is in the hands of
  callers twice. But from a fresh pool of at least three buffers there is a sequentially consistent run of two threads
  in which thread 0 has read the link of the top when \<^verbatim>\<open>top_\<close> has had one value, is still there when it has had
  \<open>2 ^ 32\<close> more, and then succeeds in its compare-and-swap with the link it had read: afterwards one buffer
  is handed out a second time.
\<close>

theorem free_list_aba:
  assumes "buffer_pool_new k os reg bsize cnt node = Some (Inr p, reg', os')" "3 \<le> unat cnt" "unat cnt < 2 ^ 32"
  shows "(\<forall>n s. fs_reach (fs_sys_init p [] n) s \<longrightarrow> distinct (fc_held s)) \<and>
    (\<exists>old nxt s1 s2 s3 s4. fs_sc\<^sup>*\<^sup>* (fs_sys_init p [] 2) s1 \<and> at s1 0 (TPopNext old 0 nxt) \<and> length (fc_hist s1) = 1 \<and>
      fs_sc\<^sup>*\<^sup>* s1 s2 \<and> at s2 0 (TPopNext old 0 nxt) \<and> length (fc_hist s2) = 1 + 2 ^ 32 \<and>
      fs_sc s2 s3 \<and> at s3 0 (TPopped (index_of old)) \<and> fs_sc\<^sup>*\<^sup>* s3 s4 \<and> 2 \<le> count_list (fc_held s4) (unat cnt - 2))"
proof
  note new = buffer_pool_new_cases [OF assms(1,3)]
  have ok: "pool_ok p" "pool_free p = rev [0..<unat cnt]"
    using new threaded_pool_ok [of p] assms(3) by auto
  show "\<forall>n s. fs_reach (fs_sys_init p [] n) s \<longrightarrow> distinct (fc_held s)"
    using fs_reach_inv [OF _ ok(1)] ok(2) new(2) fs_inv_distinct(1) [OF _ refl] by fastforce
  have "unat cnt = Suc (Suc (Suc (unat cnt - 3)))" using assms(2) by linarith
  then obtain c where c: "unat cnt = Suc (Suc (Suc c))" by blast
  have "pool_free p = Suc (Suc c) # Suc c # c # rev [0..<c]" "unat cnt - 2 = Suc c" using c ok(2) by simp_all
  then show "\<exists>old nxt s1 s2 s3 s4. fs_sc\<^sup>*\<^sup>* (fs_sys_init p [] 2) s1 \<and> at s1 0 (TPopNext old 0 nxt) \<and> length (fc_hist s1) = 1 \<and>
      fs_sc\<^sup>*\<^sup>* s1 s2 \<and> at s2 0 (TPopNext old 0 nxt) \<and> length (fc_hist s2) = 1 + 2 ^ 32 \<and>
      fs_sc s2 s3 \<and> at s3 0 (TPopped (index_of old)) \<and> fs_sc\<^sup>*\<^sup>* s3 s4 \<and> 2 \<le> count_list (fc_held s4) (unat cnt - 2)"
    using overtaken_twice [OF ok(1)] by metis
qed

text \<open>
  C36. The links race. The links are plain memory, and there is a sequentially consistent run of two threads,
  with a single update of \<^verbatim>\<open>top_\<close>, to a state in which one thread is about to write the link of a buffer in \<^verbatim>\<open>push\<close> and
  the other about to read it in \<^verbatim>\<open>pop\<close>: two conflicting plain accesses with nothing between them, which C++ calls
  a data race, although the value read is then thrown away.
\<close>

theorem free_list_link_race:
  assumes "buffer_pool_new k os reg bsize cnt node = Some (Inr p, reg', os')" "cnt \<noteq> 0" "unat cnt < 2 ^ 32"
  shows "\<exists>s. fs_sc\<^sup>*\<^sup>* (fs_sys_init p [] 2) s \<and> length (fc_hist s) = 2 \<and> data_race s"
proof -
  note new = buffer_pool_new_cases [OF assms(1,3)]
  have ok: "pool_ok p" "pool_free p = rev [0..<unat cnt]"
    using new threaded_pool_ok [of p] assms(3) by auto
  let ?top = "fs_top (bp_stack p)" and ?s0 = "fs_sys_init p [] 2"
  define a where "a = unat cnt - 1"
  have "unat cnt = Suc a" using assms(2) by (simp add: a_def unat_gt_0)
  then have "pool_free p = a # rev [0..<a]" using ok(2) by simp
  then have top: "index_of ?top \<noteq> kEmpty" "unat (index_of ?top) = a" "a < length (bp_descs p)"
    using pool_okD(4) [OF ok(1)] by auto
  then have ia: "of_nat a = index_of ?top" by auto
  define fs where "fs = \<lparr>fs_top = pack (gen_of ?top + 1) (bd_next (bp_descs p ! a)), fs_size = fs_size (bp_stack p) - 1\<rparr>"
  define s1 where "s1 = goto 0 (TPopLoaded ?top 0) ?s0"
  define s2 where "s2 = put_stack fs (s1\<lparr>fc_held := unat (index_of ?top) # fc_held s1\<rparr>)"
  define s3 where "s3 = goto 1 (TPush (of_nat a)) (s2\<lparr>fc_held := remove1 a (fc_held s2)\<rparr>)"
  define s4 where "s4 = goto 1 (TPushLoaded (of_nat a) (fc_hist s3 ! 1) 1) s3"
  have at0: "at ?s0 0 TIdle" by (simp add: at_def fs_sys_init_def)
  have 1: "fs_sc ?s0 s1" unfolding s1_def
    by (rule fs_sc_goto) (use fs_cstep.pop_load [OF at0, of 0] in \<open>simp_all add: fs_sys_init_def\<close>)
  have "quiet_at s1 1" by (simp add: s1_def quiet_at_def at_def fs_sys_init_def)
  moreover have "fs_pop (get_stack s1) (fc_descs s1) = Some (index_of ?top, fs)"
    using top by (simp add: s1_def fs_def fs_pop_def get_stack_def fs_sys_init_def Let_def)
  ultimately have 2: "fs_sc\<^sup>*\<^sup>* s1 s2" unfolding s2_def using top(1) by (rule undisturbed_pop)
  have at2: "at s2 1 TIdle" "a \<in> set (fc_held s2)" "at s2 0 (TPopLoaded ?top 0)" "length (fc_hist s2) = 2"
    using top(2) by (simp_all add: s2_def s1_def at_def fs_sys_init_def put_stack_def)
  have 3: "fs_sc s2 s3" unfolding s3_def by (rule fs_sc_goto [OF fs_cstep.push_call [OF at2(1,2)]]) simp_all
  have at3: "at s3 1 (TPush (of_nat a))" "at s3 0 (TPopLoaded ?top 0)" "length (fc_hist s3) = 2" "fc_hist s3 \<noteq> []"
    using at2 by (auto simp: s3_def at_def)
  have 4: "fs_sc s3 s4" unfolding s4_def
    by (rule fs_sc_goto) (use fs_cstep.push_load [OF at3(1), of 1] at3(3,4) in simp_all)
  have "fs_sc\<^sup>*\<^sup>* ?s0 s4" using 1 2 3 4 by (meson converse_rtranclp_into_rtranclp rtranclp.rtrancl_into_rtrancl)
  moreover have "at s4 1 (TPushLoaded (of_nat a) (fc_hist s3 ! 1) 1)" "at s4 0 (TPopLoaded ?top 0)" "length (fc_hist s4) = 2"
    using at3 by (auto simp: s4_def at_def)
  then have "data_race s4 \<and> length (fc_hist s4) = 2"
    using top(1) unfolding data_race_def ia
    by (metis next_access.simps(3) next_access.simps(6) zero_neq_one)
  ultimately show ?thesis by blast
qed

text \<open>Witnesses, on the pool of two buffers and on one of three.\<close>

theorem free_list_concurrent_witness:
  "\<exists>s free. fs_reach (fs_sys_init tiny_pool [] 2) s \<and> fc_held s = [1] \<and>
    chain (fc_descs s) (index_of (fc_top s)) free \<and> mset free + mset (fc_held s) + in_calls (mset (fc_threads s)) = {#0, 1#}"
proof -
  obtain reg os where new: "buffer_pool_new bump_os 4096 [] 2 2 (-1) = Some (Inr tiny_pool, reg, os)"
    using tiny_pool_new by auto
  let ?s0 = "fs_sys_init tiny_pool [] 2"
  let ?fs = "\<lparr>fs_top = pack 3 0, fs_size = 1\<rparr>"
  have "quiet_at ?s0 0" by (simp add: quiet_at_def at_def fs_sys_init_def)
  moreover have "fs_pop (get_stack ?s0) (fc_descs ?s0) = Some (1, ?fs)"
    by (simp add: fs_pop_def get_stack_def fs_sys_init_def tiny_pool_def kEmpty_def)
  ultimately have "fs_sc\<^sup>*\<^sup>* ?s0 (put_stack ?fs (?s0\<lparr>fc_held := unat (1 :: u32) # fc_held ?s0\<rparr>))"
    by (rule undisturbed_pop) (simp add: kEmpty_def)
  then have "fs_reach ?s0 (put_stack ?fs (?s0\<lparr>fc_held := [1]\<rparr>))"
    by (intro short_run_reach fs_sc_steps) (simp_all add: fs_sys_init_def put_stack_def)
  from free_list_concurrent [OF new _ this] this show ?thesis
    by (fastforce simp: put_stack_def upt_0_2)
qed

theorem free_list_aba_witness:
  "\<exists>p reg os. buffer_pool_new bump_os 4096 [] 2048 3 (-1) = Some (Inr p, reg, os) \<and>
    (\<forall>n s. fs_reach (fs_sys_init p [] n) s \<longrightarrow> distinct (fc_held s)) \<and>
    (\<exists>s. fs_sc\<^sup>*\<^sup>* (fs_sys_init p [] 2) s \<and> 2 \<le> count_list (fc_held s) 1)"
proof -
  obtain p reg os where new: "buffer_pool_new bump_os 4096 [] 2048 3 (-1) = Some (Inr p, reg, os)"
    using bump_pool_new [of 2048 3] by auto
  have three: "unat (3 :: u64) - 2 = 1" by simp
  have twice: "(\<forall>n s. fs_reach (fs_sys_init p [] n) s \<longrightarrow> distinct (fc_held s)) \<and>
    (\<exists>old nxt s1 s2 s3 s4. fs_sc\<^sup>*\<^sup>* (fs_sys_init p [] 2) s1 \<and> at s1 0 (TPopNext old 0 nxt) \<and> length (fc_hist s1) = 1 \<and>
      fs_sc\<^sup>*\<^sup>* s1 s2 \<and> at s2 0 (TPopNext old 0 nxt) \<and> length (fc_hist s2) = 1 + 2 ^ 32 \<and>
      fs_sc s2 s3 \<and> at s3 0 (TPopped (index_of old)) \<and> fs_sc\<^sup>*\<^sup>* s3 s4 \<and> 2 \<le> count_list (fc_held s4) 1)"
    using free_list_aba [OF new] unfolding three by simp
  then have "\<exists>s. fs_sc\<^sup>*\<^sup>* (fs_sys_init p [] 2) s \<and> 2 \<le> count_list (fc_held s) 1"
    by (meson rtranclp_trans converse_rtranclp_into_rtranclp)
  then show ?thesis using new twice by blast
qed

theorem free_list_link_race_witness:
  "\<exists>s. fs_sc\<^sup>*\<^sup>* (fs_sys_init tiny_pool [] 2) s \<and> length (fc_hist s) = 2 \<and> data_race s"
proof -
  obtain reg os where new: "buffer_pool_new bump_os 4096 [] 2 2 (-1) = Some (Inr tiny_pool, reg, os)"
    using tiny_pool_new by auto
  from free_list_link_race [OF new] show ?thesis by simp
qed

end
