(* ===== verification/C_Text.thy ===== *)
theory C_Text
  imports Huge_Alloc
begin

text \<open>
  Numbers as text, as the sources read and print them: \<^verbatim>\<open>strtol\<close>, \<^verbatim>\<open>strtoull\<close> and \<^verbatim>\<open>atoi\<close>, the stream extraction
  of an \<^verbatim>\<open>int\<close>, and the formats \<^verbatim>\<open>%d\<close> and \<^verbatim>\<open>%x\<close>, on characters. The lemmas say that reading gives back what was
  printed.
\<close>

section \<open>Numbers as text\<close>

definition digit_val :: "char \<Rightarrow> nat" where
  "digit_val c =
     (let n = of_char c :: nat in
      if 48 \<le> n \<and> n \<le> 57 then n - 48 else if 97 \<le> n \<and> n \<le> 122 then n - 87
      else if 65 \<le> n \<and> n \<le> 90 then n - 55 else 99)"

definition base_digits :: "nat \<Rightarrow> string \<Rightarrow> string" where
  "base_digits b s = takeWhile (\<lambda>c. digit_val c < b) s"

definition base_val :: "nat \<Rightarrow> string \<Rightarrow> nat" where
  "base_val b ds = foldl (\<lambda>n c. b * n + digit_val c) 0 ds"

definition sign_rest :: "string \<Rightarrow> bool \<times> string" where
  "sign_rest s =
     (case dropWhile is_space s of
        [] \<Rightarrow> (False, [])
      | c # t \<Rightarrow> if c = CHR ''-'' then (True, t) else if c = CHR ''+'' then (False, t) else (False, c # t))"

text \<open>\<^verbatim>\<open>std::strtol(s, &end, 10)\<close>: the value, clamped to the range of \<^verbatim>\<open>long\<close>, and the rest of the text.\<close>

definition strtol :: "string \<Rightarrow> int \<times> string" where
  "strtol s =
     (case sign_rest s of (neg, t) \<Rightarrow>
        (let ds = base_digits 10 t; v = int (base_val 10 ds) in
         if ds = [] then (0, s)
         else (if neg then max (- (2 ^ 63)) (- v) else min (2 ^ 63 - 1) v, drop (length ds) t)))"

text \<open>
  \<^verbatim>\<open>std::atoi\<close> and \<^verbatim>\<open>std::atoll\<close> take the number at the start of a text; a value that does not fit an \<^verbatim>\<open>int\<close> is
  undefined.
\<close>

definition atoi :: "string \<Rightarrow> int option" where
  "atoi s = (let v = fst (strtol s) in if - (2 ^ 31) \<le> v \<and> v < 2 ^ 31 then Some v else None)"

definition atoll :: "string \<Rightarrow> int" where
  "atoll s = fst (strtol s)"

text \<open>\<^verbatim>\<open>std::strtoull(s, nullptr, 16)\<close>, with the optional prefix \<^verbatim>\<open>0x\<close>.\<close>

fun skip_0x :: "string \<Rightarrow> string" where
  "skip_0x (z # x # h # t) =
     (if z = CHR ''0'' \<and> (x = CHR ''x'' \<or> x = CHR ''X'') \<and> digit_val h < 16 then h # t else z # x # h # t)"
| "skip_0x t = t"

definition strtoull16 :: "string \<Rightarrow> u64" where
  "strtoull16 s =
     (case sign_rest s of (neg, t) \<Rightarrow>
        (let v = base_val 16 (base_digits 16 (skip_0x t)) in
         if 2 ^ 64 \<le> v then - 1 else if neg then - of_nat v else of_nat v))"

text \<open>\<^verbatim>\<open>stream >> int\<close>: \<open>None\<close> when there is no digit or the value does not fit.\<close>

definition ext_int :: "string \<Rightarrow> int option" where
  "ext_int s =
     (case sign_rest s of (neg, t) \<Rightarrow>
        (let ds = base_digits 10 t; v = (if neg then - int (base_val 10 ds) else int (base_val 10 ds)) in
         if ds = [] \<or> v < - (2 ^ 31) \<or> 2 ^ 31 \<le> v then None else Some v))"

definition digit_char :: "nat \<Rightarrow> char" where
  "digit_char d = char_of (if d < 10 then 48 + d else 87 + d)"

fun show_base :: "nat \<Rightarrow> nat \<Rightarrow> string" where
  "show_base b n = (if n < b \<or> b < 2 then [digit_char n] else show_base b (n div b) @ [digit_char (n mod b)])"

declare show_base.simps [simp del]

definition show_int :: "int \<Rightarrow> string" where
  "show_int i = (if i < 0 then CHR ''-'' # show_base 10 (nat (- i)) else show_base 10 (nat i))"

section \<open>Reading back what is printed\<close>

lemma digit_val_char [simp]: "d < 36 \<Longrightarrow> digit_val (digit_char d) = d"
  by (auto simp: digit_val_def digit_char_def Let_def of_char_of)

lemma show_base_induct [consumes 1, case_names digit step]:
  fixes b n :: nat
  assumes "2 \<le> b" "\<And>n. n < b \<Longrightarrow> P n" "\<And>n. b \<le> n \<Longrightarrow> P (n div b) \<Longrightarrow> P n"
  shows "P n"
proof (induction n rule: less_induct)
  case (less n)
  show ?case
  proof (cases "n < b")
    case False
    then have "n div b < n" using assms(1) by (intro div_less_dividend) auto
    then show ?thesis using less assms(3) False by simp
  qed (rule assms(2))
qed

lemma show_base_step:
  "2 \<le> b \<Longrightarrow> n < b \<Longrightarrow> show_base b n = [digit_char n]"
  "2 \<le> b \<Longrightarrow> b \<le> n \<Longrightarrow> show_base b n = show_base b (n div b) @ [digit_char (n mod b)]"
  by (subst show_base.simps; simp)+

lemma show_base_digits:
  assumes "2 \<le> b" "b \<le> 36"
  shows "\<forall>c \<in> set (show_base b n). digit_val c < b"
  using assms(1)
proof (induction n rule: show_base_induct)
  case (digit n)
  then show ?case using assms by (simp add: show_base_step)
next
  case (step n)
  moreover have "n mod b < b" using assms(1) by simp
  then have "n mod b < 36" using assms(2) by linarith
  note digit_val_char [OF this]
  ultimately show ?case using assms by (auto simp: show_base_step)
qed

lemma base_val_show:
  assumes "2 \<le> b" "b \<le> 36"
  shows "base_val b (show_base b n) = n"
  using assms(1)
proof (induction n rule: show_base_induct)
  case (digit n)
  then show ?case using assms by (simp add: show_base_step base_val_def)
next
  case (step n)
  moreover have "n mod b < b" using assms(1) by simp
  then have "n mod b < 36" using assms(2) by linarith
  note digit_val_char [OF this]
  ultimately show ?case using assms by (simp add: show_base_step base_val_def)
qed

lemma show_base_nonempty [simp]: "show_base b n \<noteq> []"
  by (subst show_base.simps) simp

lemma base_digits_show:
  assumes "2 \<le> b" "b \<le> 36" "rest = [] \<or> b \<le> digit_val (hd rest)"
  shows "base_digits b (show_base b n @ rest) = show_base b n"
proof -
  have "takeWhile (\<lambda>c. digit_val c < b) rest = []" using assms(3) by (cases rest) auto
  then show ?thesis
    using show_base_digits [OF assms(1,2)] by (simp add: base_digits_def takeWhile_append2)
qed

text \<open>A digit is neither white space nor a sign.\<close>

lemma digit_plain:
  assumes "digit_val c < 16"
  shows "\<not> is_space c" "c \<noteq> CHR ''-''" "c \<noteq> CHR ''+''" "c \<noteq> CHR ''x''" "c \<noteq> CHR ''X''" "c \<noteq> CHR ''N''" "c \<noteq> CHR 0x0A"
  using assms by (auto simp: digit_val_def is_space_def)

lemma sign_rest_digit:
  assumes "digit_val c < 16"
  shows "sign_rest (c # s) = (False, c # s)"
  using digit_plain [OF assms] by (simp add: sign_rest_def)

lemma sign_rest_show:
  assumes "2 \<le> b" "b \<le> 16"
  shows "sign_rest (show_base b n @ rest) = (False, show_base b n @ rest)"
proof (cases "show_base b n")
  case (Cons c cs)
  then have "digit_val c < 16" using show_base_digits [of b n] assms by fastforce
  then show ?thesis using Cons by (simp add: sign_rest_digit)
qed simp

lemma strtol_show:
  assumes "int n < 2 ^ 63" "rest = [] \<or> 10 \<le> digit_val (hd rest)"
  shows "strtol (show_base 10 n @ rest) = (int n, rest)"
  using assms base_digits_show [of 10 rest n] base_val_show [of 10 n]
  by (simp add: strtol_def sign_rest_show Let_def)

text \<open>Printing with leading zeros up to a width, as \<^verbatim>\<open>%08lx\<close> does.\<close>

definition show_padded :: "nat \<Rightarrow> nat \<Rightarrow> nat \<Rightarrow> string" where
  "show_padded b width n = replicate (width - length (show_base b n)) (CHR ''0'') @ show_base b n"

lemma show_padded_digits:
  assumes "2 \<le> b" "b \<le> 36"
  shows "\<forall>c \<in> set (show_padded b width n). digit_val c < b"
proof -
  have "digit_val CHR ''0'' = 0" by (simp add: digit_val_def)
  then show ?thesis using show_base_digits [OF assms] assms by (auto simp: show_padded_def)
qed

lemma base_val_padded:
  assumes "2 \<le> b" "b \<le> 36"
  shows "base_val b (show_padded b width n) = n"
proof -
  have "foldl (\<lambda>n c. b * n + digit_val c) 0 (replicate k (CHR ''0'')) = 0" for k
    by (induction k) (simp_all add: digit_val_def)
  then show ?thesis using base_val_show [OF assms] by (simp add: show_padded_def base_val_def)
qed

lemma strtoull16_padded:
  assumes "n < 2 ^ 64"
  shows "strtoull16 (show_padded 16 width n @ '' '' @ rest) = of_nat n"
proof -
  let ?s = "show_padded 16 width n"
  have digits: "\<forall>c \<in> set ?s. digit_val c < 16" using show_padded_digits [of 16] by simp
  have "digit_val (CHR '' '') = 99" by (simp add: digit_val_def)
  then have "base_digits 16 (?s @ '' '' @ rest) = ?s" using digits by (simp add: base_digits_def takeWhile_append2)
  moreover obtain z cs where zs: "?s = z # cs" by (cases ?s) (simp_all add: show_padded_def)
  then have "sign_rest (?s @ '' '' @ rest) = (False, ?s @ '' '' @ rest)" using digits by (simp add: sign_rest_digit)
  moreover have "skip_0x (?s @ '' '' @ rest) = ?s @ '' '' @ rest"
  proof -
    obtain x xs where xs: "cs @ '' '' @ rest = x # xs" "x \<in> set cs \<or> x = CHR '' ''" by (cases cs) auto
    then have "x \<noteq> CHR ''x''" "x \<noteq> CHR ''X''" using digits zs digit_plain(4,5) [of x] by auto
    then have "skip_0x (z # x # xs) = z # x # xs" by (cases xs) auto
    then show ?thesis using zs xs(1) by simp
  qed
  ultimately show ?thesis
    using assms base_val_padded [of 16 width n] by (simp add: strtoull16_def Let_def)
qed

lemma show_padded_plain: "CHR ''N'' \<notin> set (show_padded 16 width n)" "CHR 0x0A \<notin> set (show_padded 16 width n)"
  using show_padded_digits [of 16 width n] digit_plain(6,7) by auto

lemma show_base_plain:
  assumes "2 \<le> b" "b \<le> 16"
  shows "CHR ''N'' \<notin> set (show_base b n)" "CHR 0x0A \<notin> set (show_base b n)"
proof -
  have "digit_val c < 16" if "c \<in> set (show_base b n)" for c using show_base_digits [of b n] assms that by fastforce
  then show "CHR ''N'' \<notin> set (show_base b n)" "CHR 0x0A \<notin> set (show_base b n)" using digit_plain(6,7) by blast+
qed

lemma digit_val_punct [simp]: "digit_val CHR '' '' = 99" "digit_val CHR ''='' = 99"
  by (simp_all add: digit_val_def)

lemma atoi_show: "n < 2 ^ 31 \<Longrightarrow> atoi (show_base 10 n) = Some (int n)"
  using strtol_show [of n "[]"] by (simp add: atoi_def)

lemma show_base_inj:
  assumes "show_base 10 m = show_base 10 n"
  shows "m = n"
proof -
  have "base_val 10 (show_base 10 k) = k" for k by (rule base_val_show) simp_all
  from this [of m] this [of n] assms show ?thesis by metis
qed

end
