(* ===== verification/Numa_Topology.thy ===== *)
theory Numa_Topology
  imports Numa_Util C_Text
begin

text \<open>
  The readers of \<^verbatim>\<open>src/numa_util.cpp\<close> that take the machine's topology from the kernel's text files, and the
  program \<^verbatim>\<open>tools/numa_info.cpp\<close> that prints it. The files and directories are the parameter \<open>fs\<close>.
\<close>

section \<open>Nodes and processors\<close>

text \<open>\<open>nf_dir\<close>: the names \<^verbatim>\<open>readdir\<close> returns; \<open>nf_file\<close>: the contents of a file; \<open>nf_getcpu\<close>: the processor.\<close>

record node_fs =
  nf_dir :: "string \<Rightarrow> string list option"
  nf_file :: "string \<Rightarrow> string option"
  nf_getcpu :: "u32 option"

definition read_int_file :: "node_fs \<Rightarrow> string \<Rightarrow> int \<Rightarrow> int" where
  "read_int_file fs path fallback =
     (case nf_file fs path of
        None \<Rightarrow> fallback
      | Some s \<Rightarrow> (case ext_int s of None \<Rightarrow> fallback | Some v \<Rightarrow> v))"

definition is_node_name :: "string \<Rightarrow> bool" where
  "is_node_name s \<longleftrightarrow> take 4 s = ''node'' \<and> 4 < length s \<and> is_digit (s ! 4)"

definition numa_node_count :: "node_fs \<Rightarrow> nat" where
  "numa_node_count fs =
     (case nf_dir fs ''/sys/devices/system/node'' of
        None \<Rightarrow> 1
      | Some names \<Rightarrow>
          (let count = length (filter is_node_name names) in if 0 < count then count else 1))"

definition cpu_path :: "int \<Rightarrow> string" where
  "cpu_path cpu = take 127 (''/sys/devices/system/cpu/cpu'' @ show_int cpu @ ''/topology/physical_package_id'')"

definition cpu_to_node :: "node_fs \<Rightarrow> int \<Rightarrow> int" where
  "cpu_to_node fs cpu = read_int_file fs (cpu_path cpu) 0"

definition current_numa_node :: "node_fs \<Rightarrow> int" where
  "current_numa_node fs = (case nf_getcpu fs of None \<Rightarrow> 0 | Some cpu \<Rightarrow> cpu_to_node fs (sint cpu))"

section \<open>Where a mapping lives\<close>

text \<open>The lines \<^verbatim>\<open>std::getline\<close> delivers.\<close>

function file_lines :: "string \<Rightarrow> string list" where
  "file_lines s =
     (if s = [] then []
      else takeWhile (\<lambda>c. c \<noteq> CHR 0x0A) s # file_lines (drop 1 (dropWhile (\<lambda>c. c \<noteq> CHR 0x0A) s)))"
  by pat_completeness auto
termination
proof (relation "measure length", goal_cases)
  case (2 s)
  have "length (drop 1 (dropWhile (\<lambda>c. c \<noteq> CHR 0x0A) s)) \<le> length s - 1"
    using length_dropWhile_le [of "\<lambda>c. c \<noteq> CHR 0x0A" s] by simp
  then show ?case using 2 by (cases s) auto
qed simp

declare file_lines.simps [simp del]

text \<open>The line that starts at the greatest address not above \<^verbatim>\<open>target\<close>.\<close>

fun best_line :: "u64 \<Rightarrow> string list \<Rightarrow> (u64 \<times> string) option \<Rightarrow> (u64 \<times> string) option" where
  "best_line target [] best = best"
| "best_line target (l # ls) best =
     (let start = strtoull16 l in
      best_line target ls
        (if start \<le> target \<and> (case best of None \<Rightarrow> True | Some (b, _) \<Rightarrow> b < start)
         then Some (start, l) else best))"

text \<open>What the loop does with the text after an \<^verbatim>\<open>N\<close>: \<open>best\<close> holds \<^verbatim>\<open>best_pages\<close> and \<^verbatim>\<open>best_node\<close>.\<close>

definition node_entry :: "string \<Rightarrow> int \<times> int \<Rightarrow> int \<times> int" where
  "node_entry s best =
     (if s \<noteq> [] \<and> is_digit (hd s) then
        (case strtol s of (node, rest) \<Rightarrow>
           (if rest \<noteq> [] \<and> hd rest = CHR ''='' then
              (let pages = fst (strtol (tl rest)) in
               if fst best < pages then (pages, signed_take_bit 31 node) else best)
            else best))
      else best)"

fun node_scan :: "string \<Rightarrow> int \<times> int \<Rightarrow> int \<times> int" where
  "node_scan [] best = best"
| "node_scan (c # s) best = node_scan s (if c = CHR ''N'' then node_entry s best else best)"

definition verify_allocation_node :: "node_fs \<Rightarrow> u64 \<Rightarrow> int \<Rightarrow> bool" where
  "verify_allocation_node fs ptr expected_node =
     (case best_line ptr (case nf_file fs ''/proc/self/numa_maps'' of None \<Rightarrow> [] | Some s \<Rightarrow> file_lines s) None of
        None \<Rightarrow> False
      | Some (_, line) \<Rightarrow> snd (node_scan line (-1, -1)) = expected_node)"

section \<open>The program that prints the topology\<close>

definition read_line :: "node_fs \<Rightarrow> string \<Rightarrow> string" where
  "read_line fs path =
     (case nf_file fs path of None \<Rightarrow> [] | Some s \<Rightarrow> takeWhile (\<lambda>c. c \<noteq> CHR 0x0A) s)"

datatype info_line =
    Nodes nat
  | Current u32 int
  | Node nat string "(string \<times> string \<times> string) list"  \<comment> \<open>processors, huge pages: name, total, free\<close>
  | Cross_node_warning nat

definition node_dir :: "nat \<Rightarrow> string" where
  "node_dir n = ''/sys/devices/system/node/node'' @ show_base 10 n"

definition print_node_hugepages :: "node_fs \<Rightarrow> nat \<Rightarrow> (string \<times> string \<times> string) list" where
  "print_node_hugepages fs node =
     (let dir = take 127 (node_dir node @ ''/hugepages'') in
      case nf_dir fs dir of
        None \<Rightarrow> []
      | Some names \<Rightarrow>
          map (\<lambda>name. (name, read_line fs (dir @ ''/'' @ name @ ''/nr_hugepages''),
                              read_line fs (dir @ ''/'' @ name @ ''/free_hugepages'')))
            (filter (\<lambda>name. name = [] \<or> hd name \<noteq> CHR ''.'') names))"

definition numa_info :: "node_fs \<Rightarrow> info_line list" where
  "numa_info fs =
     (let nodes = numa_node_count fs in
      [Nodes nodes, Current (case nf_getcpu fs of None \<Rightarrow> 0 | Some cpu \<Rightarrow> cpu) (current_numa_node fs)] @
      map (\<lambda>n. let cpus = read_line fs (take 127 (node_dir n @ ''/cpulist'')) in
               Node n (if cpus = [] then ''(none)'' else cpus) (print_node_hugepages fs n)) [0..<nodes] @
      (if 1 < nodes then [Cross_node_warning nodes] else []))"

section \<open>The format of numa\_maps\<close>

text \<open>
  A line of \<^verbatim>\<open>/proc/self/numa_maps\<close>: the start address with at least eight digits, the policy and counters of the mapping, the pages per
  node, and the page size.
\<close>

record numa_map =
  nm_start :: nat
  nm_text :: string
  nm_pages :: "(nat \<times> nat) list"
  nm_tail :: string

definition page_entry :: "nat \<times> nat \<Rightarrow> string" where
  "page_entry e = '' N'' @ show_base 10 (fst e) @ ''='' @ show_base 10 (snd e)"

definition numa_line :: "numa_map \<Rightarrow> string" where
  "numa_line m = show_padded 16 8 (nm_start m) @ '' '' @ nm_text m @ concat (map page_entry (nm_pages m)) @ nm_tail m"

definition numa_map_ok :: "numa_map \<Rightarrow> bool" where
  "numa_map_ok m \<longleftrightarrow> nm_start m < 2 ^ 64 \<and> CHR ''N'' \<notin> set (nm_text m @ nm_tail m) \<and>
     CHR 0x0A \<notin> set (nm_text m @ nm_tail m) \<and> (nm_tail m = [] \<or> hd (nm_tail m) = CHR '' '') \<and>
     (\<forall>(n, q) \<in> set (nm_pages m). n < 2 ^ 31 \<and> q < 2 ^ 63)"

lemma node_scan_skip: "CHR ''N'' \<notin> set xs \<Longrightarrow> node_scan (xs @ ys) best = node_scan ys best"
  by (induction xs) auto

definition better :: "int \<times> int \<Rightarrow> nat \<times> nat \<Rightarrow> int \<times> int" where
  "better best e = (if fst best < int (snd e) then (int (snd e), int (fst e)) else best)"

lemma node_entry_page:
  assumes "n < 2 ^ 31" "q < 2 ^ 63" "rest = [] \<or> hd rest = CHR '' ''"
  shows "node_entry (show_base 10 n @ ''='' @ show_base 10 q @ rest) best = better best (n, q)"
proof -
  let ?s = "show_base 10 n @ ''='' @ show_base 10 q @ rest"
  have "strtol ?s = (int n, ''='' @ show_base 10 q @ rest)"
    using assms(1) by (intro strtol_show) simp_all
  moreover have "strtol (show_base 10 q @ rest) = (int q, rest)"
    using assms(2,3) by (intro strtol_show) auto
  moreover have "is_digit (hd ?s)"
  proof -
    obtain c cs where c: "show_base 10 n = c # cs" by (cases "show_base 10 n") simp_all
    then have "digit_val c < 10" using show_base_digits [of 10 n] by auto
    then have "is_digit c" by (auto simp: digit_val_def is_digit_def Let_def split: if_splits)
    then show ?thesis using c by simp
  qed
  moreover have "signed_take_bit 31 (int n) = int n"
    using assms(1) by (intro signed_take_bit_int_eq_self) simp_all
  ultimately show ?thesis by (simp add: node_entry_def better_def)
qed

lemma node_scan_pages:
  assumes "\<forall>(n, q) \<in> set es. n < 2 ^ 31 \<and> q < 2 ^ 63" "rest = [] \<or> hd rest = CHR '' ''"
  shows "node_scan (concat (map page_entry es) @ rest) best = node_scan rest (foldl better best es)"
  using assms(1)
proof (induction es arbitrary: best)
  case (Cons e es)
  obtain n q where e: "e = (n, q)" by (cases e)
  let ?r = "concat (map page_entry es) @ rest"
  have r: "?r = [] \<or> hd ?r = CHR '' ''" using assms(2) by (cases es) (auto simp: page_entry_def)
  have "node_scan (page_entry e @ ?r) best = node_scan (show_base 10 n @ ''='' @ show_base 10 q @ ?r) (better best e)"
    using node_entry_page [OF _ _ r, of n q] Cons.prems e by (simp add: page_entry_def)
  also have "\<dots> = node_scan ?r (better best e)"
    using show_base_plain [of 10] node_scan_skip [of "show_base 10 n @ ''='' @ show_base 10 q" ?r] by simp
  finally show ?case using Cons.IH [of "better best e"] Cons.prems by simp
qed simp

lemma node_scan_line:
  assumes "numa_map_ok m"
  shows "node_scan (numa_line m) best = foldl better best (nm_pages m)"
proof -
  have "CHR ''N'' \<notin> set (show_padded 16 8 (nm_start m) @ '' '' @ nm_text m)" "CHR ''N'' \<notin> set (nm_tail m)"
    using assms show_padded_plain by (auto simp: numa_map_ok_def)
  then show ?thesis
    using node_scan_skip [of "show_padded 16 8 (nm_start m) @ '' '' @ nm_text m"] node_scan_skip [of "nm_tail m" "[]"]
      node_scan_pages [of "nm_pages m" "nm_tail m"] assms
    by (simp add: numa_line_def numa_map_ok_def)
qed

lemma better_max:
  assumes "es = pre @ (n, q) # post" "\<forall>e \<in> set pre. snd e < q" "\<forall>e \<in> set post. snd e \<le> q" "fst best < 0"
  shows "foldl better best es = (int q, int n)"
proof -
  have "fst (foldl better best pre) < int q"
    using assms(2,4) by (induction pre arbitrary: best rule: rev_induct) (auto simp: better_def)
  moreover have "foldl better (int q, int n) post = (int q, int n)"
    using assms(3) by (induction post) (auto simp: better_def)
  ultimately show ?thesis using assms(1) by (simp add: better_def)
qed

lemma file_lines_concat:
  assumes "\<forall>l \<in> set ls. CHR 0x0A \<notin> set l"
  shows "file_lines (concat (map (\<lambda>l. l @ [CHR 0x0A]) ls)) = ls"
  using assms
proof (induction ls)
  case (Cons l ls)
  let ?r = "concat (map (\<lambda>l. l @ [CHR 0x0A]) ls)"
  have "\<forall>c \<in> set l. c \<noteq> CHR 0x0A" using Cons.prems by auto
  then have "takeWhile (\<lambda>c. c \<noteq> CHR 0x0A) (l @ CHR 0x0A # ?r) = l"
    "dropWhile (\<lambda>c. c \<noteq> CHR 0x0A) (l @ CHR 0x0A # ?r) = CHR 0x0A # ?r"
    by (simp_all add: takeWhile_append2 dropWhile_append2)
  then show ?case using Cons by (subst file_lines.simps) simp
qed (simp add: file_lines.simps)

lemma strtoull16_line: "numa_map_ok m \<Longrightarrow> strtoull16 (numa_line m) = of_nat (nm_start m)"
  using strtoull16_padded [of "nm_start m"] by (simp add: numa_line_def numa_map_ok_def)

lemma best_line_max:
  assumes "\<forall>m' \<in> set ms. numa_map_ok m' \<and> (nm_start m' \<le> unat ptr \<longrightarrow> m' = m \<or> nm_start m' < nm_start m)"
    and "numa_map_ok m" "nm_start m \<le> unat ptr"
    and "m \<in> set ms \<and> (\<forall>b l. best = Some (b, l) \<longrightarrow> unat b < nm_start m) \<or> best = Some (of_nat (nm_start m), numa_line m)"
  shows "best_line ptr (map numa_line ms) best = Some (of_nat (nm_start m), numa_line m)"
  using assms(1,4)
proof (induction ms arbitrary: best)
  case (Cons x ms)
  have start: "unat (of_nat (nm_start y) :: u64) = nm_start y" if "numa_map_ok y" for y
    using that by (intro unat_of_nat_u64) (simp add: numa_map_ok_def)
  define best' where "best' = (if strtoull16 (numa_line x) \<le> ptr \<and> (case best of None \<Rightarrow> True | Some (b, _) \<Rightarrow> b < strtoull16 (numa_line x))
     then Some (strtoull16 (numa_line x), numa_line x) else best)"
  have x: "numa_map_ok x" "nm_start x \<le> unat ptr \<Longrightarrow> x = m \<or> nm_start x < nm_start m" using Cons.prems(1) by auto
  have sx: "strtoull16 (numa_line x) = of_nat (nm_start x)" "unat (of_nat (nm_start x) :: u64) = nm_start x"
    "unat (of_nat (nm_start m) :: u64) = nm_start m"
    using strtoull16_line [OF x(1)] start [OF x(1)] start [OF assms(2)] by auto
  have "m \<in> set ms \<and> (\<forall>b l. best' = Some (b, l) \<longrightarrow> unat b < nm_start m) \<or> best' = Some (of_nat (nm_start m), numa_line m)"
    using Cons.prems(2) x(2) assms(3) sx unfolding best'_def
    by (auto simp: word_le_nat_alt word_less_nat_alt split: option.splits)
  then show ?case using Cons.IH [of best'] Cons.prems(1) by (simp add: best'_def Let_def)
qed simp

section \<open>Properties\<close>

text \<open>
  C23. \<^verbatim>\<open>verify_allocation_node\<close> reads the kernel's format. When \<^verbatim>\<open>numa_maps\<close> lists mappings whose other
  text has no capital N, the result tells whether the expected node is the one that holds most pages of the mapping
  that starts closest below the pointer, the first of them when several hold as many.
\<close>

theorem verify_node_decides:
  assumes "nf_file fs ''/proc/self/numa_maps'' = Some (concat (map (\<lambda>m. numa_line m @ [CHR 0x0A]) ms))"
    and "\<forall>m' \<in> set ms. numa_map_ok m' \<and> (nm_start m' \<le> unat ptr \<longrightarrow> m' = m \<or> nm_start m' < nm_start m)"
    and "m \<in> set ms" "nm_start m \<le> unat ptr" "nm_pages m = pre @ (n, q) # post"
    and "\<forall>e \<in> set pre. snd e < q" "\<forall>e \<in> set post. snd e \<le> q"
  shows "verify_allocation_node fs ptr node \<longleftrightarrow> node = int n"
proof -
  have ok: "numa_map_ok m" using assms(2,3) by blast
  have "\<forall>l \<in> set (map numa_line ms). CHR 0x0A \<notin> set l"
  proof
    fix l assume "l \<in> set (map numa_line ms)"
    then obtain m' where m': "m' \<in> set ms" "l = numa_line m'" by auto
    then have "numa_map_ok m'" using assms(2) by blast
    then show "CHR 0x0A \<notin> set l"
      using show_padded_plain(2) show_base_plain(2) [of 10]
      by (auto simp: m'(2) numa_line_def page_entry_def numa_map_ok_def)
  qed
  then have "file_lines (concat (map (\<lambda>m. numa_line m @ [CHR 0x0A]) ms)) = map numa_line ms"
    using file_lines_concat [of "map numa_line ms"] by (simp add: o_def)
  moreover have "best_line ptr (map numa_line ms) None = Some (of_nat (nm_start m), numa_line m)"
    using assms(3) by (intro best_line_max [OF assms(2) ok assms(4)]) simp
  moreover have "node_scan (numa_line m) (-1, -1) = (int q, int n)"
    using node_scan_line [OF ok] better_max [OF assms(5-7), of "(-1, -1)"] by simp
  ultimately show ?thesis using assms(1) by (auto simp: verify_allocation_node_def)
qed

definition sample_maps :: "numa_map list" where
  "sample_maps =
     [\<lparr>nm_start = 4096, nm_text = ''default anon=3'', nm_pages = [(0, 1), (1, 2)], nm_tail = '' kernelpagesize_kB=4''\<rparr>,
      \<lparr>nm_start = 65536, nm_text = ''default'', nm_pages = [(0, 9)], nm_tail = []\<rparr>]"

definition sample_fs :: node_fs where
  "sample_fs = \<lparr>nf_dir = (\<lambda>_. None),
     nf_file = (\<lambda>p. if p = ''/proc/self/numa_maps''
       then Some (concat (map (\<lambda>m. numa_line m @ [CHR 0x0A]) sample_maps)) else None), nf_getcpu = None\<rparr>"

theorem verify_node_decides_witness:
  "verify_allocation_node sample_fs 5000 1 \<and> \<not> verify_allocation_node sample_fs 5000 0"
proof -
  have "verify_allocation_node sample_fs 5000 node \<longleftrightarrow> node = int 1" for node
    by (rule verify_node_decides [of _ sample_maps _ "hd sample_maps" "[(0, 1)]" 1 2 "[]"])
      (auto simp: sample_fs_def sample_maps_def numa_map_ok_def)
  then show ?thesis by simp
qed

end
