(* ===== verification/Recv_Bitmap.thy ===== *)
theory Recv_Bitmap
  imports Prelude
begin

unbundle bit_operations_syntax

text \<open>
  The receive window of TCP-Lite, \<^verbatim>\<open>RecvBitmap\<close> of \<^verbatim>\<open>include/tcp_lite.h\<close> and \<^verbatim>\<open>src/tcp_lite.cpp\<close>. The
  \<^verbatim>\<open>std::bitset<256>\<close> is a 256-bit word; sequence numbers are 32-bit words that are compared by the
  sign of their difference. The specification works with unbounded sequence numbers: \<open>window_rel b k R\<close>
  says that \<open>b\<close> represents the set \<open>R\<close> of numbers received at or above the next expected one \<open>k\<close>.
\<close>

type_synonym u256 = "256 word"

definition TCP_LITE_WINDOW :: u32 where "TCP_LITE_WINDOW = 256"

record recv_bitmap =
  rb_received :: u256
  rb_base_seq :: u32

definition bitmap_init :: recv_bitmap where
  "bitmap_init = \<lparr>rb_received = 0, rb_base_seq = 0\<rparr>"

definition mark_received :: "recv_bitmap \<Rightarrow> u32 \<Rightarrow> bool \<times> recv_bitmap" where
  "mark_received b seq =
     (let off = sint (seq - rb_base_seq b) in
      if off < 0 then (False, b)
      else if off \<ge> sint TCP_LITE_WINDOW then (False, b)
      else if bit (rb_received b) (nat off) then (False, b)
      else (True, b\<lparr>rb_received := set_bit (nat off) (rb_received b)\<rparr>))"

text \<open>The counting loop of \<^verbatim>\<open>cumulative_ack\<close>.\<close>

function ack_loop :: "u256 \<Rightarrow> nat \<Rightarrow> nat" where
  "ack_loop r n = (if n < unat TCP_LITE_WINDOW \<and> bit r n then ack_loop r (n + 1) else n)"
  by pat_completeness auto
termination by (relation "measure (\<lambda>(r, n). unat TCP_LITE_WINDOW - n)") auto

declare ack_loop.simps [simp del]

definition cumulative_ack :: "recv_bitmap \<Rightarrow> u32" where
  "cumulative_ack b = rb_base_seq b + of_nat (ack_loop (rb_received b) 0)"

definition advance :: "recv_bitmap \<Rightarrow> u32 \<Rightarrow> recv_bitmap" where
  "advance b new_base =
     (let shift = new_base - rb_base_seq b in
      if shift = 0 then b
      else \<lparr>rb_received = (if shift \<ge> TCP_LITE_WINDOW then 0 else drop_bit (unat shift) (rb_received b)),
            rb_base_seq = new_base\<rparr>)"

definition has :: "recv_bitmap \<Rightarrow> u32 \<Rightarrow> bool" where
  "has b seq =
     (let off = sint (seq - rb_base_seq b) in
      if off < 0 \<or> off \<ge> sint TCP_LITE_WINDOW then False else bit (rb_received b) (nat off))"

section \<open>Sequence numbers\<close>

lemma sint_window: "sint TCP_LITE_WINDOW = 256" "unat TCP_LITE_WINDOW = 256"
  by (simp_all add: TCP_LITE_WINDOW_def)

text \<open>Two sequence numbers less than \<open>2 ^ 31\<close> apart.\<close>

definition near :: "nat \<Rightarrow> nat \<Rightarrow> bool" where
  "near i k \<longleftrightarrow> i < k + 2 ^ 31 \<and> k \<le> i + 2 ^ 31"

lemma near_refl [simp]: "near i i"
  by (simp add: near_def)

lemma near_small: "i < 2 ^ 31 \<Longrightarrow> k < 2 ^ 31 \<Longrightarrow> near i k"
  by (simp add: near_def)

lemma sint_diff: "near i k \<Longrightarrow> sint (of_nat i - of_nat k :: u32) = int i - int k"
proof -
  assume "near i k"
  then have "- (2 ^ 31) \<le> int i - int k" "int i - int k < 2 ^ 31"
    by (auto simp: near_def)
  then have "signed_take_bit 31 (int i - int k) = int i - int k"
    by (intro signed_take_bit_int_eq_self) auto
  moreover have "(of_nat i - of_nat k :: u32) = of_int (int i - int k)"
    by simp
  ultimately show ?thesis
    by (simp only: signed_of_int) simp
qed

section \<open>The window as a set of numbers\<close>

definition window_rel :: "recv_bitmap \<Rightarrow> nat \<Rightarrow> nat set \<Rightarrow> bool" where
  "window_rel b k R \<longleftrightarrow> rb_base_seq b = of_nat k \<and> R \<subseteq> {k..<k + 256} \<and>
     (\<forall>j < 256. bit (rb_received b) j \<longleftrightarrow> k + j \<in> R)"

lemma window_init: "window_rel bitmap_init 0 {}"
  by (simp add: window_rel_def bitmap_init_def)

lemma has_rel:
  assumes "window_rel b k R" "near i k"
  shows "has b (of_nat i) \<longleftrightarrow> i \<in> R"
proof -
  have off: "sint (of_nat i - rb_base_seq b) = int i - int k"
    using assms sint_diff by (simp add: window_rel_def)
  show ?thesis
  proof (cases "k \<le> i \<and> i < k + 256")
    case True
    then obtain j where "i = k + j" "j < 256" by (metis le_Suc_ex nat_add_left_cancel_less)
    then show ?thesis using off assms(1) by (auto simp: has_def sint_window window_rel_def)
  next
    case False
    then show ?thesis using off assms(1) by (auto simp: has_def sint_window window_rel_def)
  qed
qed

lemma mark_received_rel:
  assumes "window_rel b k R" "near i k" "mark_received b (of_nat i) = (r, b')"
  shows "r \<longleftrightarrow> i \<in> {k..<k + 256} - R" "window_rel b' k (if r then insert i R else R)"
proof -
  have off: "sint (of_nat i - rb_base_seq b) = int i - int k"
    using assms sint_diff by (simp add: window_rel_def)
  have "(r \<longleftrightarrow> i \<in> {k..<k + 256} - R) \<and> window_rel b' k (if r then insert i R else R)"
  proof (cases "k \<le> i \<and> i < k + 256")
    case True
    then obtain j where "i = k + j" "j < 256" by (metis le_Suc_ex nat_add_left_cancel_less)
    then show ?thesis
      using off assms(1,3)
      by (auto simp: mark_received_def sint_window window_rel_def bit_set_bit_iff split: if_splits)
  next
    case False
    then show ?thesis using off assms(1,3) by (auto simp: mark_received_def sint_window)
  qed
  then show "r \<longleftrightarrow> i \<in> {k..<k + 256} - R" "window_rel b' k (if r then insert i R else R)"
    by blast+
qed

lemma ack_loop_spec:
  "n \<le> 256 \<Longrightarrow> n \<le> ack_loop r n \<and> ack_loop r n \<le> 256 \<and> (\<forall>j. n \<le> j \<and> j < ack_loop r n \<longrightarrow> bit r j) \<and>
    (ack_loop r n < 256 \<longrightarrow> \<not> bit r (ack_loop r n))"
proof (induction r n rule: ack_loop.induct)
  case (1 r n)
  show ?case
  proof (cases "n < 256 \<and> bit r n")
    case True
    then have "ack_loop r n = ack_loop r (n + 1)"
      by (subst ack_loop.simps) (simp add: sint_window)
    moreover note IH = "1.IH" [simplified sint_window, OF True]
    moreover have "bit r j" if "n \<le> j" "j < ack_loop r (n + 1)" for j
      using that IH True by (cases "j = n") auto
    ultimately show ?thesis using True by auto
  next
    case False
    then have "ack_loop r n = n" by (subst ack_loop.simps) (auto simp: sint_window)
    then show ?thesis using 1 False by auto
  qed
qed

lemma cumulative_ack_rel:
  assumes "window_rel b k R"
  shows "\<exists>a. cumulative_ack b = of_nat a \<and> k \<le> a \<and> {k..<a} \<subseteq> R \<and> a \<notin> R"
proof -
  define n where "n = ack_loop (rb_received b) 0"
  have n: "n \<le> 256" "\<forall>j < n. bit (rb_received b) j" "n < 256 \<longrightarrow> \<not> bit (rb_received b) n"
    using ack_loop_spec [of 0 "rb_received b"] by (simp_all add: n_def)
  have "{k..<k + n} \<subseteq> R"
  proof
    fix i assume "i \<in> {k..<k + n}"
    then obtain j where "i = k + j" "j < n" by (metis atLeastLessThan_iff le_Suc_ex nat_add_left_cancel_less)
    then show "i \<in> R" using n assms by (simp add: window_rel_def)
  qed
  moreover have "k + n \<notin> R"
    using n assms by (cases "n < 256") (auto simp: window_rel_def)
  ultimately show ?thesis
    using assms by (intro exI [of _ "k + n"]) (simp add: cumulative_ack_def window_rel_def n_def)
qed

lemma advance_rel:
  assumes "window_rel b k R" "k \<le> m" "m < k + 2 ^ 32"
  shows "window_rel (advance b (of_nat m)) m (R \<inter> {m..})"
proof -
  obtain d where d: "m = k + d" "d < 2 ^ 32"
    using assms(2,3) by (metis le_Suc_ex nat_add_left_cancel_less)
  have shift: "of_nat m - rb_base_seq b = (of_nat d :: u32)" "unat (of_nat d :: u32) = d"
    using assms(1) d by (simp_all add: window_rel_def unat_of_nat_u32)
  show ?thesis
  proof (cases "d = 0")
    case True
    then show ?thesis using assms(1) d shift by (auto simp: advance_def window_rel_def)
  next
    case False
    then have "of_nat d \<noteq> (0 :: u32)" using shift(2) by auto
    moreover have "TCP_LITE_WINDOW \<le> of_nat d \<longleftrightarrow> 256 \<le> d"
      using shift(2) by (simp add: word_le_nat_alt sint_window)
    ultimately have adv: "advance b (of_nat m) =
        \<lparr>rb_received = (if 256 \<le> d then 0 else drop_bit d (rb_received b)), rb_base_seq = of_nat m\<rparr>"
      using shift by (simp add: advance_def Let_def)
    have "bit (if 256 \<le> d then 0 else drop_bit d (rb_received b)) j \<longleftrightarrow> k + (d + j) \<in> R" if "j < 256" for j
      using assms(1) that
      by (cases "d + j < 256") (auto simp: window_rel_def bit_drop_bit_eq dest: bit_imp_le_length)
    moreover have "R \<inter> {m..} \<subseteq> {m..<m + 256}"
      using assms(1) d(1) by (auto simp: window_rel_def)
    ultimately show ?thesis unfolding window_rel_def adv by (simp add: d(1) add.assoc)
  qed
qed

section \<open>The contract of a receive window\<close>

text \<open>
  What the session relies on: \<open>rel b k R\<close> relates a window to the next expected number \<open>k\<close> and the
  set \<open>R\<close> of numbers received ahead of it.
\<close>

locale seq_window =
  fixes mark :: "'b \<Rightarrow> u32 \<Rightarrow> bool \<times> 'b"
    and got :: "'b \<Rightarrow> u32 \<Rightarrow> bool"
    and cum :: "'b \<Rightarrow> u32"
    and adv :: "'b \<Rightarrow> u32 \<Rightarrow> 'b"
    and rel :: "'b \<Rightarrow> nat \<Rightarrow> nat set \<Rightarrow> bool"
  assumes rel_bound: "rel b k R \<Longrightarrow> R \<subseteq> {k..<k + 256}"
    and got_rel: "rel b k R \<Longrightarrow> near i k \<Longrightarrow> got b (of_nat i) \<longleftrightarrow> i \<in> R"
    and mark_rel: "rel b k R \<Longrightarrow> near i k \<Longrightarrow> mark b (of_nat i) = (r, b') \<Longrightarrow>
      (r \<longleftrightarrow> i \<in> {k..<k + 256} - R) \<and> rel b' k (if r then insert i R else R)"
    and cum_rel: "rel b k R \<Longrightarrow> \<exists>a. cum b = of_nat a \<and> k \<le> a \<and> {k..<a} \<subseteq> R \<and> a \<notin> R"
    and adv_rel: "rel b k R \<Longrightarrow> k \<le> m \<Longrightarrow> m < k + 2 ^ 32 \<Longrightarrow> rel (adv b (of_nat m)) m (R \<inter> {m..})"
begin

lemma got_base: "rel b k R \<Longrightarrow> got b (of_nat k) \<longleftrightarrow> k \<in> R"
  by (simp add: got_rel)

lemma adv_one:
  assumes "rel b k R"
  shows "rel (adv b (of_nat k + 1)) (Suc k) (R - {k})"
proof -
  have "R \<inter> {Suc k..} = R - {k}"
    using rel_bound [OF assms] by (auto simp: Suc_le_eq le_neq_implies_less)
  then show ?thesis
    using adv_rel [OF assms, of "Suc k"] by (simp add: add.commute)
qed

lemma cum_bound: "rel b k R \<Longrightarrow> R \<subseteq> {..<n} \<Longrightarrow> k \<le> n \<Longrightarrow> \<exists>a \<le> n. cum b = of_nat a \<and> k \<le> a \<and> {k..<a} \<subseteq> R"
proof -
  assume "rel b k R" "R \<subseteq> {..<n}" "k \<le> n"
  then obtain a where a: "cum b = of_nat a" "k \<le> a" "{k..<a} \<subseteq> R"
    using cum_rel by blast
  have "a \<le> n"
  proof (rule ccontr)
    assume "\<not> a \<le> n"
    then have "n \<in> {k..<a}" using \<open>k \<le> n\<close> by simp
    then show False using a \<open>R \<subseteq> {..<n}\<close> by auto
  qed
  then show ?thesis using a by auto
qed

end

interpretation bitmap: seq_window mark_received has cumulative_ack advance window_rel
proof
  show "R \<subseteq> {k..<k + 256}" if "window_rel b k R" for b k R
    using that by (simp add: window_rel_def)
  show "(r \<longleftrightarrow> i \<in> {k..<k + 256} - R) \<and> window_rel b' k (if r then insert i R else R)"
    if "window_rel b k R" "near i k" "mark_received b (of_nat i) = (r, b')" for b k R i r b'
    using mark_received_rel [OF that] by blast
qed (auto simp: has_rel cumulative_ack_rel advance_rel)

section \<open>Properties\<close>

text \<open>
  C14. The bitmap implements a set of sequence numbers. For a window that represents the set \<open>R\<close>
  received at or above the next expected number \<open>k\<close>, and a packet number \<open>i\<close> less than \<open>2 ^ 31\<close> away:
  \<open>has\<close> decides membership; \<open>mark_received\<close> returns true exactly for a number of the 256-packet window
  that is not yet in the set, and adds it; \<open>cumulative_ack\<close> is the smallest number from \<open>k\<close> on that is
  missing; and \<open>advance\<close> drops what lies below the new base.
\<close>

theorem bitmap_is_set:
  assumes "window_rel b k R" "near i k"
  shows "(has b (of_nat i) \<longleftrightarrow> i \<in> R) \<and>
    (fst (mark_received b (of_nat i)) \<longleftrightarrow> i \<in> {k..<k + 256} - R) \<and>
    window_rel (snd (mark_received b (of_nat i))) k (R \<union> ({i} \<inter> {k..<k + 256})) \<and>
    cumulative_ack b = of_nat (LEAST n. k \<le> n \<and> n \<notin> R) \<and>
    (k \<le> i \<longrightarrow> window_rel (advance b (of_nat i)) i (R \<inter> {i..}))"
proof -
  obtain r b' where m: "mark_received b (of_nat i) = (r, b')" by fastforce
  note mark = bitmap.mark_rel [OF assms m]
  obtain a where a: "cumulative_ack b = of_nat a" "k \<le> a" "{k..<a} \<subseteq> R" "a \<notin> R"
    using bitmap.cum_rel [OF assms(1)] by blast
  have "(LEAST n. k \<le> n \<and> n \<notin> R) = a"
  proof (rule Least_equality)
    fix n assume "k \<le> n \<and> n \<notin> R"
    then show "a \<le> n" using a(3) by (meson atLeastLessThan_iff not_less subsetD)
  qed (use a in simp)
  moreover have "(if r then insert i R else R) = R \<union> ({i} \<inter> {k..<k + 256})"
    using mark by auto
  then have "window_rel b' k (R \<union> ({i} \<inter> {k..<k + 256}))"
    using mark by metis
  moreover have "k \<le> i \<longrightarrow> window_rel (advance b (of_nat i)) i (R \<inter> {i..})"
    using bitmap.adv_rel [OF assms(1)] assms(2) by (simp add: near_def)
  ultimately show ?thesis
    using bitmap.got_rel [OF assms] mark m a(1) by auto
qed

theorem bitmap_is_set_witness:
  "fst (mark_received bitmap_init (of_nat 5)) \<and>
   window_rel (snd (mark_received bitmap_init (of_nat 5))) 0 {5}"
  using bitmap_is_set [OF window_init, of 5] by (simp add: near_def)

end
