(* ===== verification/Unacked_Queue.thy ===== *)
theory Unacked_Queue
  imports Buffer_Pool Recv_Bitmap
begin

unbundle bit_operations_syntax

text \<open>
  The send window of TCP-Lite, \<^verbatim>\<open>UnackedQueue\<close> of \<^verbatim>\<open>include/tcp_lite.h\<close> and \<^verbatim>\<open>src/tcp_lite.cpp\<close>: 256 slots
  indexed by \<^verbatim>\<open>seq & 255\<close>, each holding the buffer of a packet that has been sent and not yet
  acknowledged. The pool the queue holds by reference is passed in and returned. \<open>None\<close> is a
  \<^verbatim>\<open>release\<close> of a null pointer or one that the pool refuses.
\<close>

record uq_slot =
  sl_buf :: "nat option"
  sl_sent_tsc :: u64
  sl_seq :: u32
  sl_occupied :: bool

type_synonym unacked_queue = "uq_slot list"

definition uq_init :: unacked_queue where
  "uq_init = replicate 256 \<lparr>sl_buf = None, sl_sent_tsc = 0, sl_seq = 0, sl_occupied = False\<rparr>"

definition slot_of :: "u32 \<Rightarrow> nat" where
  "slot_of seq = unat (seq AND (TCP_LITE_WINDOW - 1))"

definition mark_sent ::
  "buffer_pool \<Rightarrow> unacked_queue \<Rightarrow> u32 \<Rightarrow> nat \<Rightarrow> u64 \<Rightarrow> (buffer_pool \<times> unacked_queue) option" where
  "mark_sent p q seq buf sent_tsc =
     (let s = q ! slot_of seq;
          p1 = (case (sl_occupied s, sl_buf s) of (True, Some b) \<Rightarrow> release p b | _ \<Rightarrow> Some p)
      in case p1 of
           None \<Rightarrow> None
         | Some p' \<Rightarrow> Some (p', q[slot_of seq :=
             \<lparr>sl_buf = Some buf, sl_sent_tsc = sent_tsc, sl_seq = seq, sl_occupied = True\<rparr>]))"

text \<open>The loop of \<^verbatim>\<open>mark_acked\<close>; the accumulator is \<^verbatim>\<open>newest_tsc\<close>, \<^verbatim>\<open>newest_seq\<close>, \<^verbatim>\<open>any\<close>.\<close>

fun acked_loop ::
  "buffer_pool \<Rightarrow> u32 \<Rightarrow> u64 \<times> u32 \<times> bool \<Rightarrow> uq_slot list
    \<Rightarrow> (buffer_pool \<times> (u64 \<times> u32 \<times> bool) \<times> uq_slot list) option" where
  "acked_loop p up acc [] = Some (p, acc, [])"
| "acked_loop p up (newest_tsc, newest_seq, any) (s # ss) =
     (if sl_occupied s \<and> sint (sl_seq s - up) < 0 then
        (let acc = (if \<not> any \<or> sint (sl_seq s - newest_seq) > 0 then (sl_sent_tsc s, sl_seq s, True)
                    else (newest_tsc, newest_seq, any))
         in case sl_buf s of
              None \<Rightarrow> None
            | Some b \<Rightarrow>
                (case release p b of
                   None \<Rightarrow> None
                 | Some p1 \<Rightarrow>
                     (case acked_loop p1 up acc ss of
                        None \<Rightarrow> None
                      | Some (p', acc', ss') \<Rightarrow> Some (p', acc', s\<lparr>sl_buf := None, sl_occupied := False\<rparr> # ss'))))
      else (case acked_loop p up (newest_tsc, newest_seq, any) ss of
              None \<Rightarrow> None
            | Some (p', acc', ss') \<Rightarrow> Some (p', acc', s # ss')))"

definition mark_acked ::
  "buffer_pool \<Rightarrow> unacked_queue \<Rightarrow> u32 \<Rightarrow> (u64 \<times> buffer_pool \<times> unacked_queue) option" where
  "mark_acked p q up_to_seq =
     (case acked_loop p up_to_seq (0, 0, False) q of
        None \<Rightarrow> None
      | Some (p', (newest_tsc, _, any), q') \<Rightarrow> Some (if any then newest_tsc else 0, p', q'))"

definition check_timeouts :: "unacked_queue \<Rightarrow> u64 \<Rightarrow> u64 \<Rightarrow> u32 list" where
  "check_timeouts q now_tsc timeout_tsc =
     map sl_seq (filter (\<lambda>s. sl_occupied s \<and> now_tsc - sl_sent_tsc s \<ge> timeout_tsc) q)"

definition occupied :: "unacked_queue \<Rightarrow> u32 \<Rightarrow> bool" where
  "occupied q seq \<longleftrightarrow> sl_occupied (q ! slot_of seq) \<and> sl_seq (q ! slot_of seq) = seq"

definition buffer_for :: "unacked_queue \<Rightarrow> u32 \<Rightarrow> nat option" where
  "buffer_for q seq =
     (let s = q ! slot_of seq in if sl_occupied s \<and> sl_seq s = seq then sl_buf s else None)"

definition touch :: "unacked_queue \<Rightarrow> u32 \<Rightarrow> u64 \<Rightarrow> unacked_queue" where
  "touch q seq now_tsc =
     (let s = q ! slot_of seq in
      if sl_occupied s \<and> sl_seq s = seq then q[slot_of seq := s\<lparr>sl_sent_tsc := now_tsc\<rparr>] else q)"

fun release_all :: "buffer_pool \<Rightarrow> uq_slot list \<Rightarrow> (buffer_pool \<times> uq_slot list) option" where
  "release_all p [] = Some (p, [])"
| "release_all p (s # ss) =
     (case (case (sl_occupied s, sl_buf s) of (True, Some b) \<Rightarrow> release p b | _ \<Rightarrow> Some p) of
        None \<Rightarrow> None
      | Some p1 \<Rightarrow>
          (case release_all p1 ss of
             None \<Rightarrow> None
           | Some (p', ss') \<Rightarrow> Some (p', s\<lparr>sl_buf := None, sl_occupied := False\<rparr> # ss')))"

section \<open>Slots and sequence numbers\<close>

lemma slot_of_nat: "slot_of (of_nat i) = i mod 256"
proof -
  have "slot_of (of_nat i) = unat (of_nat i :: u32) mod 2 ^ 8"
    unfolding slot_of_def using unat_and_mask_power [of "of_nat i :: u32" 8] by (simp add: TCP_LITE_WINDOW_def)
  also have "\<dots> = i mod 256"
    by (simp add: unsigned_of_nat take_bit_eq_mod mod_mod_cancel)
  finally show ?thesis .
qed

lemma mod_window_inj:
  "i mod 256 = k mod (256 :: nat) \<Longrightarrow> i < k + 256 \<Longrightarrow> k < i + 256 \<Longrightarrow> i = k"
proof -
  have aux: "i = k" if h: "i mod 256 = k mod (256 :: nat)" "i \<le> k" "k < i + 256" for i k
  proof -
    have "256 dvd k - i" using h(1,2) by (metis mod_eq_dvd_iff_nat)
    then obtain q where "k - i = 256 * q" by (rule dvdE)
    then show ?thesis using h(2,3) by (cases q) auto
  qed
  show "i mod 256 = k mod 256 \<Longrightarrow> i < k + 256 \<Longrightarrow> k < i + 256 \<Longrightarrow> i = k"
    using aux [of i k] aux [of k i] by (cases "i \<le> k") auto
qed

text \<open>The packets \<open>u\<close> to \<open>n - 1\<close> are unacknowledged, and packet \<open>i\<close> is in buffer \<open>bf i\<close>.\<close>

definition uq_rel :: "unacked_queue \<Rightarrow> nat \<Rightarrow> nat \<Rightarrow> (nat \<Rightarrow> nat) \<Rightarrow> bool" where
  "uq_rel q u n bf \<longleftrightarrow> length q = 256 \<and> u \<le> n \<and> n \<le> u + 256 \<and>
     (\<forall>i. u \<le> i \<and> i < n \<longrightarrow> sl_occupied (q ! (i mod 256)) \<and> sl_seq (q ! (i mod 256)) = of_nat i \<and>
        sl_buf (q ! (i mod 256)) = Some (bf i)) \<and>
     (\<forall>j < 256. sl_occupied (q ! j) \<longrightarrow> (\<exists>i. u \<le> i \<and> i < n \<and> i mod 256 = j))"

lemma uq_init_rel: "uq_rel uq_init 0 0 bf"
  by (simp add: uq_rel_def uq_init_def)

lemma mark_sent_rel:
  assumes "uq_rel q u n bf" "n < u + 256"
  shows "\<exists>q'. mark_sent p q (of_nat n) b t = Some (p, q') \<and> uq_rel q' u (Suc n) (bf(n := b))"
proof -
  let ?s = "\<lparr>sl_buf = Some b, sl_sent_tsc = t, sl_seq = of_nat n, sl_occupied = True\<rparr>"
  let ?q = "q[n mod 256 := ?s]"
  have fresh: "i mod 256 \<noteq> n mod 256" if "u \<le> i" "i < n" for i
    using that assms(2) mod_window_inj [of i n] by auto
  moreover have "n mod 256 < 256" by simp
  ultimately have "\<not> sl_occupied (q ! (n mod 256))"
    using assms(1) unfolding uq_rel_def by blast
  then have "mark_sent p q (of_nat n) b t = Some (p, ?q)"
    by (simp add: mark_sent_def slot_of_nat Let_def)
  moreover have "sl_occupied (?q ! (i mod 256)) \<and> sl_seq (?q ! (i mod 256)) = of_nat i \<and>
      sl_buf (?q ! (i mod 256)) = Some ((bf(n := b)) i)" if "u \<le> i" "i < Suc n" for i
    using assms(1) fresh [of i] that by (cases "i = n") (auto simp: uq_rel_def nth_list_update)
  moreover have "\<exists>i. u \<le> i \<and> i < Suc n \<and> i mod 256 = j" if "j < 256" "sl_occupied (?q ! j)" for j
  proof (cases "j = n mod 256")
    case True
    then show ?thesis using assms(1) by (intro exI [of _ n]) (simp add: uq_rel_def)
  next
    case False
    then have "\<exists>i. u \<le> i \<and> i < n \<and> i mod 256 = j"
      using assms(1) that by (auto simp: uq_rel_def)
    then show ?thesis by (blast intro: less_SucI)
  qed
  ultimately show ?thesis
    using assms by (intro exI [of _ ?q]) (simp add: uq_rel_def)
qed

section \<open>Releasing buffers\<close>

text \<open>The pool after some operations: still well formed, and only the buffers of \<open>S\<close> have changed.\<close>

definition pool_keeps :: "buffer_pool \<Rightarrow> buffer_pool \<Rightarrow> nat set \<Rightarrow> bool" where
  "pool_keeps p p' S \<longleftrightarrow> pool_ok p' \<and> length (bp_descs p') = length (bp_descs p) \<and>
     bp_buffer_size p' = bp_buffer_size p \<and> (\<forall>j. j \<notin> S \<longrightarrow> bp_descs p' ! j = bp_descs p ! j)"

lemma pool_keeps_refl: "pool_ok p \<Longrightarrow> pool_keeps p p S"
  by (simp add: pool_keeps_def)

lemma pool_keeps_trans: "pool_keeps p p1 S \<Longrightarrow> pool_keeps p1 p2 T \<Longrightarrow> pool_keeps p p2 (S \<union> T)"
  by (simp add: pool_keeps_def)

lemma pool_keeps_mono: "pool_keeps p p' S \<Longrightarrow> S \<subseteq> T \<Longrightarrow> pool_keeps p p' T"
  by (auto simp: pool_keeps_def)

lemma release_keeps:
  assumes "pool_ok p" "b < length (bp_descs p)" "b \<notin> set (pool_free p)"
  shows "\<exists>p'. release p b = Some p' \<and> pool_keeps p p' {b} \<and> pool_free p' = b # pool_free p"
  using release_held [OF assms] by (auto simp: pool_keeps_def)

definition victim :: "u32 \<Rightarrow> uq_slot \<Rightarrow> bool" where
  "victim up s \<longleftrightarrow> sl_occupied s \<and> sint (sl_seq s - up) < 0"

definition victims :: "u32 \<Rightarrow> uq_slot list \<Rightarrow> nat list" where
  "victims up ss = map (the \<circ> sl_buf) (filter (victim up) ss)"

definition freed_slot :: "uq_slot \<Rightarrow> uq_slot" where
  "freed_slot s = s\<lparr>sl_buf := None, sl_occupied := False\<rparr>"

definition held :: "buffer_pool \<Rightarrow> nat \<Rightarrow> bool" where
  "held p b \<longleftrightarrow> b < length (bp_descs p) \<and> b \<notin> set (pool_free p)"

lemma acked_loop_frees:
  assumes "pool_ok p" "\<forall>s \<in> set ss. victim up s \<longrightarrow> sl_buf s \<noteq> None"
    and "distinct (victims up ss)" "\<forall>b \<in> set (victims up ss). held p b"
  shows "\<exists>p' acc'. acked_loop p up acc ss =
      Some (p', acc', map (\<lambda>s. if victim up s then freed_slot s else s) ss) \<and>
    pool_keeps p p' (set (victims up ss)) \<and> pool_free p' = rev (victims up ss) @ pool_free p"
  using assms
proof (induction ss arbitrary: p acc)
  case Nil
  then show ?case by (cases acc) (simp add: victims_def pool_keeps_refl)
next
  case (Cons s ss)
  obtain nt ns any where acc: "acc = (nt, ns, any)" by (metis prod_cases3)
  show ?case
  proof (cases "victim up s")
    case True
    obtain b where b: "sl_buf s = Some b" using Cons.prems(2) True by auto
    have vs: "victims up (s # ss) = b # victims up ss" using True b by (simp add: victims_def)
    obtain p1 where p1: "release p b = Some p1" "pool_keeps p p1 {b}" "pool_free p1 = b # pool_free p"
      using release_keeps [OF Cons.prems(1)] Cons.prems(4) vs by (auto simp: held_def)
    have "\<forall>c \<in> set (victims up ss). held p1 c"
      using Cons.prems(3,4) vs p1 by (auto simp: held_def pool_keeps_def)
    moreover have "pool_ok p1" "distinct (victims up ss)" "\<forall>s \<in> set ss. victim up s \<longrightarrow> sl_buf s \<noteq> None"
      using p1(2) Cons.prems(2,3) vs by (auto simp: pool_keeps_def)
    ultimately obtain p' acc' where loop: "acked_loop p1 up (if \<not> any \<or> sint (sl_seq s - ns) > 0
          then (sl_sent_tsc s, sl_seq s, True) else (nt, ns, any)) ss =
        Some (p', acc', map (\<lambda>s. if victim up s then freed_slot s else s) ss)"
        "pool_keeps p1 p' (set (victims up ss))" "pool_free p' = rev (victims up ss) @ pool_free p1"
      using Cons.IH [of p1 "if \<not> any \<or> sint (sl_seq s - ns) > 0
          then (sl_sent_tsc s, sl_seq s, True) else (nt, ns, any)"] by blast
    have "pool_keeps p p' (set (victims up (s # ss)))"
      using pool_keeps_trans [OF p1(2) loop(2)] vs by simp
    then show ?thesis
      using True b p1 loop(1,3) vs by (cases acc') (simp add: acc victim_def freed_slot_def Let_def)
  next
    case False
    then have "victims up (s # ss) = victims up ss" by (simp add: victims_def)
    then show ?thesis
      using Cons.IH [of p acc] Cons.prems False by (auto simp: acc victim_def)
  qed
qed

lemma nth_freed: "j < length q \<Longrightarrow>
    map (\<lambda>s. if victim up s then freed_slot s else s) q ! j = (if victim up (q ! j) then freed_slot (q ! j) else q ! j)"
  by simp

lemma victim_iff:
  assumes "uq_rel q u n bf" "u \<le> i" "i < n" "u \<le> a" "a \<le> n"
  shows "victim (of_nat a) (q ! (i mod 256)) \<longleftrightarrow> i < a"
proof -
  have "near i a" using assms by (auto simp: near_def uq_rel_def)
  then have "sint (of_nat i - of_nat a :: u32) = int i - int a" by (rule sint_diff)
  then show ?thesis using assms(1,2,3) by (auto simp: victim_def uq_rel_def)
qed

lemma occupied_packet:
  assumes "uq_rel q u n bf" "j < 256" "sl_occupied (q ! j)"
  shows "\<exists>i. u \<le> i \<and> i < n \<and> i mod 256 = j \<and> sl_seq (q ! j) = of_nat i \<and> sl_buf (q ! j) = Some (bf i)"
proof -
  obtain i where "u \<le> i" "i < n" "i mod 256 = j"
    using assms unfolding uq_rel_def by blast
  then show ?thesis
    using assms(1) unfolding uq_rel_def by blast
qed

lemma victims_nth: "victims up q = map (\<lambda>j. the (sl_buf (q ! j))) (filter (\<lambda>j. victim up (q ! j)) [0..<length q])"
proof -
  have "filter (victim up) q = filter (victim up) (map ((!) q) [0..<length q])"
    by (simp add: map_nth)
  also have "\<dots> = map ((!) q) (filter (\<lambda>j. victim up (q ! j)) [0..<length q])"
    by (simp add: filter_map comp_def)
  finally show ?thesis by (simp add: victims_def comp_def)
qed

lemma victims_rel:
  assumes "uq_rel q u n bf" "u \<le> a" "a \<le> n" "inj_on bf {u..<n}"
  shows "distinct (victims (of_nat a) q)" "set (victims (of_nat a) q) = bf ` {u..<a}"
proof -
  have len: "length q = 256" using assms(1) by (simp add: uq_rel_def)
  have vic: "\<exists>i. u \<le> i \<and> i < a \<and> i mod 256 = j \<and> sl_buf (q ! j) = Some (bf i)"
    if "j < 256" "victim (of_nat a) (q ! j)" for j
    using occupied_packet [OF assms(1) that(1)] victim_iff [OF assms(1) _ _ assms(2,3)] that(2)
    by (metis victim_def)
  have inj: "inj_on (\<lambda>j. the (sl_buf (q ! j))) {j. j < 256 \<and> victim (of_nat a) (q ! j)}"
  proof (rule inj_onI, clarify)
    fix j k
    assume jk: "j < 256" "victim (of_nat a) (q ! j)" "k < 256" "victim (of_nat a) (q ! k)"
      "the (sl_buf (q ! j)) = the (sl_buf (q ! k))"
    obtain i where i: "u \<le> i" "i < a" "i mod 256 = j" "sl_buf (q ! j) = Some (bf i)"
      using vic [OF jk(1,2)] by blast
    obtain i' where i': "u \<le> i'" "i' < a" "i' mod 256 = k" "sl_buf (q ! k) = Some (bf i')"
      using vic [OF jk(3,4)] by blast
    have "bf i = bf i'" using jk(5) i(4) i'(4) by simp
    then have "i = i'" using assms(3,4) i i' by (auto dest: inj_onD)
    then show "j = k" using i(3) i'(3) by simp
  qed
  then show "distinct (victims (of_nat a) q)"
    unfolding victims_nth by (subst distinct_map) (simp add: len)
  show "set (victims (of_nat a) q) = bf ` {u..<a}"
  proof
    show "set (victims (of_nat a) q) \<subseteq> bf ` {u..<a}"
      using vic len by (force simp: victims_nth)
    show "bf ` {u..<a} \<subseteq> set (victims (of_nat a) q)"
    proof clarify
      fix i assume "i \<in> {u..<a}"
      then have "victim (of_nat a) (q ! (i mod 256))" "sl_buf (q ! (i mod 256)) = Some (bf i)"
        using victim_iff [OF assms(1) _ _ assms(2,3), of i] assms by (auto simp: uq_rel_def)
      then show "bf i \<in> set (victims (of_nat a) q)"
        using len by (auto simp: victims_nth intro!: image_eqI [of _ _ "i mod 256"])
    qed
  qed
qed

lemma mark_acked_rel:
  assumes "uq_rel q u n bf" "pool_ok p" "u \<le> a" "a \<le> n" "inj_on bf {u..<n}" "\<forall>i \<in> {u..<n}. held p (bf i)"
  shows "\<exists>t p' q'. mark_acked p q (of_nat a) = Some (t, p', q') \<and> uq_rel q' a n bf \<and>
    pool_keeps p p' (bf ` {u..<a}) \<and> set (pool_free p') = bf ` {u..<a} \<union> set (pool_free p) \<and>
    length (pool_free p') = (a - u) + length (pool_free p)"
proof -
  note vs = victims_rel [OF assms(1,3,4,5)]
  have len: "length q = 256" using assms(1) by (simp add: uq_rel_def)
  have "sl_buf s \<noteq> None" if "s \<in> set q" "victim (of_nat a) s" for s
    using that occupied_packet [OF assms(1)] len by (metis in_set_conv_nth option.distinct(1) victim_def)
  moreover have "\<forall>b \<in> set (victims (of_nat a) q). held p b"
    using vs(2) assms(4,6) by auto
  ultimately obtain p' acc' where loop: "acked_loop p (of_nat a) (0, 0, False) q =
      Some (p', acc', map (\<lambda>s. if victim (of_nat a) s then freed_slot s else s) q)"
      "pool_keeps p p' (set (victims (of_nat a) q))" "pool_free p' = rev (victims (of_nat a) q) @ pool_free p"
    using acked_loop_frees [OF assms(2) _ vs(1)] by blast
  define q' where "q' = map (\<lambda>s. if victim (of_nat a) s then freed_slot s else s) q"
  have q': "q' ! j = (if victim (of_nat a) (q ! j) then freed_slot (q ! j) else q ! j)" if "j < 256" for j
    using that len by (simp add: q'_def)
  have "uq_rel q' a n bf"
    unfolding uq_rel_def
  proof (intro conjI allI impI)
    show "length q' = 256" "a \<le> n" "n \<le> a + 256"
      using assms len by (auto simp: q'_def uq_rel_def)
    fix i assume i: "a \<le> i \<and> i < n"
    then have "q' ! (i mod 256) = q ! (i mod 256)"
      using victim_iff [OF assms(1) _ _ assms(3,4), of i] assms(3) q' by simp
    then show "sl_occupied (q' ! (i mod 256))" "sl_seq (q' ! (i mod 256)) = of_nat i"
      "sl_buf (q' ! (i mod 256)) = Some (bf i)"
      using assms(1,3) i by (simp_all add: uq_rel_def)
  next
    fix j :: nat assume j: "j < 256" "sl_occupied (q' ! j)"
    then have "\<not> victim (of_nat a) (q ! j)" "sl_occupied (q ! j)"
      using q' by (auto simp: freed_slot_def split: if_splits)
    moreover obtain i where "u \<le> i" "i < n" "i mod 256 = j"
      using occupied_packet [OF assms(1) j(1) calculation(2)] by blast
    ultimately show "\<exists>i. a \<le> i \<and> i < n \<and> i mod 256 = j"
      using victim_iff [OF assms(1) _ _ assms(3,4), of i] by (metis not_less)
  qed
  moreover have "length (victims (of_nat a) q) = a - u"
  proof -
    have "length (victims (of_nat a) q) = card (bf ` {u..<a})"
      using vs distinct_card by metis
    also have "\<dots> = a - u"
      using assms(4,5) by (subst card_image) (auto intro: inj_on_subset)
    finally show ?thesis .
  qed
  ultimately show ?thesis
    using loop vs(2) by (cases acc') (simp add: mark_acked_def q'_def)
qed

lemma touch_rel: "uq_rel q u n bf \<Longrightarrow> u \<le> i \<Longrightarrow> i < n \<Longrightarrow> uq_rel (touch q (of_nat i) t) u n bf"
proof -
  assume r: "uq_rel q u n bf" "u \<le> i" "i < n"
  have "touch q (of_nat i) t = q[i mod 256 := (q ! (i mod 256))\<lparr>sl_sent_tsc := t\<rparr>]"
    using r by (auto simp: touch_def slot_of_nat uq_rel_def Let_def)
  then show ?thesis
    using r by (simp add: uq_rel_def nth_update_same [where g = sl_occupied] nth_update_same [where g = sl_seq]
        nth_update_same [where g = sl_buf])
qed

lemma buffer_for_rel: "uq_rel q u n bf \<Longrightarrow> u \<le> i \<Longrightarrow> i < n \<Longrightarrow> buffer_for q (of_nat i) = Some (bf i)"
  by (auto simp: buffer_for_def slot_of_nat uq_rel_def Let_def)

lemma check_timeouts_rel:
  assumes "uq_rel q u n bf" "seq \<in> set (check_timeouts q now tmo)"
  shows "\<exists>i. u \<le> i \<and> i < n \<and> seq = of_nat i"
proof -
  obtain s where "s \<in> set q" "sl_occupied s" "seq = sl_seq s"
    using assms(2) by (auto simp: check_timeouts_def)
  then obtain j where "j < 256" "q ! j = s"
    using assms(1) by (auto simp: in_set_conv_nth uq_rel_def)
  then show ?thesis
    using occupied_packet [OF assms(1), of j] \<open>sl_occupied s\<close> \<open>seq = sl_seq s\<close> by auto
qed

lemma release_all_frees:
  assumes "pool_ok p" "\<forall>s \<in> set ss. sl_occupied s \<longrightarrow> sl_buf s \<noteq> None"
    and "bs = map (the \<circ> sl_buf) (filter sl_occupied ss)" "distinct bs" "\<forall>b \<in> set bs. held p b"
  shows "\<exists>p'. release_all p ss = Some (p', map freed_slot ss) \<and>
    pool_keeps p p' (set bs) \<and> pool_free p' = rev bs @ pool_free p"
  using assms
proof (induction ss arbitrary: p bs)
  case Nil
  then show ?case by (simp add: pool_keeps_refl)
next
  case (Cons s ss)
  show ?case
  proof (cases "sl_occupied s")
    case True
    then obtain b where b: "sl_buf s = Some b" using Cons.prems(2) by auto
    define cs where "cs = map (the \<circ> sl_buf) (filter sl_occupied ss)"
    have bs: "bs = b # cs" using True b Cons.prems(3) by (simp add: cs_def)
    obtain p1 where p1: "release p b = Some p1" "pool_keeps p p1 {b}" "pool_free p1 = b # pool_free p"
      using release_keeps [OF Cons.prems(1)] Cons.prems(5) bs by (auto simp: held_def)
    have "pool_ok p1" "\<forall>c \<in> set cs. held p1 c" "distinct cs" "\<forall>s \<in> set ss. sl_occupied s \<longrightarrow> sl_buf s \<noteq> None"
      using Cons.prems(2,4,5) bs p1 by (auto simp: held_def pool_keeps_def)
    then obtain p' where "release_all p1 ss = Some (p', map freed_slot ss)" "pool_keeps p1 p' (set cs)"
        "pool_free p' = rev cs @ pool_free p1"
      using Cons.IH [of p1 cs] cs_def by blast
    then show ?thesis
      using True b p1 bs pool_keeps_trans [OF p1(2), of p' "set cs"] by (simp add: freed_slot_def)
  next
    case False
    then obtain p' where "release_all p ss = Some (p', map freed_slot ss)" "pool_keeps p p' (set bs)"
        "pool_free p' = rev bs @ pool_free p"
      using Cons.IH [of p bs] Cons.prems by auto
    then show ?thesis using False by (simp add: freed_slot_def)
  qed
qed

section \<open>Accesses through a descriptor\<close>

lemma buf_write_at:
  assumes "pool_ok p" "b < length (bp_descs p)" "off + length bs \<le> unat (bp_buffer_size p)"
  shows "\<exists>p'. buf_write p b off bs = Some p' \<and> pool_keeps p p' {b} \<and> pool_free p' = pool_free p \<and>
    bd_bytes (bp_descs p' ! b) =
      take off (bd_bytes (bp_descs p ! b)) @ bs @ drop (off + length bs) (bd_bytes (bp_descs p ! b))"
proof -
  have "length (bd_bytes (bp_descs p ! b)) = unat (bp_buffer_size p)"
    using pool_okD(3) [OF assms(1,2)] by (simp add: desc_ok_def)
  then obtain p' where p': "buf_write p b off bs = Some p'"
    using assms by (simp add: buf_write_def Let_def)
  have "bp_buffer_size p' = bp_buffer_size p"
    "bd_bytes (bp_descs p' ! b) =
      take off (bd_bytes (bp_descs p ! b)) @ bs @ drop (off + length bs) (bd_bytes (bp_descs p ! b))"
    using p' assms(2) by (auto simp: buf_write_def Let_def split: if_splits)
  then show ?thesis
    using p' buf_write_frame [OF assms(1) p'] by (simp add: pool_keeps_def)
qed

lemma buf_set_len_at:
  assumes "pool_ok p" "b < length (bp_descs p)"
  shows "\<exists>p'. buf_set_len p b n = Some p' \<and> pool_keeps p p' {b} \<and> pool_free p' = pool_free p \<and>
    bd_bytes (bp_descs p' ! b) = bd_bytes (bp_descs p ! b) \<and> bd_len (bp_descs p' ! b) = n"
proof -
  obtain p' where p': "buf_set_len p b n = Some p'"
    using assms(2) by (simp add: buf_set_len_def)
  have "bp_buffer_size p' = bp_buffer_size p" "bd_bytes (bp_descs p' ! b) = bd_bytes (bp_descs p ! b)"
    "bd_len (bp_descs p' ! b) = n"
    using p' assms(2) by (auto simp: buf_set_len_def)
  then show ?thesis
    using p' buf_set_len_frame [OF assms(1) p'] by (simp add: pool_keeps_def)
qed

lemma pool_keeps_trans1: "pool_keeps p p1 S \<Longrightarrow> pool_keeps p1 p2 S \<Longrightarrow> pool_keeps p p2 S"
  using pool_keeps_trans [of p p1 S p2 S] by simp

lemma buf_read_take:
  "pool_ok p \<Longrightarrow> b < length (bp_descs p) \<Longrightarrow> off + n \<le> unat (bp_buffer_size p) \<Longrightarrow>
   buf_read p b off n = Some (take n (drop off (bd_bytes (bp_descs p ! b))))"
  using pool_okD(3) [of p b] by (simp add: buf_read_def desc_ok_def)

end
