(* ===== verification/Tcp_Header.thy ===== *)
theory Tcp_Header
  imports Prelude
begin

unbundle bit_operations_syntax

text \<open>
  The wire header of TCP-Lite and its checksum, \<^verbatim>\<open>TcpLiteHeader\<close> of \<^verbatim>\<open>include/tcp_lite.h\<close> and the
  functions \<^verbatim>\<open>crc_table\<close>, \<^verbatim>\<open>crc32_seg\<close>, \<^verbatim>\<open>make_syn\<close>, \<^verbatim>\<open>make_ack\<close>, \<^verbatim>\<open>make_data\<close>, \<^verbatim>\<open>compute_checksum\<close> and
  \<^verbatim>\<open>verify_checksum\<close> of \<^verbatim>\<open>src/tcp_lite.cpp\<close>. \<open>hdr_bytes\<close> is the memory image of the packed structure
  on the little-endian machines the code is written for.
\<close>

section \<open>The checksum\<close>

text \<open>One round of the inner loop of \<^verbatim>\<open>crc_table\<close>.\<close>

definition crc_bit :: "u32 \<Rightarrow> u32" where
  "crc_bit c = (if c AND 1 \<noteq> 0 then 0xEDB88320 XOR drop_bit 1 c else drop_bit 1 c)"

definition crc_table :: "u32 list" where
  "crc_table = map (\<lambda>i. (crc_bit ^^ 8) (of_nat i)) [0..<256]"

fun crc_loop :: "bytes \<Rightarrow> u32 \<Rightarrow> u32" where
  "crc_loop [] crc = crc"
| "crc_loop (b # bs) crc =
     crc_loop bs (crc_table ! unat ((crc XOR ucast b) AND 0xFF) XOR drop_bit 8 crc)"

definition crc32_seg :: "bytes \<Rightarrow> bytes \<Rightarrow> u32" where
  "crc32_seg h p = crc_loop p (crc_loop h 0xFFFFFFFF) XOR 0xFFFFFFFF"

section \<open>The header\<close>

definition TCP_SYN :: u16 where "TCP_SYN = 0x01"
definition TCP_ACK :: u16 where "TCP_ACK = 0x02"
definition TCP_FIN :: u16 where "TCP_FIN = 0x04"
definition TCP_RST :: u16 where "TCP_RST = 0x08"

record tcp_header =
  th_seq_num :: u32
  th_ack_num :: u32
  th_flags :: u16
  th_payload_len :: u16
  th_checksum :: u32

definition zero_header :: tcp_header where
  "zero_header = \<lparr>th_seq_num = 0, th_ack_num = 0, th_flags = 0, th_payload_len = 0, th_checksum = 0\<rparr>"

definition le16 :: "u16 \<Rightarrow> bytes" where
  "le16 w = [ucast w, ucast (drop_bit 8 w)]"

definition le32 :: "u32 \<Rightarrow> bytes" where
  "le32 w = [ucast w, ucast (drop_bit 8 w), ucast (drop_bit 16 w), ucast (drop_bit 24 w)]"

definition of_le16 :: "u8 \<Rightarrow> u8 \<Rightarrow> u16" where
  "of_le16 a b = ucast a OR push_bit 8 (ucast b)"

definition of_le32 :: "u8 \<Rightarrow> u8 \<Rightarrow> u8 \<Rightarrow> u8 \<Rightarrow> u32" where
  "of_le32 a b c d = ucast a OR push_bit 8 (ucast b) OR push_bit 16 (ucast c) OR push_bit 24 (ucast d)"

definition hdr_bytes :: "tcp_header \<Rightarrow> bytes" where
  "hdr_bytes h = le32 (th_seq_num h) @ le32 (th_ack_num h) @ le16 (th_flags h) @ le16 (th_payload_len h) @
     le32 (th_checksum h)"

text \<open>Reading the structure back from 16 bytes of memory.\<close>

definition hdr_of :: "bytes \<Rightarrow> tcp_header" where
  "hdr_of m = \<lparr>th_seq_num = of_le32 (m ! 0) (m ! 1) (m ! 2) (m ! 3),
     th_ack_num = of_le32 (m ! 4) (m ! 5) (m ! 6) (m ! 7),
     th_flags = of_le16 (m ! 8) (m ! 9), th_payload_len = of_le16 (m ! 10) (m ! 11),
     th_checksum = of_le32 (m ! 12) (m ! 13) (m ! 14) (m ! 15)\<rparr>"

definition compute_checksum :: "tcp_header \<Rightarrow> bytes \<Rightarrow> tcp_header" where
  "compute_checksum h payload =
     (let h0 = h\<lparr>th_checksum := 0\<rparr> in h0\<lparr>th_checksum := crc32_seg (hdr_bytes h0) payload\<rparr>)"

definition verify_checksum :: "tcp_header \<Rightarrow> bytes \<Rightarrow> bool" where
  "verify_checksum h payload \<longleftrightarrow>
     (let tmp = h\<lparr>th_checksum := 0\<rparr> in crc32_seg (hdr_bytes tmp) payload = th_checksum h)"

definition make_syn :: "u32 \<Rightarrow> tcp_header" where
  "make_syn seq = compute_checksum (zero_header\<lparr>th_seq_num := seq, th_flags := TCP_SYN\<rparr>) []"

definition make_ack :: "u32 \<Rightarrow> u32 \<Rightarrow> tcp_header" where
  "make_ack seq ack =
     compute_checksum (zero_header\<lparr>th_seq_num := seq, th_ack_num := ack, th_flags := TCP_ACK\<rparr>) []"

definition make_data :: "u32 \<Rightarrow> u32 \<Rightarrow> u16 \<Rightarrow> tcp_header" where
  "make_data seq ack len =
     zero_header\<lparr>th_seq_num := seq, th_ack_num := ack, th_flags := TCP_ACK, th_payload_len := len\<rparr>"

section \<open>Memory image\<close>

lemma of_le16_le16: "of_le16 (ucast w) (ucast (drop_bit 8 w)) = w"
proof (rule bit_word_eqI)
  show "bit (of_le16 (ucast w) (ucast (drop_bit 8 w))) n = bit w n" if "n < LENGTH(16)" for n
    using that by (cases "n < 8") (auto simp: bit_simps of_le16_def)
qed

lemma of_le32_le32:
  "of_le32 (ucast w) (ucast (drop_bit 8 w)) (ucast (drop_bit 16 w)) (ucast (drop_bit 24 w)) = w"
proof (rule bit_word_eqI)
  show "bit (of_le32 (ucast w) (ucast (drop_bit 8 w)) (ucast (drop_bit 16 w)) (ucast (drop_bit 24 w))) n = bit w n"
    if "n < LENGTH(32)" for n
    using that by (cases "n < 8"; cases "n < 16"; cases "n < 24") (auto simp: bit_simps of_le32_def)
qed

lemma length_le [simp]: "length (le16 a) = 2" "length (le32 w) = 4"
  by (simp_all add: le16_def le32_def)

lemma length_hdr_bytes [simp]: "length (hdr_bytes h) = 16"
  by (simp add: hdr_bytes_def le16_def le32_def)

lemma hdr_of_bytes [simp]: "hdr_of (hdr_bytes h) = h"
  by (simp add: hdr_of_def hdr_bytes_def le16_def le32_def of_le16_le16 of_le32_le32)

section \<open>The table-driven loop and the bitwise definition\<close>

lemma xor_cancel: "(x :: u32) XOR a = x XOR b \<Longrightarrow> a = b"
proof -
  assume "x XOR a = x XOR b"
  then have "x XOR (x XOR a) = x XOR (x XOR b)" by simp
  then show "a = b" by (simp flip: xor.assoc)
qed

lemma and_one_bit: "(z :: u32) AND 1 \<noteq> 0 \<longleftrightarrow> bit z 0"
  by (simp add: and_one_eq bit_0 odd_iff_mod_2_eq_one)

lemma crc_bit_alt: "crc_bit c = (if bit c 0 then 0xEDB88320 XOR drop_bit 1 c else drop_bit 1 c)"
  by (simp only: crc_bit_def and_one_bit)

lemma crc_bit_linear: "crc_bit (x XOR y) = crc_bit x XOR crc_bit y"
  unfolding crc_bit_alt
  by (cases "bit x 0"; cases "bit y 0") (simp_all add: bit_xor_iff ac_simps xor.left_commute)

lemma crc_pow_linear: "(crc_bit ^^ n) (x XOR y) = (crc_bit ^^ n) x XOR (crc_bit ^^ n) y"
  by (induction n) (simp_all add: crc_bit_linear)

lemma crc_pow_shift:
  "(\<And>i. i < n \<Longrightarrow> \<not> bit x i) \<Longrightarrow> (crc_bit ^^ n) x = drop_bit n x"
proof (induction n)
  case (Suc n)
  then have "(crc_bit ^^ n) x = drop_bit n x" by simp
  moreover have "\<not> bit (drop_bit n x) 0"
    using Suc.prems [of n] by (simp add: bit_drop_bit_eq)
  ultimately show ?case
    using crc_bit_alt [of "drop_bit n x"] by simp
qed simp

lemma crc_bit_inj: "crc_bit x = crc_bit y \<Longrightarrow> x = y"
proof -
  have zero: "z = 0" if "crc_bit z = 0" for z
  proof (cases "bit z 0")
    case True
    then have "bit (crc_bit z) 31"
      by (auto simp: crc_bit_alt bit_simps dest: bit_imp_le_length)
    with that show ?thesis by simp
  next
    case False
    with that have "drop_bit 1 z = 0"
      by (simp add: crc_bit_alt)
    then have "\<not> bit z (Suc k)" for k
      using bit_drop_bit_eq [of 1 z] by (simp add: fun_eq_iff)
    with False have "\<not> bit z n" for n
      by (cases n) simp_all
    then show ?thesis by (intro bit_word_eqI) simp
  qed
  assume "crc_bit x = crc_bit y"
  then have "crc_bit (x XOR y) = 0" by (simp add: crc_bit_linear)
  then have "x XOR y = x XOR x" using zero [of "x XOR y"] by simp
  then show "x = y" using xor_cancel by blast
qed

lemma crc_pow_inj: "(crc_bit ^^ n) x = (crc_bit ^^ n) y \<Longrightarrow> x = y"
  by (induction n) (auto dest: crc_bit_inj)

lemma crc_table_step:
  "crc_table ! unat ((c XOR ucast (b :: u8)) AND 0xFF) XOR drop_bit 8 c = (crc_bit ^^ 8) (c XOR ucast b)"
proof -
  define z where "z = c XOR ucast b"
  have low: "z AND 0xFF = take_bit 8 z"
    using take_bit_eq_mask [of 8 z] by (simp add: mask_eq_decr_exp)
  have "unat (take_bit 8 z) < 256"
    by (simp add: unsigned_take_bit_eq take_bit_nat_less_exp [of 8, simplified])
  then have table: "crc_table ! unat (z AND 0xFF) = (crc_bit ^^ 8) (take_bit 8 z)"
    unfolding low by (simp add: crc_table_def)
  have "z = take_bit 8 z XOR push_bit 8 (drop_bit 8 z)"
    by (rule bit_word_eqI) (auto simp: bit_simps)
  moreover have "(crc_bit ^^ 8) (push_bit 8 (drop_bit 8 z)) = drop_bit 8 (push_bit 8 (drop_bit 8 z))"
    by (rule crc_pow_shift) (simp add: bit_simps)
  moreover have "drop_bit 8 (push_bit 8 (drop_bit 8 z)) = drop_bit 8 c"
    by (rule bit_word_eqI) (auto simp: z_def bit_simps dest: bit_imp_le_length)
  ultimately have "(crc_bit ^^ 8) z = (crc_bit ^^ 8) (take_bit 8 z) XOR drop_bit 8 c"
    by (metis crc_pow_linear)
  then show ?thesis using table by (simp add: z_def)
qed

lemma crc_loop_Cons: "crc_loop (b # bs) c = crc_loop bs ((crc_bit ^^ 8) (c XOR ucast b))"
  by (simp only: crc_loop.simps crc_table_step)

lemma crc_loop_append: "crc_loop (xs @ ys) c = crc_loop ys (crc_loop xs c)"
  by (induction xs arbitrary: c) simp_all

lemma crc_loop_inj: "crc_loop bs c = crc_loop bs c' \<Longrightarrow> c = c'"
proof (induction bs arbitrary: c c')
  case (Cons b bs)
  then have "(crc_bit ^^ 8) (c XOR ucast b) = (crc_bit ^^ 8) (c' XOR ucast b)"
    by (metis crc_loop_Cons)
  then have "c XOR ucast b = c' XOR ucast b" by (rule crc_pow_inj)
  then have "(c XOR ucast b) XOR ucast b = (c' XOR ucast b) XOR ucast b" by simp
  then show ?case by (simp add: xor.assoc)
qed simp

text \<open>The bytes of a burst as one word, the first byte least significant.\<close>

fun le_join :: "bytes \<Rightarrow> u32" where
  "le_join [] = 0"
| "le_join (b # bs) = ucast b XOR push_bit 8 (le_join bs)"

lemma bit_le_join:
  "length bs \<le> 4 \<Longrightarrow> bit (le_join bs) n \<longleftrightarrow> n < 8 * length bs \<and> bit (bs ! (n div 8)) (n mod 8)"
proof (induction bs arbitrary: n)
  case (Cons b bs)
  show ?case
  proof (cases "n < 8")
    case True
    then show ?thesis by (simp add: bit_simps)
  next
    case False
    have "(b # bs) ! (n div 8) = bs ! ((n - 8) div 8)" "n mod 8 = (n - 8) mod 8"
      using False by (simp_all add: le_div_geq le_mod_geq)
    moreover have "bit (le_join (b # bs)) n \<longleftrightarrow> n < 32 \<and> bit (le_join bs) (n - 8)"
      using False by (auto simp: bit_simps dest: bit_imp_le_length)
    moreover have "bit (le_join bs) (n - 8) \<longleftrightarrow>
        n - 8 < 8 * length bs \<and> bit (bs ! ((n - 8) div 8)) ((n - 8) mod 8)"
      using Cons by simp
    moreover have "n < 32 \<and> n - 8 < 8 * length bs \<longleftrightarrow> n < 8 * length (b # bs)"
      using False Cons.prems by auto
    ultimately show ?thesis by metis
  qed
qed simp

lemma le_join_inj:
  assumes "length bs = length bs'" "length bs \<le> 4" "le_join bs = le_join bs'"
  shows "bs = bs'"
proof (rule nth_equalityI)
  fix i assume i: "i < length bs"
  show "bs ! i = bs' ! i"
  proof (rule bit_word_eqI)
    fix n assume "n < LENGTH(8)"
    then have "8 * i + n < 8 * length bs" "(8 * i + n) div 8 = i" "(8 * i + n) mod 8 = n"
      using i by simp_all
    then show "bit (bs ! i) n = bit (bs' ! i) n"
      using bit_le_join [of bs "8 * i + n"] bit_le_join [of bs' "8 * i + n"] assms by simp
  qed
qed (rule assms(1))

lemma crc_loop_burst:
  "length bs \<le> 4 \<Longrightarrow> crc_loop bs c = (crc_bit ^^ (8 * length bs)) (c XOR le_join bs)"
proof (induction bs arbitrary: c)
  case (Cons b bs)
  have small: "n < 24" if "bit (le_join bs) n" for n
  proof -
    have "n < 8 * length bs" using that Cons.prems bit_le_join [of bs n] by simp
    then show ?thesis using Cons.prems by simp
  qed
  have "(crc_bit ^^ 8) (push_bit 8 (le_join bs)) = drop_bit 8 (push_bit 8 (le_join bs))"
    by (rule crc_pow_shift) (simp add: bit_simps)
  also have "\<dots> = le_join bs"
    by (rule bit_word_eqI) (auto simp: bit_simps dest: small)
  finally have shifted: "(crc_bit ^^ 8) (push_bit 8 (le_join bs)) = le_join bs" .
  have "(crc_bit ^^ 8) (c XOR le_join (b # bs)) = (crc_bit ^^ 8) ((c XOR ucast b) XOR push_bit 8 (le_join bs))"
    by (simp only: le_join.simps xor.assoc)
  also have "\<dots> = (crc_bit ^^ 8) (c XOR ucast b) XOR le_join bs"
    by (simp only: crc_pow_linear shifted)
  finally have step: "(crc_bit ^^ 8) (c XOR ucast b) XOR le_join bs = (crc_bit ^^ 8) (c XOR le_join (b # bs))" ..
  have "crc_loop (b # bs) c = (crc_bit ^^ (8 * length bs)) ((crc_bit ^^ 8) (c XOR le_join (b # bs)))"
    using Cons.IH Cons.prems by (simp only: crc_loop_Cons length_Cons Suc_leD flip: step)
  also have "\<dots> = (crc_bit ^^ (8 * length bs + 8)) (c XOR le_join (b # bs))"
    by (simp only: funpow_add comp_def)
  finally show ?case by (simp only: length_Cons mult_Suc_right add.commute)
qed simp

lemma crc_loop_differs:
  assumes "length bs = length bs'" "length bs \<le> 4" "bs \<noteq> bs'"
  shows "crc_loop (xs @ bs @ ys) c \<noteq> crc_loop (xs @ bs' @ ys) c"
proof
  assume "crc_loop (xs @ bs @ ys) c = crc_loop (xs @ bs' @ ys) c"
  then have "crc_loop bs (crc_loop xs c) = crc_loop bs' (crc_loop xs c)"
    by (auto simp: crc_loop_append dest: crc_loop_inj)
  then have "crc_loop xs c XOR le_join bs = crc_loop xs c XOR le_join bs'"
    using assms(1,2) by (simp add: crc_loop_burst) (rule crc_pow_inj)
  then have "le_join bs = le_join bs'"
    by (rule xor_cancel)
  then show False using assms le_join_inj by blast
qed

lemma crc_loop_foldl: "crc_loop bs c = foldl (\<lambda>c b. (crc_bit ^^ 8) (c XOR ucast b)) c bs"
  by (induction bs arbitrary: c) (simp_all only: crc_loop_Cons crc_loop.simps foldl.simps)

text \<open>Evaluating single rounds on numerals.\<close>

lemma crc_bit_of_nat: "n < 2 ^ 31 \<Longrightarrow> crc_bit (of_nat (2 * n)) = of_nat n"
    "n < 2 ^ 31 \<Longrightarrow> crc_bit (of_nat (2 * n + 1)) = 0xEDB88320 XOR of_nat n"
proof -
  assume n: "n < 2 ^ 31"
  have u: "unat (of_nat (2 * n) :: u32) = 2 * n" "unat (of_nat (2 * n + 1) :: u32) = 2 * n + 1"
      "unat (of_nat n :: u32) = n" "unat (2 :: u32) = 2"
    by (rule unat_of_nat_u32, use n in simp)+ simp
  have "drop_bit 1 (of_nat (2 * n)) = (of_nat n :: u32)" "drop_bit 1 (of_nat (2 * n + 1)) = (of_nat n :: u32)"
    by (simp_all only: word_unat_eq_iff drop_bit_eq_div unat_div u power_one_right) (simp?)
  moreover have "bit (w :: u32) 0 \<longleftrightarrow> odd (unat w)" for w
    using bit_unsigned_iff [of w 0, where 'a = nat] by (simp add: bit_0)
  ultimately show "crc_bit (of_nat (2 * n)) = of_nat n"
    "crc_bit (of_nat (2 * n + 1)) = 0xEDB88320 XOR of_nat n"
    by (simp_all only: crc_bit_alt u) simp_all
qed

lemma crc_bit_numeral:
  "numeral n < (2 ^ 31 :: nat) \<Longrightarrow> crc_bit (numeral (num.Bit0 n)) = numeral n"
  "numeral n < (2 ^ 31 :: nat) \<Longrightarrow> crc_bit (numeral (num.Bit1 n)) = 0xEDB88320 XOR numeral n"
  using crc_bit_of_nat [of "numeral n"] by simp_all

lemma crc_bit_8: "(crc_bit ^^ 8) x =
    crc_bit (crc_bit (crc_bit (crc_bit (crc_bit (crc_bit (crc_bit (crc_bit x)))))))"
  by (simp add: eval_nat_numeral)

lemma verify_compute: "verify_checksum (compute_checksum h p) p"
  by (simp add: verify_checksum_def compute_checksum_def)

lemma crc32_seg_differs:
  assumes "length bs = length bs'" "length bs \<le> 4" "bs \<noteq> bs'"
    and "h @ p = xs @ bs @ ys" "h' @ p' = xs @ bs' @ ys"
  shows "crc32_seg h p \<noteq> crc32_seg h' p'"
proof
  assume "crc32_seg h p = crc32_seg h' p'"
  then have "0xFFFFFFFF XOR crc_loop (h @ p) 0xFFFFFFFF = 0xFFFFFFFF XOR crc_loop (h' @ p') 0xFFFFFFFF"
    by (simp add: crc32_seg_def crc_loop_append xor.commute)
  then show False
    using crc_loop_differs [OF assms(1-3)] assms(4,5) xor_cancel by metis
qed

lemma le32_nth: "of_le32 (le32 x ! 0) (le32 x ! 1) (le32 x ! 2) (le32 x ! 3) = x"
  by (simp add: le32_def of_le32_le32)

lemma le16_nth: "of_le16 (le16 x ! 0) (le16 x ! 1) = x"
  by (simp add: le16_def of_le16_le16)

lemma le32_inj: "le32 x = le32 y \<longleftrightarrow> x = y"
  using le32_nth by metis

lemma le16_inj: "le16 x = le16 y \<longleftrightarrow> x = y"
  using le16_nth by metis

text \<open>The memory image of a packet around each of its header fields.\<close>

definition around_seq :: "tcp_header \<Rightarrow> bytes" where
  "around_seq h = le32 (th_ack_num h) @ le16 (th_flags h) @ le16 (th_payload_len h) @ le32 (th_checksum h)"

definition after_ack :: "tcp_header \<Rightarrow> bytes" where
  "after_ack h = le16 (th_flags h) @ le16 (th_payload_len h) @ le32 (th_checksum h)"

definition after_flags :: "tcp_header \<Rightarrow> bytes" where
  "after_flags h = le16 (th_payload_len h) @ le32 (th_checksum h)"

lemma verify_other_field:
  assumes "verify_checksum h p" "th_checksum h' = th_checksum h"
    and "hdr_bytes (h\<lparr>th_checksum := 0\<rparr>) @ p = xs @ bs @ ys"
    and "hdr_bytes (h'\<lparr>th_checksum := 0\<rparr>) @ p = xs @ bs' @ ys"
    and "length bs = length bs'" "length bs \<le> 4" "bs \<noteq> bs'"
  shows "\<not> verify_checksum h' p"
  using crc32_seg_differs [OF assms(5-7,3,4)] assms(1,2) by (simp add: verify_checksum_def)

section \<open>Properties\<close>

text \<open>
  C19. The checksum is the CRC-32 of the header followed by the payload: the table-driven loop
  computes the same value as the bit-by-bit division by the reflected polynomial \<open>0xEDB88320\<close> with
  the usual initial value and final complement, and on the ASCII digits 1 to 9 it gives the check
  value \<open>0xCBF43926\<close>.
\<close>

theorem crc32_seg_bitwise:
  "crc32_seg h p = foldl (\<lambda>c b. (crc_bit ^^ 8) (c XOR ucast b)) 0xFFFFFFFF (h @ p) XOR 0xFFFFFFFF \<and>
   crc32_seg [0x31, 0x32, 0x33, 0x34] [0x35, 0x36, 0x37, 0x38, 0x39] = 0xCBF43926"
proof -
  have "foldl (\<lambda>c b. (crc_bit ^^ 8) (c XOR ucast b)) 0xFFFFFFFF
      [0x31, 0x32, 0x33, 0x34, 0x35, 0x36, 0x37, 0x38, 0x39 :: u8] XOR 0xFFFFFFFF = 0xCBF43926"
    by (simp add: crc_bit_8 crc_bit_numeral)
  then show ?thesis
    by (simp add: crc32_seg_def crc_loop_foldl)
qed

text \<open>
  A header whose checksum was computed over a payload verifies with that payload, also after
  it has been stored in memory and read back; so do the headers of the control packets.
\<close>

theorem checksum_round_trip:
  "verify_checksum (hdr_of (hdr_bytes (compute_checksum h p))) p \<and>
   verify_checksum (make_syn seq) [] \<and> verify_checksum (make_ack seq ack) []"
  by (simp add: verify_compute make_syn_def make_ack_def)

text \<open>
  C18. Damage is detected, unless it is to the length. When a packet verifies, it no longer does after
  a change of its payload that is confined to four consecutive bytes, nor after a change of its sequence
  number, its acknowledgement number, its flags or its checksum. The length field is not among these: it
  decides how many bytes are checked, and \<open>payload_len_undetected\<close> below has a packet that still verifies.
\<close>

theorem tcp_checksum_detects:
  assumes "verify_checksum h p"
  shows "(\<forall>xs bs bs' ys. p = xs @ bs @ ys \<and> length bs = length bs' \<and> length bs \<le> 4 \<and> bs \<noteq> bs' \<longrightarrow>
      \<not> verify_checksum h (xs @ bs' @ ys)) \<and>
    (\<forall>s. s \<noteq> th_seq_num h \<longrightarrow> \<not> verify_checksum (h\<lparr>th_seq_num := s\<rparr>) p) \<and>
    (\<forall>a. a \<noteq> th_ack_num h \<longrightarrow> \<not> verify_checksum (h\<lparr>th_ack_num := a\<rparr>) p) \<and>
    (\<forall>f. f \<noteq> th_flags h \<longrightarrow> \<not> verify_checksum (h\<lparr>th_flags := f\<rparr>) p) \<and>
    (\<forall>c. c \<noteq> th_checksum h \<longrightarrow> \<not> verify_checksum (h\<lparr>th_checksum := c\<rparr>) p)"
proof (intro conjI allI impI)
  fix xs bs bs' ys
  assume "p = xs @ bs @ ys \<and> length bs = length bs' \<and> length bs \<le> 4 \<and> bs \<noteq> bs'"
  then show "\<not> verify_checksum h (xs @ bs' @ ys)"
    using assms crc32_seg_differs [where bs = bs and bs' = bs' and h = "hdr_bytes (h\<lparr>th_checksum := 0\<rparr>)"
        and h' = "hdr_bytes (h\<lparr>th_checksum := 0\<rparr>)" and xs = "hdr_bytes (h\<lparr>th_checksum := 0\<rparr>) @ xs"
        and ys = ys and p = p and p' = "xs @ bs' @ ys"]
    by (auto simp: verify_checksum_def)
next
  fix s assume "s \<noteq> th_seq_num h"
  then show "\<not> verify_checksum (h\<lparr>th_seq_num := s\<rparr>) p"
    by (intro verify_other_field [where xs = "[]" and bs = "le32 (th_seq_num h)" and bs' = "le32 s"
          and ys = "around_seq (h\<lparr>th_checksum := 0\<rparr>) @ p", OF assms])
      (simp_all add: hdr_bytes_def around_seq_def le32_inj)
next
  fix a assume "a \<noteq> th_ack_num h"
  then show "\<not> verify_checksum (h\<lparr>th_ack_num := a\<rparr>) p"
    by (intro verify_other_field [where xs = "le32 (th_seq_num h)" and bs = "le32 (th_ack_num h)" and bs' = "le32 a"
          and ys = "after_ack (h\<lparr>th_checksum := 0\<rparr>) @ p", OF assms])
      (simp_all add: hdr_bytes_def after_ack_def le32_inj)
next
  fix f assume "f \<noteq> th_flags h"
  then show "\<not> verify_checksum (h\<lparr>th_flags := f\<rparr>) p"
    by (intro verify_other_field [where xs = "le32 (th_seq_num h) @ le32 (th_ack_num h)" and bs = "le16 (th_flags h)"
          and bs' = "le16 f" and ys = "after_flags (h\<lparr>th_checksum := 0\<rparr>) @ p", OF assms])
      (simp_all add: hdr_bytes_def after_flags_def le16_inj)
next
  fix c assume "c \<noteq> th_checksum h"
  then show "\<not> verify_checksum (h\<lparr>th_checksum := c\<rparr>) p"
    using assms by (simp add: verify_checksum_def)
qed

theorem tcp_checksum_detects_witness:
  "\<not> verify_checksum (compute_checksum (make_data 7 0 3) [1, 2, 3]) [1, 9, 3]"
proof -
  have "(\<forall>xs bs bs' ys. [1, 2, 3] = xs @ bs @ ys \<and> length bs = length bs' \<and> length bs \<le> 4 \<and> bs \<noteq> bs' \<longrightarrow>
      \<not> verify_checksum (compute_checksum (make_data 7 0 3) [1, 2, 3]) (xs @ bs' @ ys))"
    using tcp_checksum_detects [OF verify_compute [of "make_data 7 0 3" "[1, 2, 3]"]] by (rule conjunct1)
  from this [rule_format, of "[1]" "[2]" "[3]" "[9]"] show ?thesis by simp
qed

text \<open>A packet with four bytes of payload that verifies, and still does when its length field is damaged to 0.\<close>

lemma payload_len_undetected:
  "verify_checksum ((make_data 0 0 4)\<lparr>th_checksum := 0xAE9E4C28\<rparr>) [218, 0, 211, 228] \<and>
   verify_checksum ((make_data 0 0 4)\<lparr>th_checksum := 0xAE9E4C28, th_payload_len := 0\<rparr>) []"
proof -
  let ?f = "foldl (\<lambda>c b. (crc_bit ^^ 8) (c XOR ucast b)) 0xFFFFFFFF"
  have "?f [0, 0, 0, 0, 0, 0, 0, 0, 2, 0, 4, 0, 0, 0, 0, 0, 218, 0, 211, 228 :: u8] XOR 0xFFFFFFFF = 0xAE9E4C28"
    and "?f [0, 0, 0, 0, 0, 0, 0, 0, 2, 0, 0, 0, 0, 0, 0, 0 :: u8] XOR 0xFFFFFFFF = 0xAE9E4C28"
    by (simp_all add: crc_bit_8 crc_bit_numeral)
  then show ?thesis
    by (simp add: verify_checksum_def crc32_seg_def crc_loop_foldl make_data_def zero_header_def TCP_ACK_def
        hdr_bytes_def le16_def le32_def Let_def)
qed

end
