(* ===== verification/Tcp_Session.thy ===== *)
theory Tcp_Session
  imports Unacked_Queue Tcp_Header "HOL-Library.Monad_Syntax"
begin

unbundle bit_operations_syntax

text \<open>
  One end of a TCP-Lite connection, \<^verbatim>\<open>TcpLiteSession\<close> of \<^verbatim>\<open>include/tcp_lite.h\<close> and \<^verbatim>\<open>src/tcp_lite.cpp\<close>.
  \<^item> The buffer pool is shared with the rest of the program, so it is passed in and returned.
  \<^item> \<open>tcp_env\<close> holds what the code takes from the processor: the time stamp counter on a state \<open>'w\<close>,
    and the two conversions between cycles and nanoseconds (\<^verbatim>\<open>cycles_to_ns\<close>, and \<^verbatim>\<open>rto_ns_\<close> times the
    calibrated frequency), which are floating-point computations with a measured constant.
  \<^item> The callbacks are recorded: \<open>ts_out\<close> lists the packets given to \<^verbatim>\<open>transmit_\<close>, \<open>ts_delivered\<close> the
    blocks given to \<^verbatim>\<open>data_cb_\<close>. Neither callback calls back into the session.
  \<^item> \<open>None\<close> is a memory access outside a buffer or a release that the pool refuses.
\<close>

record 'w tcp_env =
  te_rdtsc :: "'w \<Rightarrow> u64 \<times> 'w"
  te_ns :: "u64 \<Rightarrow> u64"
  te_cycles :: "u64 \<Rightarrow> u64"

record tcp_session =
  ts_rto_ns :: u64
  ts_unacked :: unacked_queue
  ts_pending_tx :: bytes
  ts_tx_off :: nat
  ts_next_seq :: u32
  ts_snd_una :: u32
  ts_bitmap :: recv_bitmap
  ts_reasm :: "bytes list"
  ts_pending_ack :: bool
  ts_bytes_sent :: u64
  ts_bytes_received :: u64
  ts_retransmits :: u64
  ts_rtt_ns :: u64
  ts_data_cb :: bool
  ts_out :: "bytes list"
  ts_delivered :: "bytes list"

type_synonym 'w tcp_state = "tcp_session \<times> buffer_pool \<times> 'w"

definition TCP_LITE_MAX_PAYLOAD :: nat where "TCP_LITE_MAX_PAYLOAD = 1024"

definition session_new :: tcp_session where
  "session_new = \<lparr>ts_rto_ns = 1000000, ts_unacked = uq_init, ts_pending_tx = [], ts_tx_off = 0,
     ts_next_seq = 0, ts_snd_una = 0, ts_bitmap = bitmap_init, ts_reasm = replicate 256 [],
     ts_pending_ack = False, ts_bytes_sent = 0, ts_bytes_received = 0, ts_retransmits = 0, ts_rtt_ns = 0,
     ts_data_cb = False, ts_out = [], ts_delivered = []\<rparr>"

definition session_delete :: "tcp_session \<Rightarrow> buffer_pool \<Rightarrow> (buffer_pool \<times> unacked_queue) option" where
  "session_delete s p = release_all p (ts_unacked s)"

definition set_data_callback :: "tcp_session \<Rightarrow> tcp_session" where
  "set_data_callback s = s\<lparr>ts_data_cb := True\<rparr>"

definition set_rto_ns :: "tcp_session \<Rightarrow> u64 \<Rightarrow> tcp_session" where
  "set_rto_ns s ns = s\<lparr>ts_rto_ns := ns\<rparr>"

definition transmit :: "tcp_session \<Rightarrow> bytes \<Rightarrow> tcp_session" where
  "transmit s pkt = s\<lparr>ts_out := ts_out s @ [pkt]\<rparr>"

definition read_header :: "buffer_pool \<Rightarrow> nat \<Rightarrow> tcp_header option" where
  "read_header p buf = do { m \<leftarrow> buf_read p buf 0 16; Some (hdr_of m) }"

text \<open>Filling a buffer: the two copies, the checksum, the length.\<close>

definition fill_packet :: "buffer_pool \<Rightarrow> nat \<Rightarrow> tcp_header \<Rightarrow> bytes \<Rightarrow> buffer_pool option" where
  "fill_packet p buf h chunk =
     do { p1 \<leftarrow> buf_write p buf 0 (hdr_bytes h);
          p2 \<leftarrow> buf_write p1 buf 16 chunk;
          h1 \<leftarrow> read_header p2 buf;
          pl \<leftarrow> buf_read p2 buf 16 (length chunk);
          p3 \<leftarrow> buf_write p2 buf 12 (le32 (th_checksum (compute_checksum h1 pl)));
          buf_set_len p3 buf (of_nat (16 + length chunk)) }"

text \<open>One pass of the loop of \<^verbatim>\<open>pump_tx\<close>; \<open>False\<close> is the \<^verbatim>\<open>break\<close> on an exhausted pool.\<close>

fun pump_step :: "'w tcp_env \<Rightarrow> 'w tcp_state \<Rightarrow> (bool \<times> 'w tcp_state) option" where
  "pump_step env (s, p, w) =
     do { (b, p1) \<leftarrow> acquire p;
          case b of
            None \<Rightarrow> Some (False, s, p1, w)
          | Some buf \<Rightarrow>
              (let remaining = length (ts_pending_tx s) - ts_tx_off s;
                   plen = (of_nat (min remaining TCP_LITE_MAX_PAYLOAD) :: u16);
                   h = make_data (ts_next_seq s) (cumulative_ack (ts_bitmap s)) plen;
                   chunk = take (unat plen) (drop (ts_tx_off s) (ts_pending_tx s))
               in do { p2 \<leftarrow> fill_packet p1 buf h chunk;
                       let (now, w1) = te_rdtsc env w;
                       (p3, q) \<leftarrow> mark_sent p2 (ts_unacked s) (ts_next_seq s) buf now;
                       pkt \<leftarrow> buf_read p3 buf 0 (unat (bd_len (bp_descs p3 ! buf)));
                       Some (True, (transmit s pkt)\<lparr>ts_unacked := q, ts_bytes_sent := ts_bytes_sent s + ucast plen,
                         ts_tx_off := ts_tx_off s + unat plen, ts_next_seq := ts_next_seq s + 1\<rparr>, p3, w1) }) }"

lemma pump_step_progress:
  assumes "pump_step env (s, p, w) = Some (True, s', p', w')" "ts_tx_off s < length (ts_pending_tx s)"
  shows "length (ts_pending_tx s') - ts_tx_off s' < length (ts_pending_tx s) - ts_tx_off s"
proof -
  let ?n = "min (length (ts_pending_tx s) - ts_tx_off s) TCP_LITE_MAX_PAYLOAD"
  have "unat (of_nat ?n :: u16) = ?n"
    by (intro unat_of_nat_u16) (simp add: TCP_LITE_MAX_PAYLOAD_def)
  moreover have "ts_pending_tx s' = ts_pending_tx s" "ts_tx_off s' = ts_tx_off s + unat (of_nat ?n :: u16)"
    using assms(1) by (cases "te_rdtsc env w"; auto simp: transmit_def Let_def bind_eq_Some_conv split: option.splits)+
  moreover have "0 < ?n" using assms(2) by (simp add: TCP_LITE_MAX_PAYLOAD_def)
  ultimately show ?thesis
    using assms(2) by (metis diff_less_mono2 less_add_same_cancel1)
qed

function pump_loop :: "'w tcp_env \<Rightarrow> 'w tcp_state \<Rightarrow> 'w tcp_state option" where
  "pump_loop env (s, p, w) =
     (if ts_tx_off s < length (ts_pending_tx s) \<and> ts_next_seq s - ts_snd_una s < TCP_LITE_WINDOW then
        (case pump_step env (s, p, w) of
           None \<Rightarrow> None
         | Some (False, st) \<Rightarrow> Some st
         | Some (True, st) \<Rightarrow> pump_loop env st)
      else Some (s, p, w))"
  by pat_completeness auto
termination
  by (relation "measure (\<lambda>(env, s, p, w). length (ts_pending_tx s) - ts_tx_off s)")
    (auto intro: pump_step_progress simp del: pump_step.simps)

declare pump_step.simps [simp del] pump_loop.simps [simp del]

definition pump_tx :: "'w tcp_env \<Rightarrow> 'w tcp_state \<Rightarrow> 'w tcp_state option" where
  "pump_tx env st =
     do { (s, p, w) \<leftarrow> pump_loop env st;
          Some (if ts_tx_off s > 0 \<and> ts_tx_off s = length (ts_pending_tx s)
                then s\<lparr>ts_pending_tx := [], ts_tx_off := 0\<rparr> else s, p, w) }"

fun send :: "'w tcp_env \<Rightarrow> 'w tcp_state \<Rightarrow> bytes \<Rightarrow> 'w tcp_state option" where
  "send env (s, p, w) data = pump_tx env (s\<lparr>ts_pending_tx := ts_pending_tx s @ data\<rparr>, p, w)"

section \<open>Receiving\<close>

function deliver_in_order :: "tcp_session \<Rightarrow> tcp_session" where
  "deliver_in_order s =
     (if has (ts_bitmap s) (rb_base_seq (ts_bitmap s)) then
        (let seq = rb_base_seq (ts_bitmap s);
             v = ts_reasm s ! slot_of seq
         in deliver_in_order (s\<lparr>ts_delivered := ts_delivered s @ (if ts_data_cb s then [v] else []),
              ts_bytes_received := ts_bytes_received s + of_nat (length v),
              ts_reasm := (ts_reasm s)[slot_of seq := []],
              ts_bitmap := advance (ts_bitmap s) (seq + 1)\<rparr>))
      else s)"
  by pat_completeness auto

lemma has_base: "has b (rb_base_seq b) \<longleftrightarrow> bit (rb_received b) 0"
  by (simp add: has_def sint_window)

lemma advance_one_less:
  assumes "has b (rb_base_seq b)"
  shows "unat (rb_received (advance b (rb_base_seq b + 1))) < unat (rb_received b)"
proof -
  have "rb_received (advance b (rb_base_seq b + 1)) = drop_bit 1 (rb_received b)"
    by (simp add: advance_def Let_def TCP_LITE_WINDOW_def word_le_nat_alt)
  moreover have "unat (drop_bit 1 (rb_received b)) = unat (rb_received b) div 2"
    by (simp add: drop_bit_eq_div unat_div)
  moreover have "rb_received b \<noteq> 0" using assms has_base [of b] by auto
  ultimately show ?thesis by (simp add: unat_gt_0)
qed

termination deliver_in_order
  by (relation "measure (\<lambda>s. unat (rb_received (ts_bitmap s)))") (auto simp: advance_one_less)

declare deliver_in_order.simps [simp del]

text \<open>The acknowledgement part of \<^verbatim>\<open>on_packet_received\<close>.\<close>

fun on_ack :: "'w tcp_env \<Rightarrow> 'w tcp_state \<Rightarrow> tcp_header \<Rightarrow> 'w tcp_state option" where
  "on_ack env (s, p, w) h =
     (if th_flags h AND TCP_ACK \<noteq> 0 \<and> sint (th_ack_num h - ts_snd_una s) > 0 then
        do { (sent, p1, q) \<leftarrow> mark_acked p (ts_unacked s) (th_ack_num h);
             let s1 = s\<lparr>ts_unacked := q, ts_snd_una := th_ack_num h\<rparr>;
             let (s2, w1) =
               (if sent \<noteq> 0 then
                  (let (now, w1) = te_rdtsc env w; sample = te_ns env (now - sent)
                   in (s1\<lparr>ts_rtt_ns := (if ts_rtt_ns s1 \<noteq> 0 then (7 * ts_rtt_ns s1 + sample) div 8 else sample)\<rparr>, w1))
                else (s1, w));
             pump_tx env (s2, p1, w1) }
      else Some (s, p, w))"

text \<open>The data part: the payload goes to the reassembly slot of its number.\<close>

definition on_data :: "tcp_session \<Rightarrow> u32 \<Rightarrow> bytes \<Rightarrow> tcp_session" where
  "on_data s seq payload =
     (let (fresh, b) = mark_received (ts_bitmap s) seq;
          s1 = s\<lparr>ts_bitmap := b\<rparr>;
          s2 = (if fresh then s1\<lparr>ts_reasm := (ts_reasm s1)[slot_of seq := payload]\<rparr> else s1)
      in (deliver_in_order s2)\<lparr>ts_pending_ack := True\<rparr>)"

fun on_packet_received :: "'w tcp_env \<Rightarrow> 'w tcp_state \<Rightarrow> nat \<Rightarrow> 'w tcp_state option" where
  "on_packet_received env (s, p, w) buf =
     do { h \<leftarrow> read_header p buf;
          let plen = th_payload_len h;
          payload \<leftarrow> buf_read p buf 16 (unat plen);
          if \<not> verify_checksum h payload then do { p1 \<leftarrow> release p buf; Some (s, p1, w) }
          else do {
            (s1, p1, w1) \<leftarrow> on_ack env (s, p, w) h;
            s2 \<leftarrow> (if plen > 0 then
                     do { h1 \<leftarrow> read_header p1 buf;
                          payload1 \<leftarrow> buf_read p1 buf 16 (unat plen);
                          Some (on_data s1 (th_seq_num h1) payload1) }
                   else Some s1);
            p2 \<leftarrow> release p1 buf;
            Some (s2, p2, w1) } }"

section \<open>The timer\<close>

text \<open>The loop over the expired packets.\<close>

fun retransmit :: "tcp_session \<Rightarrow> buffer_pool \<Rightarrow> u64 \<Rightarrow> u32 list \<Rightarrow> tcp_session option" where
  "retransmit s p now [] = Some s"
| "retransmit s p now (seq # seqs) =
     (case buffer_for (ts_unacked s) seq of
        None \<Rightarrow> retransmit s p now seqs
      | Some b \<Rightarrow>
          do { pkt \<leftarrow> buf_read p b 0 (unat (bd_len (bp_descs p ! b)));
               retransmit ((transmit s pkt)\<lparr>ts_unacked := touch (ts_unacked s) seq now,
                 ts_retransmits := ts_retransmits s + 1\<rparr>) p now seqs })"

fun tick :: "'w tcp_env \<Rightarrow> 'w tcp_state \<Rightarrow> 'w tcp_state option" where
  "tick env (s, p, w) =
     (let (now, w1) = te_rdtsc env w; timeout_cyc = te_cycles env (ts_rto_ns s) in
      do { s1 \<leftarrow> retransmit s p now (check_timeouts (ts_unacked s) now timeout_cyc);
           (s2, p2, w2) \<leftarrow> pump_tx env (s1, p, w1);
           Some (if ts_pending_ack s2
                 then (transmit s2 (hdr_bytes (make_ack (ts_next_seq s2) (cumulative_ack (ts_bitmap s2)))))
                        \<lparr>ts_pending_ack := False\<rparr>
                 else s2, p2, w2) })"

declare on_ack.simps [simp del] on_packet_received.simps [simp del] tick.simps [simp del] send.simps [simp del]

end
