(* ===== verification/Tcp_Endpoint.thy ===== *)
theory Tcp_Endpoint
  imports Tcp_Session "HOL-Library.Sublist"
begin

unbundle bit_operations_syntax

text \<open>
  The invariant of one TCP-Lite session and that every operation keeps it. The ghost variables are
  \<open>own\<close>, the payloads of the packets this side has numbered so far, \<open>peer\<close>, the payloads the other
  side has numbered so far, and \<open>stream\<close>, the bytes handed to \<^verbatim>\<open>send\<close>. The invariant says that the packets
  \<open>u\<close> to \<open>length own - 1\<close> sit unchanged in buffers of the send window, that every packet ever
  transmitted is a well-formed packet of \<open>own\<close>, that the bytes numbered or still pending are exactly
  \<open>stream\<close>, that the blocks delivered are the first \<open>k\<close> payloads of the peer, and that every buffer of
  the pool is free, in the send window, or held outside the session.
\<close>

section \<open>Packets\<close>

definition data_header :: "nat \<Rightarrow> nat \<Rightarrow> bytes \<Rightarrow> tcp_header" where
  "data_header i a c = compute_checksum (make_data (of_nat i) (of_nat a) (of_nat (length c))) c"

definition data_pkt :: "nat \<Rightarrow> nat \<Rightarrow> bytes \<Rightarrow> bytes" where
  "data_pkt i a c = hdr_bytes (data_header i a c) @ c"

definition ack_pkt :: "nat \<Rightarrow> nat \<Rightarrow> bytes" where
  "ack_pkt i a = hdr_bytes (make_ack (of_nat i) (of_nat a))"

text \<open>A packet this side may have transmitted: payload \<open>i\<close> of \<open>own\<close>, acknowledging at most \<open>m\<close> packets.\<close>

inductive legal_pkt :: "bytes list \<Rightarrow> nat \<Rightarrow> bytes \<Rightarrow> bool" for own m where
  legal_data: "i < length own \<Longrightarrow> a \<le> m \<Longrightarrow> legal_pkt own m (data_pkt i a (own ! i))"
| legal_ack: "i \<le> length own \<Longrightarrow> a \<le> m \<Longrightarrow> legal_pkt own m (ack_pkt i a)"

definition chunk_ok :: "bytes \<Rightarrow> bool" where
  "chunk_ok c \<longleftrightarrow> 0 < length c \<and> length c \<le> TCP_LITE_MAX_PAYLOAD"

lemma length_data_pkt [simp]: "length (data_pkt i a c) = 16 + length c"
  by (simp add: data_pkt_def)

lemma length_ack_pkt [simp]: "length (ack_pkt i a) = 16"
  by (simp add: ack_pkt_def)

lemma legal_pkt_mono: "legal_pkt own m pkt \<Longrightarrow> m \<le> m' \<Longrightarrow> legal_pkt (own @ new) m' pkt"
proof (induction rule: legal_pkt.induct)
  case (legal_data i a)
  then show ?case
    using legal_pkt.legal_data [of i "own @ new" a m'] by (simp add: nth_append)
next
  case (legal_ack i a)
  then show ?case by (auto intro: legal_pkt.legal_ack)
qed

section \<open>Writing a packet into a buffer\<close>

lemma checksum_splice: "take 12 (hdr_bytes h) @ le32 (th_checksum (compute_checksum h c)) = hdr_bytes (compute_checksum h c)"
  by (simp add: hdr_bytes_def compute_checksum_def Let_def)

lemma fill_packet_at:
  assumes "pool_ok p" "b < length (bp_descs p)" "16 + length c \<le> unat (bp_buffer_size p)"
  shows "\<exists>p'. fill_packet p b h c = Some p' \<and> pool_keeps p p' {b} \<and> pool_free p' = pool_free p \<and>
    bd_len (bp_descs p' ! b) = of_nat (16 + length c) \<and>
    take (16 + length c) (bd_bytes (bp_descs p' ! b)) = hdr_bytes (compute_checksum h c) @ c"
proof -
  define B where "B = drop (16 + length c) (bd_bytes (bp_descs p ! b))"
  obtain p1 where p1: "buf_write p b 0 (hdr_bytes h) = Some p1" "pool_keeps p p1 {b}" "pool_free p1 = pool_free p"
      "bd_bytes (bp_descs p1 ! b) = hdr_bytes h @ drop 16 (bd_bytes (bp_descs p ! b))"
    using buf_write_at [OF assms(1,2), of 0 "hdr_bytes h"] assms(3) by auto
  have ok1: "pool_ok p1" "b < length (bp_descs p1)" "bp_buffer_size p1 = bp_buffer_size p"
    using p1(2) assms(2) by (simp_all add: pool_keeps_def)
  obtain p2 where p2: "buf_write p1 b 16 c = Some p2" "pool_keeps p1 p2 {b}" "pool_free p2 = pool_free p1"
      "bd_bytes (bp_descs p2 ! b) = hdr_bytes h @ c @ B"
    using buf_write_at [OF ok1(1,2), of 16 c] assms(3) p1(4) ok1(3) by (auto simp: B_def add.commute)
  have ok2: "pool_ok p2" "b < length (bp_descs p2)" "bp_buffer_size p2 = bp_buffer_size p"
    using p2(2) ok1 by (simp_all add: pool_keeps_def)
  have rd: "read_header p2 b = Some h" "buf_read p2 b 16 (length c) = Some c"
    using buf_read_take [OF ok2(1,2), of 0 16] buf_read_take [OF ok2(1,2), of 16 "length c"] assms(3) p2(4) ok2(3)
    by (simp_all add: read_header_def)
  let ?cs = "le32 (th_checksum (compute_checksum h c))"
  obtain p3 where p3: "buf_write p2 b 12 ?cs = Some p3" "pool_keeps p2 p3 {b}" "pool_free p3 = pool_free p2"
      "bd_bytes (bp_descs p3 ! b) = (take 12 (hdr_bytes h) @ ?cs) @ c @ B"
    using buf_write_at [OF ok2(1,2), of 12 ?cs] assms(3) p2(4) ok2(3) by auto
  have ok3: "pool_ok p3" "b < length (bp_descs p3)"
    using p3(2) ok2 by (simp_all add: pool_keeps_def)
  obtain p4 where p4: "buf_set_len p3 b (of_nat (16 + length c)) = Some p4" "pool_keeps p3 p4 {b}"
      "pool_free p4 = pool_free p3" "bd_bytes (bp_descs p4 ! b) = bd_bytes (bp_descs p3 ! b)"
      "bd_len (bp_descs p4 ! b) = of_nat (16 + length c)"
    using buf_set_len_at [OF ok3] by blast
  have "fill_packet p b h c = Some p4"
    using p1(1) p2(1) rd p3(1) p4(1) by (simp add: fill_packet_def)
  moreover have "pool_keeps p p4 {b}"
    using p1(2) p2(2) p3(2) p4(2) pool_keeps_trans1 by metis
  moreover have "take (16 + length c) (bd_bytes (bp_descs p4 ! b)) = hdr_bytes (compute_checksum h c) @ c"
    unfolding p4(4) p3(4) checksum_splice by simp
  ultimately show ?thesis
    using p1(3) p2(3) p3(3) p4(3,5) by auto
qed

section \<open>The invariant\<close>

definition pkt_in :: "buffer_pool \<Rightarrow> nat \<Rightarrow> nat \<Rightarrow> nat \<Rightarrow> bytes \<Rightarrow> bool" where
  "pkt_in p b i m c \<longleftrightarrow> (\<exists>a \<le> m. bd_len (bp_descs p ! b) = of_nat (16 + length c) \<and>
     take (16 + length c) (bd_bytes (bp_descs p ! b)) = data_pkt i a c)"

text \<open>The buffers: those of the send window, those held outside (\<open>F\<close>), and the free ones.\<close>

definition buffers_ok :: "buffer_pool \<Rightarrow> (nat \<Rightarrow> nat) \<Rightarrow> nat \<Rightarrow> nat \<Rightarrow> nat set \<Rightarrow> bool" where
  "buffers_ok p bf u n F \<longleftrightarrow> pool_ok p \<and> 1040 \<le> unat (bp_buffer_size p) \<and> inj_on bf {u..<n} \<and>
     (\<forall>i \<in> {u..<n}. held p (bf i) \<and> bf i \<notin> F) \<and> (\<forall>c \<in> F. held p c) \<and>
     {..<length (bp_descs p)} \<subseteq> set (pool_free p) \<union> bf ` {u..<n} \<union> F"

definition send_ok ::
  "tcp_session \<Rightarrow> buffer_pool \<Rightarrow> bytes list \<Rightarrow> nat \<Rightarrow> (nat \<Rightarrow> nat) \<Rightarrow> nat \<Rightarrow> nat set \<Rightarrow> bool" where
  "send_ok s p own m bf u F \<longleftrightarrow> buffers_ok p bf u (length own) F \<and>
     ts_next_seq s = of_nat (length own) \<and> ts_snd_una s = of_nat u \<and>
     uq_rel (ts_unacked s) u (length own) bf \<and>
     (\<forall>i \<in> {u..<length own}. pkt_in p (bf i) i m (own ! i)) \<and>
     list_all chunk_ok own \<and> (\<forall>pkt \<in> set (ts_out s). legal_pkt own m pkt)"

definition stream_ok :: "tcp_session \<Rightarrow> bytes list \<Rightarrow> bytes \<Rightarrow> bool" where
  "stream_ok s own stream \<longleftrightarrow> ts_tx_off s \<le> length (ts_pending_tx s) \<and>
     concat own @ drop (ts_tx_off s) (ts_pending_tx s) = stream \<and>
     ts_bytes_sent s = of_nat (length (concat own))"

definition recv_ok :: "tcp_session \<Rightarrow> bytes list \<Rightarrow> nat \<Rightarrow> nat set \<Rightarrow> bool" where
  "recv_ok s peer k R \<longleftrightarrow> window_rel (ts_bitmap s) k R \<and> R \<subseteq> {..<length peer} \<and> k \<le> length peer \<and>
     length (ts_reasm s) = 256 \<and> (\<forall>i \<in> R. ts_reasm s ! (i mod 256) = peer ! i) \<and>
     ts_bytes_received s = of_nat (length (concat (take k peer))) \<and>
     (ts_data_cb s \<longrightarrow> ts_delivered s = take k peer)"

text \<open>The part of the session that only reception changes.\<close>

definition recv_part :: "tcp_session \<Rightarrow> recv_bitmap \<times> bytes list \<times> u64 \<times> bool \<times> bytes list" where
  "recv_part s = (ts_bitmap s, ts_reasm s, ts_bytes_received s, ts_data_cb s, ts_delivered s)"

lemma recv_ok_part: "recv_part s' = recv_part s \<Longrightarrow> recv_ok s' peer k R \<longleftrightarrow> recv_ok s peer k R"
  by (simp add: recv_part_def recv_ok_def)

definition keeps_foreign :: "buffer_pool \<Rightarrow> buffer_pool \<Rightarrow> nat set \<Rightarrow> bool" where
  "keeps_foreign p p' F \<longleftrightarrow> length (bp_descs p') = length (bp_descs p) \<and>
     (\<forall>c \<in> F. bp_descs p' ! c = bp_descs p ! c)"

lemma keeps_foreign_refl [simp]: "keeps_foreign p p F"
  by (simp add: keeps_foreign_def)

lemma keeps_foreign_trans: "keeps_foreign p p1 F \<Longrightarrow> keeps_foreign p1 p2 F \<Longrightarrow> keeps_foreign p p2 F"
  by (simp add: keeps_foreign_def)

lemma send_okD:
  assumes "send_ok s p own m bf u F"
  shows "pool_ok p" "1040 \<le> unat (bp_buffer_size p)" "inj_on bf {u..<length own}"
    and "i \<in> {u..<length own} \<Longrightarrow> held p (bf i)" "i \<in> {u..<length own} \<Longrightarrow> bf i \<notin> F"
    and "c \<in> F \<Longrightarrow> held p c" "{..<length (bp_descs p)} \<subseteq> set (pool_free p) \<union> bf ` {u..<length own} \<union> F"
    and "ts_next_seq s = of_nat (length own)" "ts_snd_una s = of_nat u"
    and "uq_rel (ts_unacked s) u (length own) bf" "u \<le> length own" "length own \<le> u + 256"
    and "i \<in> {u..<length own} \<Longrightarrow> pkt_in p (bf i) i m (own ! i)"
    and "list_all chunk_ok own" "\<forall>pkt \<in> set (ts_out s). legal_pkt own m pkt"
  using assms by (auto simp: send_ok_def buffers_ok_def uq_rel_def)

section \<open>Sending\<close>

text \<open>Taking a free buffer into the send window.\<close>

lemma buffers_ok_take:
  assumes "buffers_ok p bf u n F" "pool_free p = b # bs" "pool_keeps p p' {b}" "pool_free p' = bs" "u \<le> n"
  shows "buffers_ok p' (bf(n := b)) u (Suc n) F" "b \<notin> F" "b \<notin> bf ` {u..<n}" "b < length (bp_descs p)"
proof -
  note ok = assms(1) [unfolded buffers_ok_def]
  have p: "pool_ok p" using ok by simp
  have b: "b \<notin> set bs" "b < length (bp_descs p)"
    using pool_okD(5) [OF p] pool_free_less [OF p] assms(2) by auto
  show nF: "b \<notin> F" and nbf: "b \<notin> bf ` {u..<n}"
    using ok assms(2) by (auto simp: held_def)
  show "b < length (bp_descs p)" by (rule b)
  have held: "held p' c" if "held p c" for c
    using that assms(2,3,4) by (auto simp: held_def pool_keeps_def)
  have heldb: "held p' b" using b assms(3,4) by (simp add: held_def pool_keeps_def)
  have "inj_on (bf(n := b)) {u..<Suc n}"
    using ok nbf assms(5) by (auto simp: atLeastLessThanSuc inj_on_def)
  moreover have "\<forall>i \<in> {u..<Suc n}. held p' ((bf(n := b)) i) \<and> (bf(n := b)) i \<notin> F"
    using ok held heldb nF by (auto simp: less_Suc_eq)
  moreover have "bf ` {u..<n} \<subseteq> (bf(n := b)) ` {u..<Suc n}" "b \<in> (bf(n := b)) ` {u..<Suc n}"
    using assms(5) by (force, simp)
  then have "{..<length (bp_descs p')} \<subseteq> set (pool_free p') \<union> (bf(n := b)) ` {u..<Suc n} \<union> F"
    using ok assms(2,3,4) by (auto simp: pool_keeps_def)
  ultimately show "buffers_ok p' (bf(n := b)) u (Suc n) F"
    using ok held assms(3) by (simp add: buffers_ok_def pool_keeps_def)
qed

text \<open>The payload the next packet carries.\<close>

definition next_chunk :: "tcp_session \<Rightarrow> bytes" where
  "next_chunk s = take TCP_LITE_MAX_PAYLOAD (drop (ts_tx_off s) (ts_pending_tx s))"

lemma next_chunk_ok: "ts_tx_off s < length (ts_pending_tx s) \<Longrightarrow> chunk_ok (next_chunk s)"
  by (simp add: next_chunk_def chunk_ok_def TCP_LITE_MAX_PAYLOAD_def)

lemma take_next_chunk: "take (length (next_chunk s)) (drop (ts_tx_off s) (ts_pending_tx s)) = next_chunk s"
  by (simp add: next_chunk_def min_def)

lemma plen_word:
  "(of_nat (min (length (ts_pending_tx s) - ts_tx_off s) TCP_LITE_MAX_PAYLOAD) :: u16) = of_nat (length (next_chunk s))"
  by (simp add: next_chunk_def min.commute)

lemma len_word:
  assumes "n \<le> 1024"
  shows "unat (of_nat n :: u16) = n" "(ucast (of_nat n :: u16) :: u64) = of_nat n"
proof -
  show u: "unat (of_nat n :: u16) = n" using assms by (intro unat_of_nat_u16) simp
  then show "(ucast (of_nat n :: u16) :: u64) = of_nat n" by (metis of_nat_unat)
qed

text \<open>One pass of the loop: the pool is exhausted, or the next packet has been numbered and sent.\<close>

definition sent_session :: "tcp_session \<Rightarrow> nat \<Rightarrow> nat \<Rightarrow> unacked_queue \<Rightarrow> tcp_session" where
  "sent_session s n a q = (transmit s (data_pkt n a (next_chunk s)))\<lparr>ts_unacked := q,
     ts_bytes_sent := ts_bytes_sent s + of_nat (length (next_chunk s)),
     ts_tx_off := ts_tx_off s + length (next_chunk s), ts_next_seq := ts_next_seq s + 1\<rparr>"

lemma pump_step_result:
  assumes "send_ok s p own m bf u F" "ts_tx_off s < length (ts_pending_tx s)" "length own < u + 256"
    and "cumulative_ack (ts_bitmap s) = of_nat a"
  shows "(\<exists>p'. pool_free p = [] \<and> pump_step env (s, p, w) = Some (False, s, p', w) \<and>
      p' = p\<lparr>bp_exhausted := bp_exhausted p + 1\<rparr>) \<or>
    (\<exists>b bs p' q w'. pool_free p = b # bs \<and>
      pump_step env (s, p, w) = Some (True, sent_session s (length own) a q, p', w') \<and>
      pool_keeps p p' {b} \<and> pool_free p' = bs \<and> uq_rel q u (Suc (length own)) (bf(length own := b)) \<and>
      bd_len (bp_descs p' ! b) = of_nat (16 + length (next_chunk s)) \<and>
      take (16 + length (next_chunk s)) (bd_bytes (bp_descs p' ! b)) = data_pkt (length own) a (next_chunk s))"
proof (cases "pool_free p")
  case Nil
  then show ?thesis
    using acquire_Nil [OF send_okD(1) [OF assms(1)] Nil] by (simp add: pump_step.simps)
next
  case (Cons b bs)
  note ok = send_okD [OF assms(1)]
  let ?c = "next_chunk s" let ?n = "length own"
  let ?h = "make_data (ts_next_seq s) (of_nat a) (of_nat (length ?c))"
  obtain p1 where p1: "acquire p = Some (Some b, p1)" "pool_ok p1" "pool_free p1 = bs"
      "bp_descs p1 = bp_descs p" "bp_buffer_size p1 = bp_buffer_size p"
    using acquire_Cons [OF ok(1) Cons] by blast
  have b: "b < length (bp_descs p1)" using pool_free_less [OF ok(1)] Cons p1(4) by simp
  have c: "length ?c \<le> 1024" using next_chunk_ok [OF assms(2)] by (simp add: chunk_ok_def TCP_LITE_MAX_PAYLOAD_def)
  obtain p2 where p2: "fill_packet p1 b ?h ?c = Some p2" "pool_keeps p1 p2 {b}" "pool_free p2 = bs"
      "bd_len (bp_descs p2 ! b) = of_nat (16 + length ?c)"
      "take (16 + length ?c) (bd_bytes (bp_descs p2 ! b)) = data_pkt ?n a ?c"
    using fill_packet_at [OF p1(2) b, of ?c ?h] c ok(2,8) p1(3,5)
    by (auto simp: data_pkt_def data_header_def)
  obtain now w' where t: "te_rdtsc env w = (now, w')" by fastforce
  obtain q where q: "mark_sent p2 (ts_unacked s) (ts_next_seq s) b now = Some (p2, q)"
      "uq_rel q u (Suc ?n) (bf(?n := b))"
    using mark_sent_rel [OF ok(10) assms(3), of p2 b now] ok(8) by auto
  have "unat (bd_len (bp_descs p2 ! b)) = 16 + length ?c"
    unfolding p2(4) using c by (intro unat_of_nat_u32) simp
  moreover have "16 + length ?c \<le> unat (bp_buffer_size p2)" "pool_ok p2" "b < length (bp_descs p2)"
    using p2(2) p1(5) ok(2) c b by (simp_all add: pool_keeps_def)
  ultimately have rd: "buf_read p2 b 0 (unat (bd_len (bp_descs p2 ! b))) = Some (data_pkt ?n a ?c)"
    using buf_read_take [of p2 b 0 "16 + length ?c"] p2(5) by simp
  have "pump_step env (s, p, w) = Some (True, sent_session s ?n a q, p2, w')"
    using p1(1) p2(1) t q(1) rd assms(4)
    by (simp add: pump_step.simps Let_def take_next_chunk plen_word len_word [OF c] sent_session_def)
  moreover have "pool_keeps p p2 {b}"
    using p2(2) p1(4,5) by (simp add: pool_keeps_def)
  ultimately show ?thesis
    using Cons p2(3-5) q(2) by blast
qed

lemma sent_session_fields [simp]:
  "recv_part (sent_session s n a q) = recv_part s" "ts_pending_ack (sent_session s n a q) = ts_pending_ack s"
  "ts_snd_una (sent_session s n a q) = ts_snd_una s" "ts_rto_ns (sent_session s n a q) = ts_rto_ns s"
  "ts_bitmap (sent_session s n a q) = ts_bitmap s"
  by (simp_all add: sent_session_def recv_part_def transmit_def)

lemma sent_session_ok:
  assumes "send_ok s p own m bf u F" "ts_tx_off s < length (ts_pending_tx s)" "a \<le> m"
    and "pool_free p = b # bs" "pool_keeps p p' {b}" "pool_free p' = bs"
    and "uq_rel q u (Suc (length own)) (bf(length own := b))"
    and "bd_len (bp_descs p' ! b) = of_nat (16 + length (next_chunk s))"
    and "take (16 + length (next_chunk s)) (bd_bytes (bp_descs p' ! b)) = data_pkt (length own) a (next_chunk s)"
  shows "send_ok (sent_session s (length own) a q) p' (own @ [next_chunk s]) m (bf(length own := b)) u F"
    and "keeps_foreign p p' F"
proof -
  let ?n = "length own" let ?c = "next_chunk s"
  note ok = send_okD [OF assms(1)]
  have "buffers_ok p bf u ?n F" using assms(1) by (simp add: send_ok_def)
  note take = buffers_ok_take [OF this assms(4,5,6) ok(11)]
  have pkts: "pkt_in p' ((bf(?n := b)) i) i m ((own @ [?c]) ! i)" if "i \<in> {u..<Suc ?n}" for i
  proof (cases "i = ?n")
    case True
    then show ?thesis using assms(3,8,9) by (auto simp: pkt_in_def)
  next
    case False
    then have i: "i \<in> {u..<?n}" using that by auto
    then have "bp_descs p' ! bf i = bp_descs p ! bf i"
      using take(3) assms(5) by (auto simp: pool_keeps_def)
    then show ?thesis using ok(13) [OF i] i by (simp add: pkt_in_def nth_append)
  qed
  have "legal_pkt (own @ [?c]) m (data_pkt ?n a ?c)"
    using legal_data [of ?n "own @ [?c]" a m] assms(3) by simp
  then have "\<forall>pkt \<in> set (ts_out (sent_session s ?n a q)). legal_pkt (own @ [?c]) m pkt"
    using ok(15) legal_pkt_mono [of own m _ m "[?c]"] by (auto simp: sent_session_def transmit_def)
  then show "send_ok (sent_session s ?n a q) p' (own @ [?c]) m (bf(?n := b)) u F"
    using take(1) ok(8,9,14) assms(2,7) pkts next_chunk_ok
    by (simp add: send_ok_def sent_session_def transmit_def add.commute)
  show "keeps_foreign p p' F"
    using take(2) assms(5) by (auto simp: keeps_foreign_def pool_keeps_def)
qed

lemma sent_session_stream:
  assumes "stream_ok s own stream" "ts_tx_off s < length (ts_pending_tx s)"
  shows "stream_ok (sent_session s n a q) (own @ [next_chunk s]) stream"
proof -
  have "next_chunk s @ drop (ts_tx_off s + length (next_chunk s)) (ts_pending_tx s) = drop (ts_tx_off s) (ts_pending_tx s)"
    using take_next_chunk [of s] by (metis append_take_drop_id drop_drop add.commute)
  moreover have "ts_tx_off s + length (next_chunk s) \<le> length (ts_pending_tx s)"
    using assms(2) by (simp add: next_chunk_def)
  ultimately show ?thesis
    using assms(1) by (simp add: stream_ok_def sent_session_def transmit_def)
qed

lemma exhausted_ok:
  "send_ok s p own m bf u F \<Longrightarrow> send_ok s (p\<lparr>bp_exhausted := e\<rparr>) own m bf u F"
proof -
  have "pool_free (p\<lparr>bp_exhausted := e\<rparr>) = pool_free p" "desc_ok (p\<lparr>bp_exhausted := e\<rparr>) = desc_ok p"
    by (simp_all add: pool_free_def desc_ok_def fun_eq_iff)
  moreover from this have "pool_ok (p\<lparr>bp_exhausted := e\<rparr>) = pool_ok p"
    by (simp add: pool_ok_def)
  ultimately show "send_ok s p own m bf u F \<Longrightarrow> send_ok s (p\<lparr>bp_exhausted := e\<rparr>) own m bf u F"
    by (simp add: send_ok_def buffers_ok_def held_def pkt_in_def)
qed

lemma window_test:
  assumes "send_ok s p own m bf u F"
  shows "ts_next_seq s - ts_snd_una s < TCP_LITE_WINDOW \<longleftrightarrow> length own < u + 256"
proof -
  note ok = send_okD [OF assms]
  have "ts_next_seq s - ts_snd_una s = of_nat (length own - u)"
    using ok(8,9,11) by (simp add: of_nat_diff)
  moreover have "unat (of_nat (length own - u) :: u32) = length own - u"
    using ok(12) by (intro unat_of_nat_u32) simp
  ultimately show ?thesis
    using ok(11) by (auto simp: word_less_nat_alt sint_window)
qed

text \<open>
  What the whole loop achieves: it always returns; it numbers and sends further packets \<open>new\<close>, and it
  stops only when nothing is left to send, the window of 256 packets is full, or the pool is empty.
\<close>

definition pump_result ::
  "tcp_session \<Rightarrow> buffer_pool \<Rightarrow> tcp_session \<Rightarrow> buffer_pool \<Rightarrow> bytes list \<Rightarrow> bytes list \<Rightarrow> bytes \<Rightarrow>
   nat \<Rightarrow> (nat \<Rightarrow> nat) \<Rightarrow> nat \<Rightarrow> nat set \<Rightarrow> bool" where
  "pump_result s p s' p' own new stream m bf u F \<longleftrightarrow>
     send_ok s' p' (own @ new) m bf u F \<and> stream_ok s' (own @ new) stream \<and>
     recv_part s' = recv_part s \<and> ts_pending_ack s' = ts_pending_ack s \<and> ts_rto_ns s' = ts_rto_ns s \<and>
     keeps_foreign p p' F"

definition stalled :: "tcp_session \<Rightarrow> buffer_pool \<Rightarrow> bytes list \<Rightarrow> nat \<Rightarrow> bool" where
  "stalled s p own u \<longleftrightarrow>
     ts_tx_off s = length (ts_pending_tx s) \<or> length own = u + 256 \<or> pool_free p = []"

lemma pump_loop_stops:
  assumes "send_ok s p own m bf u F" "stream_ok s own stream"
    and "\<not> (ts_tx_off s < length (ts_pending_tx s) \<and> ts_next_seq s - ts_snd_una s < TCP_LITE_WINDOW)"
  shows "pump_loop env (s, p, w) = Some (s, p, w)" "pump_result s p s p own [] stream m bf u F" "stalled s p own u"
proof -
  show "pump_loop env (s, p, w) = Some (s, p, w)" using assms(3) by (subst pump_loop.simps) auto
  show "pump_result s p s p own [] stream m bf u F" using assms(1,2) by (simp add: pump_result_def)
  show "stalled s p own u"
    using assms(3) window_test [OF assms(1)] assms(2) send_okD(12) [OF assms(1)] by (auto simp: stream_ok_def stalled_def)
qed

lemma pump_loop_ok:
  assumes "send_ok s p own m bf u F" "stream_ok s own stream"
    and "cumulative_ack (ts_bitmap s) = of_nat a" "a \<le> m"
  shows "\<exists>s' p' w' new bf'. pump_loop env (s, p, w) = Some (s', p', w') \<and>
    pump_result s p s' p' own new stream m bf' u F \<and> stalled s' p' (own @ new) u"
  using assms
proof (induction env "(s, p, w)" arbitrary: s p w own bf rule: pump_loop.induct)
  case (1 env s p w)
  show ?case
  proof (cases "ts_tx_off s < length (ts_pending_tx s) \<and> ts_next_seq s - ts_snd_una s < TCP_LITE_WINDOW")
    case False
    note stop = pump_loop_stops [OF "1.prems"(1,2) False]
    show ?thesis
      using stop by (intro exI [of _ s] exI [of _ p] exI [of _ w] exI [of _ "[]"] exI [of _ bf]) simp
  next
    case True
    then have n: "ts_tx_off s < length (ts_pending_tx s)" "length own < u + 256"
      using window_test [OF "1.prems"(1)] by auto
    consider p' where "pool_free p = []" "pump_step env (s, p, w) = Some (False, s, p', w)"
        "p' = p\<lparr>bp_exhausted := bp_exhausted p + 1\<rparr>"
      | b bs p' q w' where "pool_free p = b # bs"
        "pump_step env (s, p, w) = Some (True, sent_session s (length own) a q, p', w')"
        "pool_keeps p p' {b}" "pool_free p' = bs" "uq_rel q u (Suc (length own)) (bf(length own := b))"
        "bd_len (bp_descs p' ! b) = of_nat (16 + length (next_chunk s))"
        "take (16 + length (next_chunk s)) (bd_bytes (bp_descs p' ! b)) = data_pkt (length own) a (next_chunk s)"
      using pump_step_result [OF "1.prems"(1) n "1.prems"(3), of env w] by blast
    then show ?thesis
    proof cases
      case 1
      then have "pump_loop env (s, p, w) = Some (s, p', w)"
        using True by (subst pump_loop.simps) simp
      moreover have "pool_free p' = []" using 1 by (simp add: pool_free_def)
      moreover have "send_ok s p' own m bf u F"
        using exhausted_ok [OF "1.prems"(1)] 1(3) by blast
      ultimately show ?thesis
        using "1.prems" 1(3) by (intro exI [of _ s] exI [of _ p'] exI [of _ w] exI [of _ "[]"] exI [of _ bf])
          (simp add: pump_result_def stalled_def keeps_foreign_def)
    next
      case 2
      let ?s = "sent_session s (length own) a q"
      have step: "send_ok ?s p' (own @ [next_chunk s]) m (bf(length own := b)) u F" "keeps_foreign p p' F"
        using sent_session_ok [OF "1.prems"(1) n(1) "1.prems"(4) 2(1,3-7)] by simp_all
      have "stream_ok ?s (own @ [next_chunk s]) stream"
        using sent_session_stream [OF "1.prems"(2) n(1)] by simp
      then obtain s2 p2 w2 new bf2 where r: "pump_loop env (?s, p', w') = Some (s2, p2, w2)"
          "pump_result ?s p' s2 p2 (own @ [next_chunk s]) new stream m bf2 u F"
          "stalled s2 p2 ((own @ [next_chunk s]) @ new) u"
        using "1.hyps" [OF True 2(2) refl _ step(1)] "1.prems"(3,4)
        by (metis sent_session_fields(5))
      have "pump_loop env (s, p, w) = Some (s2, p2, w2)"
        using True 2(2) r(1) by (subst pump_loop.simps) simp
      moreover have "pump_result s p s2 p2 own (next_chunk s # new) stream m bf2 u F"
        using r(2) keeps_foreign_trans [OF step(2)] by (simp add: pump_result_def)
      ultimately show ?thesis using r(3) by (intro exI [of _ s2] exI [of _ p2] exI [of _ w2]) auto
    qed
  qed
qed

lemma pump_tx_ok:
  assumes "send_ok s p own m bf u F" "stream_ok s own stream"
    and "cumulative_ack (ts_bitmap s) = of_nat a" "a \<le> m"
  shows "\<exists>s' p' w' new bf'. pump_tx env (s, p, w) = Some (s', p', w') \<and>
    pump_result s p s' p' own new stream m bf' u F \<and> stalled s' p' (own @ new) u"
proof -
  obtain s1 p' w' new bf' where l: "pump_loop env (s, p, w) = Some (s1, p', w')"
      "pump_result s p s1 p' own new stream m bf' u F" "stalled s1 p' (own @ new) u"
    using pump_loop_ok [OF assms, of env w] by blast
  let ?s = "if ts_tx_off s1 > 0 \<and> ts_tx_off s1 = length (ts_pending_tx s1)
    then s1\<lparr>ts_pending_tx := [], ts_tx_off := 0\<rparr> else s1"
  have "pump_tx env (s, p, w) = Some (?s, p', w')" using l(1) by (simp add: pump_tx_def)
  moreover have "pump_result s p ?s p' own new stream m bf' u F"
    using l(2) by (auto simp: pump_result_def send_ok_def stream_ok_def recv_part_def)
  moreover have "stalled ?s p' (own @ new) u" using l(3) by (simp add: stalled_def)
  ultimately show ?thesis by blast
qed

lemma pump_step_out: "pump_step env (s, p, w) = Some (r, s', p', w') \<Longrightarrow> prefix (ts_out s) (ts_out s')"
  by (cases "te_rdtsc env w") (auto simp: pump_step.simps transmit_def Let_def bind_eq_Some_conv split: option.splits)

lemma pump_loop_out: "pump_loop env (s, p, w) = Some (s', p', w') \<Longrightarrow> prefix (ts_out s) (ts_out s')"
proof (induction env "(s, p, w)" arbitrary: s p w rule: pump_loop.induct)
  case (1 env s p w)
  then show ?case
    by (subst (asm) (2) pump_loop.simps)
      (auto split: if_splits option.splits bool.splits dest: pump_step_out intro: prefix_order.trans [OF pump_step_out])
qed

lemma pump_tx_out: "pump_tx env (s, p, w) = Some (s', p', w') \<Longrightarrow> prefix (ts_out s) (ts_out s')"
  by (auto simp: pump_tx_def bind_eq_Some_conv dest!: pump_loop_out)

text \<open>The part of the session that only sending and acknowledgements change.\<close>

definition send_part ::
  "tcp_session \<Rightarrow> unacked_queue \<times> bytes \<times> nat \<times> u32 \<times> u32 \<times> u64 \<times> bytes list" where
  "send_part s = (ts_unacked s, ts_pending_tx s, ts_tx_off s, ts_next_seq s, ts_snd_una s, ts_bytes_sent s, ts_out s)"

lemma send_ok_part: "send_part s' = send_part s \<Longrightarrow> send_ok s' p own m bf u F \<longleftrightarrow> send_ok s p own m bf u F"
  by (simp add: send_part_def send_ok_def)

lemma stream_ok_part: "send_part s' = send_part s \<Longrightarrow> stream_ok s' own stream \<longleftrightarrow> stream_ok s own stream"
  by (simp add: send_part_def stream_ok_def)

lemma pkt_in_mono: "pkt_in p b i m c \<Longrightarrow> m \<le> m' \<Longrightarrow> pkt_in p b i m' c"
  unfolding pkt_in_def using order_trans by blast

lemma send_ok_mono: "send_ok s p own m bf u F \<Longrightarrow> m \<le> m' \<Longrightarrow> send_ok s p own m' bf u F"
  using legal_pkt_mono [of own m _ m' "[]"] pkt_in_mono [of p _ _ m _ m'] by (simp add: send_ok_def)

section \<open>Receiving data\<close>

lemma recv_okD:
  assumes "recv_ok s peer k R"
  shows "window_rel (ts_bitmap s) k R" "R \<subseteq> {..<length peer}" "k \<le> length peer" "R \<subseteq> {k..<k + 256}"
    and "length (ts_reasm s) = 256" "i \<in> R \<Longrightarrow> ts_reasm s ! (i mod 256) = peer ! i"
    and "ts_bytes_received s = of_nat (length (concat (take k peer)))"
    and "ts_data_cb s \<Longrightarrow> ts_delivered s = take k peer" "rb_base_seq (ts_bitmap s) = of_nat k"
  using assms by (auto simp: recv_ok_def window_rel_def)

text \<open>One pass of the loop of \<^verbatim>\<open>deliver_in_order\<close>.\<close>

definition deliver_step :: "tcp_session \<Rightarrow> tcp_session" where
  "deliver_step s =
     (let seq = rb_base_seq (ts_bitmap s); v = ts_reasm s ! slot_of seq
      in s\<lparr>ts_delivered := ts_delivered s @ (if ts_data_cb s then [v] else []),
           ts_bytes_received := ts_bytes_received s + of_nat (length v),
           ts_reasm := (ts_reasm s)[slot_of seq := []], ts_bitmap := advance (ts_bitmap s) (seq + 1)\<rparr>)"

lemma deliver_step_simp:
  "deliver_in_order s = (if has (ts_bitmap s) (rb_base_seq (ts_bitmap s)) then deliver_in_order (deliver_step s) else s)"
  by (subst deliver_in_order.simps) (simp add: deliver_step_def Let_def)

lemma deliver_induct:
  assumes "\<And>s. (has (ts_bitmap s) (rb_base_seq (ts_bitmap s)) \<Longrightarrow> P (deliver_step s)) \<Longrightarrow> P s"
  shows "P s"
proof (induction s rule: deliver_in_order.induct)
  case (1 s)
  show ?case by (rule assms) (simp add: deliver_step_def Let_def "1.IH")
qed

lemma deliver_step_ok:
  assumes "recv_ok s peer k R" "k \<in> R"
  shows "recv_ok (deliver_step s) peer (Suc k) (R - {k})"
proof -
  note ok = recv_okD [OF assms(1)]
  have k: "k < length peer" using ok(2) assms(2) by auto
  have v: "deliver_step s = s\<lparr>ts_delivered := ts_delivered s @ (if ts_data_cb s then [peer ! k] else []),
      ts_bytes_received := ts_bytes_received s + of_nat (length (peer ! k)),
      ts_reasm := (ts_reasm s)[k mod 256 := []], ts_bitmap := advance (ts_bitmap s) (of_nat k + 1)\<rparr>"
    using ok(6) [OF assms(2)] ok(9) by (simp add: deliver_step_def slot_of_nat Let_def)
  have "(ts_reasm s)[k mod 256 := []] ! (i mod 256) = peer ! i" if "i \<in> R - {k}" for i
    using that ok(4,6) assms(2) mod_window_inj [of i k] by (subst nth_list_update_neq) auto
  moreover have "take (Suc k) peer = take k peer @ [peer ! k]"
    using k by (rule take_Suc_conv_app_nth)
  ultimately show ?thesis
    using ok bitmap.adv_one [OF ok(1)] k
    by (auto simp: recv_ok_def v)
qed

lemma deliver_step_send [simp]: "send_part (deliver_step s) = send_part s"
  by (simp add: deliver_step_def send_part_def Let_def)

lemma deliver_in_order_ok:
  assumes "recv_ok s peer k R"
  shows "\<exists>k'. recv_ok (deliver_in_order s) peer k' (R - {..<k'}) \<and> k \<le> k' \<and> {k..<k'} \<subseteq> R \<and> k' \<notin> R \<and>
    send_part (deliver_in_order s) = send_part s"
  using assms
proof (induction s arbitrary: k R rule: deliver_induct)
  case (1 s)
  note ok = recv_okD [OF "1.prems"]
  have has: "has (ts_bitmap s) (rb_base_seq (ts_bitmap s)) \<longleftrightarrow> k \<in> R"
    using bitmap.got_base [OF ok(1)] ok(9) by simp
  show ?case
  proof (cases "k \<in> R")
    case True
    obtain k' where k': "recv_ok (deliver_in_order (deliver_step s)) peer k' (R - {k} - {..<k'})" "Suc k \<le> k'"
        "{Suc k..<k'} \<subseteq> R - {k}" "k' \<notin> R - {k}"
        "send_part (deliver_in_order (deliver_step s)) = send_part (deliver_step s)"
      using "1.IH" [OF _ deliver_step_ok [OF "1.prems" True]] True has by blast
    have "R - {k} - {..<k'} = R - {..<k'}" using k'(2) by auto
    moreover have "{k..<k'} = insert k {Suc k..<k'}" using k'(2) by auto
    then have "{k..<k'} \<subseteq> R" using k'(3) True by auto
    ultimately show ?thesis
      using k' True has by (intro exI [of _ k']) (auto simp: deliver_step_simp [of s])
  next
    case False
    moreover have "R - {..<k} = R" using ok(4) by auto
    ultimately show ?thesis
      using "1.prems" has by (intro exI [of _ k]) (simp add: deliver_step_simp [of s])
  qed
qed

text \<open>
  A data packet of the peer: it is kept when it falls into the window and is new, and the blocks that
  are now in sequence are delivered.
\<close>

lemma on_data_ok:
  assumes "recv_ok s peer k R" "i < length peer" "near i k"
  shows "\<exists>k' R'. recv_ok (on_data s (of_nat i) (peer ! i)) peer k' R' \<and> k' \<notin> R' \<and> k \<le> k' \<and>
    R \<union> ({i} \<inter> {k..<k + 256}) \<subseteq> {..<k'} \<union> R' \<and>
    send_part (on_data s (of_nat i) (peer ! i)) = send_part s \<and>
    ts_data_cb (on_data s (of_nat i) (peer ! i)) = ts_data_cb s \<and> ts_pending_ack (on_data s (of_nat i) (peer ! i))"
proof -
  note ok = recv_okD [OF assms(1)]
  obtain r b where m: "mark_received (ts_bitmap s) (of_nat i) = (r, b)" by fastforce
  note mr = mark_received_rel [OF ok(1) assms(3) m]
  define R1 where "R1 = R \<union> ({i} \<inter> {k..<k + 256})"
  define s2 where "s2 = (if r then s\<lparr>ts_bitmap := b, ts_reasm := (ts_reasm s)[i mod 256 := peer ! i]\<rparr>
    else s\<lparr>ts_bitmap := b\<rparr>)"
  have R1: "R1 = (if r then insert i R else R)" using mr(1) by (auto simp: R1_def)
  then have w: "window_rel b k R1" using mr(2) by simp
  have "(ts_reasm s)[i mod 256 := peer ! i] ! (j mod 256) = peer ! j" if "j \<in> R" "r" for j
    using that ok(4,5,6) mr(1) mod_window_inj [of j i] by (subst nth_list_update_neq) auto
  then have "recv_ok s2 peer k R1"
    using ok w R1 assms(2) by (auto simp: recv_ok_def s2_def)
  then obtain k' where k': "recv_ok (deliver_in_order s2) peer k' (R1 - {..<k'})" "k \<le> k'" "k' \<notin> R1"
      "send_part (deliver_in_order s2) = send_part s2"
    using deliver_in_order_ok by blast
  have d: "on_data s (of_nat i) (peer ! i) = (deliver_in_order s2)\<lparr>ts_pending_ack := True\<rparr>"
    by (simp add: on_data_def m s2_def slot_of_nat)
  have cb: "ts_data_cb (deliver_in_order s) = ts_data_cb s" for s
    by (induction s rule: deliver_induct) (subst deliver_step_simp, simp add: deliver_step_def Let_def)
  have "recv_ok (on_data s (of_nat i) (peer ! i)) peer k' (R1 - {..<k'})"
    using k'(1) d by (simp add: recv_ok_def)
  moreover have "R \<union> ({i} \<inter> {k..<k + 256}) \<subseteq> {..<k'} \<union> (R1 - {..<k'})" by (auto simp: R1_def)
  ultimately show ?thesis
    using k'(2,3,4) d cb [of s2] by (intro exI [of _ k'] exI [of _ "R1 - {..<k'}"]) (simp add: send_part_def s2_def)
qed

section \<open>Receiving acknowledgements\<close>

lemma acked_buffers:
  assumes "buffers_ok p bf u n F" "u \<le> a" "a \<le> n" "pool_keeps p p' (bf ` {u..<a})"
    and "set (pool_free p') = bf ` {u..<a} \<union> set (pool_free p)"
  shows "buffers_ok p' bf a n F" "keeps_foreign p p' F"
proof -
  note ok = assms(1) [unfolded buffers_ok_def]
  have out: "c \<notin> bf ` {u..<a}" if "c \<in> F" for c using that ok assms(3) by auto
  then show "keeps_foreign p p' F" using assms(4) by (auto simp: keeps_foreign_def pool_keeps_def)
  have keep: "bf i \<notin> bf ` {u..<a}" if "i \<in> {a..<n}" for i
  proof
    assume "bf i \<in> bf ` {u..<a}"
    then obtain j where "j \<in> {u..<a}" "bf i = bf j" by blast
    then show False using that ok assms(2,3) by (auto dest: inj_onD [of bf "{u..<n}" i j])
  qed
  have "inj_on bf {a..<n}" using ok assms(2) by (auto intro: inj_on_subset)
  moreover have "\<forall>i \<in> {a..<n}. held p' (bf i) \<and> bf i \<notin> F"
    using ok keep assms(2,4,5) by (auto simp: held_def pool_keeps_def)
  moreover have "\<forall>c \<in> F. held p' c"
    using ok out assms(4,5) by (auto simp: held_def pool_keeps_def)
  moreover have "bf ` {u..<n} = bf ` {u..<a} \<union> bf ` {a..<n}"
    using assms(2,3) by (metis image_Un ivl_disj_un_two(3))
  then have "{..<length (bp_descs p')} \<subseteq> set (pool_free p') \<union> bf ` {a..<n} \<union> F"
    using ok assms(4,5) by (auto simp: pool_keeps_def)
  ultimately show "buffers_ok p' bf a n F"
    using ok assms(4) by (simp add: buffers_ok_def pool_keeps_def)
qed

lemma acked_send_ok:
  assumes "send_ok s p own m bf u F" "u \<le> a" "a \<le> length own"
  shows "\<exists>t p' q. mark_acked p (ts_unacked s) (of_nat a) = Some (t, p', q) \<and> keeps_foreign p p' F \<and>
    send_ok (s\<lparr>ts_unacked := q, ts_snd_una := of_nat a\<rparr>) p' own m bf a F"
proof -
  note ok = send_okD [OF assms(1)]
  obtain t p' q where m: "mark_acked p (ts_unacked s) (of_nat a) = Some (t, p', q)" "uq_rel q a (length own) bf"
      "pool_keeps p p' (bf ` {u..<a})" "set (pool_free p') = bf ` {u..<a} \<union> set (pool_free p)"
    using mark_acked_rel [OF ok(10,1) assms(2,3) ok(3)] ok(4) by blast
  have b: "buffers_ok p bf u (length own) F" using assms(1) by (simp add: send_ok_def)
  note bo = acked_buffers [OF b assms(2,3) m(3,4)]
  have "bf i \<notin> bf ` {u..<a}" if "i \<in> {a..<length own}" for i
    using that ok(3) assms(2,3) by (auto dest: inj_onD [of bf "{u..<length own}" i])
  then have "pkt_in p' (bf i) i m (own ! i)" if "i \<in> {a..<length own}" for i
    using that m(3) ok(13) [of i] assms(2) by (simp add: pkt_in_def pool_keeps_def)
  then have "send_ok (s\<lparr>ts_unacked := q, ts_snd_una := of_nat a\<rparr>) p' own m bf a F"
    using bo(1) ok(8,14,15) m(2) by (simp add: send_ok_def)
  then show ?thesis using m(1) bo(2) by blast
qed

lemma on_ack_ok:
  assumes "send_ok s p own m bf u F" "stream_ok s own stream"
    and "cumulative_ack (ts_bitmap s) = of_nat k" "k \<le> m"
    and "th_flags h AND TCP_ACK \<noteq> 0" "th_ack_num h = of_nat a" "a \<le> length own" "near a u"
  shows "\<exists>s' p' w' new bf'. on_ack env (s, p, w) h = Some (s', p', w') \<and>
    pump_result s p s' p' own new stream m bf' (max u a) F"
proof -
  note ok = send_okD [OF assms(1)]
  have d: "sint (th_ack_num h - ts_snd_una s) = int a - int u"
    using sint_diff [OF assms(8)] assms(6) ok(9) by simp
  show ?thesis
  proof (cases "u < a")
    case True
    obtain t p1 q where m: "mark_acked p (ts_unacked s) (of_nat a) = Some (t, p1, q)" "keeps_foreign p p1 F"
        "send_ok (s\<lparr>ts_unacked := q, ts_snd_una := of_nat a\<rparr>) p1 own m bf a F"
      using acked_send_ok [OF assms(1) _ assms(7)] True by auto
    obtain rtt w1 where e: "on_ack env (s, p, w) h =
        pump_tx env (s\<lparr>ts_unacked := q, ts_snd_una := of_nat a, ts_rtt_ns := rtt\<rparr>, p1, w1)" (is "_ = pump_tx env (?s, _)")
    proof (cases "t = 0")
      case True
      then show thesis
        using that [of "ts_rtt_ns s" w] d \<open>u < a\<close> m(1) assms(5,6) by (simp add: on_ack.simps)
    next
      case False
      then show thesis
        using that d \<open>u < a\<close> m(1) assms(5,6) by (cases "te_rdtsc env w") (simp add: on_ack.simps Let_def)
    qed
    have "send_ok ?s p1 own m bf a F" "stream_ok ?s own stream" "cumulative_ack (ts_bitmap ?s) = of_nat k"
      using m(3) assms(2,3) by (simp_all add: send_ok_def stream_ok_def)
    then obtain s' p' w' new bf' where "pump_tx env (?s, p1, w1) = Some (s', p', w')"
        "pump_result ?s p1 s' p' own new stream m bf' a F"
      using pump_tx_ok [of ?s p1 own m bf a F stream k env w1] assms(4) by blast
    then show ?thesis
      using e True keeps_foreign_trans [OF m(2)]
      by (intro exI [of _ s'] exI [of _ p'] exI [of _ w'] exI [of _ new] exI [of _ bf'])
        (simp add: pump_result_def recv_part_def max_def)
  next
    case False
    then have "on_ack env (s, p, w) h = Some (s, p, w)" using d by (simp add: on_ack.simps)
    then show ?thesis
      using False assms(1,2)
      by (intro exI [of _ s] exI [of _ p] exI [of _ w] exI [of _ "[]"] exI [of _ bf])
        (simp add: pump_result_def max_def)
  qed
qed

section \<open>Receiving a packet\<close>

text \<open>Giving back a buffer that is held outside the send window.\<close>

lemma release_foreign:
  assumes "send_ok s p own m bf u F" "b \<in> F"
  shows "\<exists>p'. release p b = Some p' \<and> send_ok s p' own m bf u (F - {b}) \<and> keeps_foreign p p' (F - {b})"
proof -
  note ok = send_okD [OF assms(1)]
  obtain p' where p': "release p b = Some p'" "pool_keeps p p' {b}" "pool_free p' = b # pool_free p"
    using release_keeps [OF ok(1)] ok(6) [OF assms(2)] by (auto simp: held_def)
  have nb: "bf i \<noteq> b" if "i \<in> {u..<length own}" for i using ok(5) [OF that] assms(2) by auto
  have held: "held p' c" if "held p c" "c \<noteq> b" for c
    using that p' by (simp add: held_def pool_keeps_def)
  have "buffers_ok p' bf u (length own) (F - {b})"
    using ok(1-7) p' held nb by (auto simp: buffers_ok_def pool_keeps_def)
  moreover have "pkt_in p' (bf i) i m (own ! i)" if "i \<in> {u..<length own}" for i
    using ok(13) [OF that] nb [OF that] p'(2) by (simp add: pkt_in_def pool_keeps_def)
  ultimately have "send_ok s p' own m bf u (F - {b})"
    using ok by (simp add: send_ok_def)
  then show ?thesis using p'(1,2) by (auto simp: keeps_foreign_def pool_keeps_def)
qed

definition endpoint_ok ::
  "tcp_session \<Rightarrow> buffer_pool \<Rightarrow> bytes list \<Rightarrow> bytes list \<Rightarrow> bytes \<Rightarrow> nat \<Rightarrow> nat \<Rightarrow> nat set \<Rightarrow> nat set \<Rightarrow> bool" where
  "endpoint_ok s p own peer stream u k R F \<longleftrightarrow>
     (\<exists>bf. send_ok s p own k bf u F) \<and> stream_ok s own stream \<and> recv_ok s peer k R \<and> k \<notin> R"

lemma endpoint_ack: "recv_ok s peer k R \<Longrightarrow> k \<notin> R \<Longrightarrow> cumulative_ack (ts_bitmap s) = of_nat k"
proof -
  assume r: "recv_ok s peer k R" "k \<notin> R"
  obtain a where a: "cumulative_ack (ts_bitmap s) = of_nat a" "k \<le> a" "{k..<a} \<subseteq> R"
    using cumulative_ack_rel [OF recv_okD(1) [OF r(1)]] by blast
  have "\<not> k < a" using a(3) r(2) by auto
  then show ?thesis using a(1,2) by simp
qed

definition holds_pkt :: "buffer_pool \<Rightarrow> nat \<Rightarrow> bytes \<Rightarrow> bool" where
  "holds_pkt p b pkt \<longleftrightarrow> take (length pkt) (bd_bytes (bp_descs p ! b)) = pkt"

lemma holds_read:
  assumes "send_ok s p own m bf u F" "b \<in> F" "holds_pkt p b (hdr_bytes h @ c)" "length c \<le> 1024"
  shows "read_header p b = Some h" "buf_read p b 16 (length c) = Some c"
proof -
  note ok = send_okD [OF assms(1)]
  have b: "b < length (bp_descs p)" using ok(6) [OF assms(2)] by (simp add: held_def)
  obtain rest where rest: "bd_bytes (bp_descs p ! b) = (hdr_bytes h @ c) @ rest"
    using assms(3) unfolding holds_pkt_def by (metis append_take_drop_id)
  show "read_header p b = Some h" "buf_read p b 16 (length c) = Some c"
    using buf_read_take [OF ok(1) b, of 0 16] buf_read_take [OF ok(1) b, of 16 "length c"] ok(2) assms(4) rest
    by (simp_all add: read_header_def)
qed

text \<open>
  The whole of \<^verbatim>\<open>on_packet_received\<close> on a packet that verifies. \<open>i\<close> is its number when it carries data,
  \<open>a\<close> what it acknowledges.
\<close>

lemma on_packet_core:
  assumes "endpoint_ok s p own peer stream u k R F" "b \<in> F"
    and "holds_pkt p b (hdr_bytes h @ c)" "length c \<le> 1024" "unat (th_payload_len h) = length c"
    and "verify_checksum h c" "th_flags h AND TCP_ACK \<noteq> 0" "th_ack_num h = of_nat a" "a \<le> length own" "near a u"
    and "c \<noteq> [] \<Longrightarrow> th_seq_num h = of_nat i \<and> i < length peer \<and> c = peer ! i \<and> near i k"
  shows "\<exists>s' p' w' new k' R'. on_packet_received env (s, p, w) b = Some (s', p', w') \<and>
    endpoint_ok s' p' (own @ new) peer stream (max u a) k' R' (F - {b}) \<and> k \<le> k' \<and> R \<subseteq> {..<k'} \<union> R' \<and>
    (c \<noteq> [] \<longrightarrow> {i} \<inter> {k..<k + 256} \<subseteq> {..<k'} \<union> R' \<and> ts_pending_ack s') \<and> ts_data_cb s' = ts_data_cb s \<and>
    length (bp_descs p') = length (bp_descs p)"
proof -
  obtain bf where e: "send_ok s p own k bf u F" "stream_ok s own stream" "recv_ok s peer k R" "k \<notin> R"
    using assms(1) by (auto simp: endpoint_ok_def)
  obtain s1 p1 w1 new bf1 where a: "on_ack env (s, p, w) h = Some (s1, p1, w1)"
      "pump_result s p s1 p1 own new stream k bf1 (max u a) F"
    using on_ack_ok [OF e(1,2) endpoint_ack [OF e(3,4)] order_refl assms(7-10), of env w] by blast
  have s1: "send_ok s1 p1 (own @ new) k bf1 (max u a) F" "stream_ok s1 (own @ new) stream" "recv_ok s1 peer k R"
      "ts_data_cb s1 = ts_data_cb s" "holds_pkt p1 b (hdr_bytes h @ c)"
    using a(2) e(3) assms(2,3) recv_ok_part [of s1 s peer k R]
    by (auto simp: pump_result_def recv_part_def holds_pkt_def keeps_foreign_def)
  define s2 where "s2 = (if c = [] then s1 else on_data s1 (of_nat i) c)"
  obtain k' R' where d: "recv_ok s2 peer k' R'" "k' \<notin> R'" "k \<le> k'" "R \<subseteq> {..<k'} \<union> R'"
      "c \<noteq> [] \<longrightarrow> {i} \<inter> {k..<k + 256} \<subseteq> {..<k'} \<union> R' \<and> ts_pending_ack s2" "send_part s2 = send_part s1" "ts_data_cb s2 = ts_data_cb s1"
  proof (cases "c = []")
    case True
    then show thesis using that [of k R] s1(3) e(4) by (simp add: s2_def)
  next
    case False
    then show thesis
      using that on_data_ok [OF s1(3), of i] assms(11) by (auto simp: s2_def)
  qed
  obtain p2 where r: "release p1 b = Some p2" "send_ok s1 p2 (own @ new) k bf1 (max u a) (F - {b})"
      "keeps_foreign p1 p2 (F - {b})"
    using release_foreign [OF s1(1) assms(2)] by blast
  have len: "length (bp_descs p2) = length (bp_descs p)"
    using a(2) r(3) by (simp add: pump_result_def keeps_foreign_def)
  have pos: "th_payload_len h > 0 \<longleftrightarrow> c \<noteq> []"
    using assms(5) by (simp add: word_less_nat_alt)
  have "on_packet_received env (s, p, w) b = Some (s2, p2, w1)"
    using holds_read [OF e(1) assms(2,3,4)] holds_read [OF s1(1) assms(2) s1(5) assms(4)] a(1) r(1) assms(5,6,11) pos
    by (cases "c = []") (auto simp: on_packet_received.simps s2_def)
  moreover have "send_ok s2 p2 (own @ new) k' bf1 (max u a) (F - {b})" "stream_ok s2 (own @ new) stream"
    using send_ok_mono [OF r(2) d(3)] s1(2) send_ok_part [OF d(6)] stream_ok_part [OF d(6)] by simp_all
  ultimately show ?thesis
    using d(1-5,7) s1(4) len by (intro exI [of _ s2] exI [of _ p2] exI [of _ w1] exI [of _ new] exI [of _ k'] exI [of _ R'])
      (auto simp: endpoint_ok_def)
qed

text \<open>A packet that fails the checksum is dropped: nothing changes but that its buffer is free again.\<close>

lemma on_packet_corrupt:
  assumes "endpoint_ok s p own peer stream u k R F" "b \<in> F"
    and "read_header p b = Some h" "buf_read p b 16 (unat (th_payload_len h)) = Some c" "\<not> verify_checksum h c"
  shows "\<exists>p'. on_packet_received env (s, p, w) b = Some (s, p', w) \<and>
    endpoint_ok s p' own peer stream u k R (F - {b}) \<and> length (bp_descs p') = length (bp_descs p)"
proof -
  obtain bf where e: "send_ok s p own k bf u F" using assms(1) by (auto simp: endpoint_ok_def)
  obtain p' where r: "release p b = Some p'" "send_ok s p' own k bf u (F - {b})" "keeps_foreign p p' (F - {b})"
    using release_foreign [OF e assms(2)] by blast
  then have "on_packet_received env (s, p, w) b = Some (s, p', w)"
    using assms(3-5) by (simp add: on_packet_received.simps)
  then show ?thesis using r(2,3) assms(1) by (auto simp: endpoint_ok_def keeps_foreign_def)
qed

section \<open>Sending and the timer\<close>

lemma send_endpoint:
  assumes "endpoint_ok s p own peer stream u k R F"
  shows "\<exists>s' p' w' new. send env (s, p, w) data = Some (s', p', w') \<and>
    endpoint_ok s' p' (own @ new) peer (stream @ data) u k R F \<and> ts_data_cb s' = ts_data_cb s \<and>
    length (bp_descs p') = length (bp_descs p) \<and> stalled s' p' (own @ new) u"
proof -
  obtain bf where e: "send_ok s p own k bf u F" "stream_ok s own stream" "recv_ok s peer k R" "k \<notin> R"
    using assms by (auto simp: endpoint_ok_def)
  let ?s = "s\<lparr>ts_pending_tx := ts_pending_tx s @ data\<rparr>"
  have "send_ok ?s p own k bf u F" "stream_ok ?s own (stream @ data)" "cumulative_ack (ts_bitmap ?s) = of_nat k"
    using e endpoint_ack [OF e(3,4)] by (auto simp: send_ok_def stream_ok_def)
  then obtain s' p' w' new bf' where "pump_tx env (?s, p, w) = Some (s', p', w')"
      "pump_result ?s p s' p' own new (stream @ data) k bf' u F" "stalled s' p' (own @ new) u"
    using pump_tx_ok [of ?s p own k bf u F "stream @ data" k env w] by blast
  then show ?thesis
    using e(3,4) recv_ok_part [of s' s peer k R]
    by (intro exI [of _ s'] exI [of _ p'] exI [of _ w'] exI [of _ new])
      (auto simp: send.simps pump_result_def endpoint_ok_def recv_part_def keeps_foreign_def)
qed

lemma pump_step_recv: "pump_step env (s, p, w) = Some (r, s', p', w') \<Longrightarrow> recv_part s' = recv_part s"
  by (cases "te_rdtsc env w")
    (auto simp: pump_step.simps transmit_def recv_part_def Let_def bind_eq_Some_conv split: option.splits)

lemma pump_loop_recv: "pump_loop env (s, p, w) = Some (s', p', w') \<Longrightarrow> recv_part s' = recv_part s"
proof (induction env "(s, p, w)" arbitrary: s p w rule: pump_loop.induct)
  case (1 env s p w)
  then show ?case
    by (subst (asm) (2) pump_loop.simps)
      (auto split: if_splits option.splits bool.splits dest: pump_step_recv)
qed

lemma send_recv_part: "send env (s, p, w) data = Some (s', p', w') \<Longrightarrow> recv_part s' = recv_part s"
  by (auto simp: send.simps pump_tx_def bind_eq_Some_conv dest!: pump_loop_recv) (simp_all add: recv_part_def)

lemma window_buffer_read:
  assumes "send_ok s p own m bf u F" "i \<in> {u..<length own}"
  shows "\<exists>a \<le> m. buf_read p (bf i) 0 (unat (bd_len (bp_descs p ! bf i))) = Some (data_pkt i a (own ! i))"
proof -
  note ok = send_okD [OF assms(1)]
  have b: "bf i < length (bp_descs p)" using ok(4) [OF assms(2)] by (simp add: held_def)
  have c: "length (own ! i) \<le> 1024"
    using ok(14) assms(2) by (auto simp: list_all_length chunk_ok_def TCP_LITE_MAX_PAYLOAD_def)
  obtain a where a: "a \<le> m" "bd_len (bp_descs p ! bf i) = of_nat (16 + length (own ! i))"
      "take (16 + length (own ! i)) (bd_bytes (bp_descs p ! bf i)) = data_pkt i a (own ! i)"
    using ok(13) [OF assms(2)] by (auto simp: pkt_in_def)
  have "unat (bd_len (bp_descs p ! bf i)) = 16 + length (own ! i)"
    unfolding a(2) using c by (intro unat_of_nat_u32) simp
  then show ?thesis
    using buf_read_take [OF ok(1) b, of 0 "16 + length (own ! i)"] a(1,3) c ok(2) by (intro exI [of _ a]) simp
qed

text \<open>Every expired packet is sent again, unchanged.\<close>

definition resent :: "bytes list \<Rightarrow> nat \<Rightarrow> u32 \<Rightarrow> bytes \<Rightarrow> bool" where
  "resent own m seq pkt \<longleftrightarrow> (\<exists>i a. seq = of_nat i \<and> i < length own \<and> a \<le> m \<and> pkt = data_pkt i a (own ! i))"

lemma retransmit_ok:
  assumes "send_ok s p own m bf u F" "stream_ok s own stream"
    and "\<forall>seq \<in> set seqs. \<exists>i \<in> {u..<length own}. seq = of_nat i"
  shows "\<exists>s' pkts. retransmit s p now seqs = Some s' \<and> send_ok s' p own m bf u F \<and> stream_ok s' own stream \<and>
    recv_part s' = recv_part s \<and> ts_pending_ack s' = ts_pending_ack s \<and> ts_out s' = ts_out s @ pkts \<and>
    list_all2 (resent own m) seqs pkts \<and> ts_retransmits s' = ts_retransmits s + of_nat (length seqs)"
  using assms
proof (induction seqs arbitrary: s)
  case Nil
  then show ?case by simp
next
  case (Cons seq seqs)
  note ok = send_okD [OF Cons.prems(1)]
  obtain i where i: "i \<in> {u..<length own}" "seq = of_nat i" using Cons.prems(3) by auto
  obtain a where a: "a \<le> m" "buf_read p (bf i) 0 (unat (bd_len (bp_descs p ! bf i))) = Some (data_pkt i a (own ! i))"
    using window_buffer_read [OF Cons.prems(1) i(1)] by blast
  let ?s = "(transmit s (data_pkt i a (own ! i)))\<lparr>ts_unacked := touch (ts_unacked s) seq now,
    ts_retransmits := ts_retransmits s + 1\<rparr>"
  have "legal_pkt own m (data_pkt i a (own ! i))" using i(1) a(1) by (simp add: legal_data)
  then have s: "send_ok ?s p own m bf u F" "stream_ok ?s own stream"
    using Cons.prems(1,2) touch_rel [OF ok(10), of i now] i
    by (auto simp: send_ok_def stream_ok_def transmit_def)
  obtain s' pkts where IH: "retransmit ?s p now seqs = Some s'" "send_ok s' p own m bf u F" "stream_ok s' own stream"
      "recv_part s' = recv_part ?s" "ts_pending_ack s' = ts_pending_ack ?s" "ts_out s' = ts_out ?s @ pkts"
      "list_all2 (resent own m) seqs pkts" "ts_retransmits s' = ts_retransmits ?s + of_nat (length seqs)"
    using Cons.IH [OF s] Cons.prems(3) by auto
  have "buffer_for (ts_unacked s) seq = Some (bf i)" using buffer_for_rel [OF ok(10), of i] i by simp
  then have "retransmit s p now (seq # seqs) = Some s'" using a(2) IH(1) by simp
  moreover have "resent own m seq (data_pkt i a (own ! i))" using i a(1) by (auto simp: resent_def)
  ultimately show ?case
    using IH by (intro exI [of _ s'] exI [of _ "data_pkt i a (own ! i) # pkts"]) (auto simp: transmit_def recv_part_def)
qed

lemma tick_endpoint:
  assumes "endpoint_ok s p own peer stream u k R F"
  shows "\<exists>s' p' w' new. tick env (s, p, w) = Some (s', p', w') \<and>
    endpoint_ok s' p' (own @ new) peer stream u k R F \<and> ts_data_cb s' = ts_data_cb s \<and>
    length (bp_descs p') = length (bp_descs p) \<and>
    (\<forall>seq \<in> set (check_timeouts (ts_unacked s) (fst (te_rdtsc env w)) (te_cycles env (ts_rto_ns s))).
       \<exists>pkt \<in> set (ts_out s'). resent own k seq pkt) \<and>
    (ts_pending_ack s \<longrightarrow> ack_pkt (length (own @ new)) k \<in> set (ts_out s')) \<and>
    \<not> ts_pending_ack s' \<and> stalled s' p' (own @ new) u"
proof -
  obtain bf where e: "send_ok s p own k bf u F" "stream_ok s own stream" "recv_ok s peer k R" "k \<notin> R"
    using assms by (auto simp: endpoint_ok_def)
  obtain now w1 where t: "te_rdtsc env w = (now, w1)" by fastforce
  let ?seqs = "check_timeouts (ts_unacked s) now (te_cycles env (ts_rto_ns s))"
  have "\<exists>i \<in> {u..<length own}. seq = of_nat i" if "seq \<in> set ?seqs" for seq
    using check_timeouts_rel [OF send_okD(10) [OF e(1)] that] by auto
  then obtain s1 pkts where r: "retransmit s p now ?seqs = Some s1" "send_ok s1 p own k bf u F" "stream_ok s1 own stream"
      "recv_part s1 = recv_part s" "ts_pending_ack s1 = ts_pending_ack s" "ts_out s1 = ts_out s @ pkts"
      "list_all2 (resent own k) ?seqs pkts"
    using retransmit_ok [OF e(1,2), of ?seqs now] by blast
  have "cumulative_ack (ts_bitmap s1) = of_nat k" using r(4) endpoint_ack [OF e(3,4)] by (simp add: recv_part_def)
  then obtain s2 p2 w2 new bf2 where u: "pump_tx env (s1, p, w1) = Some (s2, p2, w2)"
      "pump_result s1 p s2 p2 own new stream k bf2 u F" "stalled s2 p2 (own @ new) u"
    using pump_tx_ok [OF r(2,3), of k env w1] by blast
  let ?s = "if ts_pending_ack s2 then (transmit s2 (ack_pkt (length (own @ new)) k))\<lparr>ts_pending_ack := False\<rparr> else s2"
  have out: "set (ts_out s1) \<subseteq> set (ts_out s2)" using pump_tx_out [OF u(1)] by (rule set_mono_prefix)
  note pr = u(2) [unfolded pump_result_def]
  have rp: "recv_part s2 = recv_part s" using pr r(4) by simp
  have ack: "cumulative_ack (ts_bitmap s2) = of_nat k" "ts_next_seq s2 = of_nat (length (own @ new))"
    using rp endpoint_ack [OF e(3,4)] send_okD(8) pr by (auto simp: recv_part_def)
  have "tick env (s, p, w) = Some (?s, p2, w2)"
    using t r(1) u(1) ack by (simp add: tick.simps ack_pkt_def)
  moreover have "send_ok ?s p2 (own @ new) k bf2 u F" "stream_ok ?s (own @ new) stream" "recv_part ?s = recv_part s"
    using pr rp legal_ack [of "length (own @ new)" "own @ new" k k]
    by (auto simp: send_ok_def stream_ok_def recv_part_def transmit_def)
  moreover have "\<exists>pkt \<in> set (ts_out ?s). resent own k seq pkt" if "seq \<in> set ?seqs" for seq
  proof -
    obtain n where n: "n < length ?seqs" "?seqs ! n = seq" using \<open>seq \<in> set ?seqs\<close> by (auto simp: in_set_conv_nth)
    then have "resent own k seq (pkts ! n)" using list_all2_nthD [OF r(7) n(1)] by simp
    moreover have "pkts ! n \<in> set (ts_out s2)"
      using n(1) list_all2_lengthD [OF r(7)] r(6) out by auto
    ultimately show ?thesis by (auto simp: transmit_def)
  qed
  moreover have "stalled ?s p2 (own @ new) u" using u(3) by (simp add: stalled_def transmit_def)
  ultimately show ?thesis
    using t e(3,4) pr r(5) recv_ok_part [of ?s s peer k R]
    by (intro exI [of _ ?s] exI [of _ p2] exI [of _ w2] exI [of _ new])
      (auto simp: endpoint_ok_def recv_part_def transmit_def keeps_foreign_def)
qed

section \<open>The life of a session\<close>

lemma session_new_endpoint:
  assumes "pool_ok p" "1040 \<le> unat (bp_buffer_size p)"
    and "{..<length (bp_descs p)} \<subseteq> set (pool_free p) \<union> F" "\<forall>c \<in> F. held p c"
  shows "endpoint_ok (set_data_callback session_new) p [] peer [] 0 0 {} F"
  using assms uq_init_rel window_init
  by (simp add: endpoint_ok_def send_ok_def stream_ok_def recv_ok_def buffers_ok_def set_data_callback_def session_new_def)

text \<open>Counting the buffers: free, in the send window, or held outside.\<close>

lemma buffers_count:
  assumes "buffers_ok p bf u n F"
  shows "length (pool_free p) + (n - u) + card F = length (bp_descs p)"
proof -
  note ok = assms [unfolded buffers_ok_def]
  have free: "card (set (pool_free p)) = length (pool_free p)" "set (pool_free p) \<subseteq> {..<length (bp_descs p)}"
    using ok pool_okD(5) [of p] pool_free_less [of p] by (auto intro: distinct_card)
  have win: "card (bf ` {u..<n}) = n - u" using ok by (simp add: card_image)
  have sub: "bf ` {u..<n} \<subseteq> {..<length (bp_descs p)}" "F \<subseteq> {..<length (bp_descs p)}"
    using ok by (auto simp: held_def)
  have "{..<length (bp_descs p)} = set (pool_free p) \<union> bf ` {u..<n} \<union> F" using ok free(2) sub by auto
  moreover have "set (pool_free p) \<inter> bf ` {u..<n} = {}" "(set (pool_free p) \<union> bf ` {u..<n}) \<inter> F = {}"
    using ok by (auto simp: held_def)
  moreover have "finite F" using sub(2) finite_subset by auto
  ultimately have "card {..<length (bp_descs p)} = card (set (pool_free p)) + card (bf ` {u..<n}) + card F"
    by (simp add: card_Un_disjoint)
  then show ?thesis using free(1) win by simp
qed

lemma occupied_is_victim:
  assumes "uq_rel q u n bf"
  shows "filter sl_occupied q = filter (victim (of_nat n)) q"
proof (rule filter_cong [OF refl])
  fix s assume "s \<in> set q"
  then obtain j where j: "j < 256" "q ! j = s" using assms by (auto simp: in_set_conv_nth uq_rel_def)
  show "sl_occupied s \<longleftrightarrow> victim (of_nat n) s"
  proof
    assume "sl_occupied s"
    then obtain i where "u \<le> i" "i < n" "i mod 256 = j" using occupied_packet [OF assms j(1)] j(2) by blast
    then show "victim (of_nat n) s" using victim_iff [OF assms, of i n] j(2) by auto
  qed (simp add: victim_def)
qed

lemma session_delete_frees:
  assumes "endpoint_ok s p own peer stream u k R F"
  shows "\<exists>p' q. session_delete s p = Some (p', q) \<and> pool_ok p' \<and> keeps_foreign p p' F \<and>
    (\<forall>c \<in> F. held p' c) \<and> length (pool_free p') + card F = length (bp_descs p')"
proof -
  obtain bf where e: "send_ok s p own k bf u F" using assms by (auto simp: endpoint_ok_def)
  note ok = send_okD [OF e]
  let ?n = "length own" let ?q = "ts_unacked s"
  let ?bs = "victims (of_nat ?n) ?q"
  note v = victims_rel [OF ok(10,11) order_refl ok(3)]
  have some: "\<forall>x \<in> set ?q. sl_occupied x \<longrightarrow> sl_buf x \<noteq> None"
  proof (intro ballI impI)
    fix x assume "x \<in> set ?q" "sl_occupied x"
    moreover from this obtain j where "j < 256" "?q ! j = x"
      using ok(10) by (auto simp: in_set_conv_nth uq_rel_def)
    ultimately show "sl_buf x \<noteq> None" using occupied_packet [OF ok(10), of j] by auto
  qed
  have bs: "?bs = map (the \<circ> sl_buf) (filter sl_occupied ?q)"
    by (simp add: victims_def occupied_is_victim [OF ok(10)])
  have "\<forall>b \<in> set ?bs. held p b" unfolding v(2) using ok(4) by auto
  then obtain p' where r: "release_all p ?q = Some (p', map freed_slot ?q)" "pool_keeps p p' (set ?bs)"
      "pool_free p' = rev ?bs @ pool_free p"
    using release_all_frees [OF ok(1) some bs v(1)] by blast
  have b: "buffers_ok p bf u ?n F" using e by (simp add: send_ok_def)
  have "set (pool_free p') = bf ` {u..<?n} \<union> set (pool_free p)" using r(3) v(2) by simp
  note a = acked_buffers [OF b ok(11) order_refl r(2) [unfolded v(2)] this]
  show ?thesis
    using r(1) a buffers_count [OF a(1)] by (auto simp: session_delete_def buffers_ok_def)
qed

end
