(* ===== verification/Tcp_Channel.thy ===== *)
theory Tcp_Channel
  imports Tcp_Endpoint
begin

text \<open>
  Two TCP-Lite sessions, each with its own buffer pool, over a network that loses, duplicates, delays,
  reorders and damages packets. A run is a list of events: \<^verbatim>\<open>send\<close> and \<^verbatim>\<open>tick\<close> at either end, the arrival of
  any packet the other end has transmitted so far (so a packet may arrive never, once or many times, in
  any order), and the arrival of a damaged packet. Damage is limited (\<open>damaged\<close>): the packet is complete, its length
  field stays inside it, and the checksum fails. The rest is not covered by the theorems of this theory: a length field
  beyond the packet makes the code read bytes that did not arrive (\<open>payload_len_unchecked\<close> of \<open>Tcp_Limits\<close>), and some
  damage to the length field is not detected (\<open>payload_len_undetected\<close> of \<open>Tcp_Header\<close>). The clock may have any value
  at each event. The theorems say what one end delivers in terms of what the other end was given.
\<close>

section \<open>Arrival of a packet\<close>

text \<open>
  The receive path around \<^verbatim>\<open>on_packet_received\<close>: a buffer is taken from the pool, the packet is copied
  into it and handed over. A packet that finds the pool empty is lost: the \<^verbatim>\<open>ASSERT_NE\<close> of the test harness
  reports the failure and returns from \<^verbatim>\<open>deliver\<close>.
\<close>

fun deliver :: "'w tcp_env \<Rightarrow> 'w tcp_state \<Rightarrow> bytes \<Rightarrow> 'w tcp_state option" where
  "deliver env (s, p, w) pkt =
     do { (b, p1) \<leftarrow> acquire p;
          case b of
            None \<Rightarrow> Some (s, p1, w)
          | Some buf \<Rightarrow>
              do { p2 \<leftarrow> buf_write p1 buf 0 pkt;
                   p3 \<leftarrow> buf_set_len p2 buf (of_nat (length pkt));
                   on_packet_received env (s, p3, w) buf } }"

declare deliver.simps [simp del]

section \<open>The network\<close>

datatype side = Side_A | Side_B

type_synonym tcp_end = "tcp_session \<times> buffer_pool"
type_synonym tcp_net = "tcp_end \<times> tcp_end"

datatype 'w net_event =
    Ev_send side 'w bytes
  | Ev_tick side 'w
  | Ev_deliver side 'w nat
  | Ev_damaged side 'w bytes

fun end_at :: "side \<Rightarrow> tcp_net \<Rightarrow> tcp_end" where
  "end_at Side_A (x, y) = x"
| "end_at Side_B (x, y) = y"

fun other_side :: "side \<Rightarrow> side" where
  "other_side Side_A = Side_B"
| "other_side Side_B = Side_A"

fun put_at :: "side \<Rightarrow> tcp_net \<Rightarrow> 'w tcp_state \<Rightarrow> tcp_net" where
  "put_at Side_A (x, y) (s, p, w) = ((s, p), y)"
| "put_at Side_B (x, y) (s, p, w) = (x, (s, p))"

definition state_at :: "side \<Rightarrow> tcp_net \<Rightarrow> 'w \<Rightarrow> 'w tcp_state" where
  "state_at d net w = (fst (end_at d net), snd (end_at d net), w)"

text \<open>The packets on their way to one end: everything the other end has transmitted.\<close>

definition wire_to :: "side \<Rightarrow> tcp_net \<Rightarrow> bytes list" where
  "wire_to d net = ts_out (fst (end_at (other_side d) net))"

fun net_step :: "'w tcp_env \<Rightarrow> 'w net_event \<Rightarrow> tcp_net \<Rightarrow> tcp_net option" where
  "net_step env (Ev_send d w data) net = map_option (put_at d net) (send env (state_at d net w) data)"
| "net_step env (Ev_tick d w) net = map_option (put_at d net) (tick env (state_at d net w))"
| "net_step env (Ev_deliver d w n) net =
     (if n < length (wire_to d net)
      then map_option (put_at d net) (deliver env (state_at d net w) (wire_to d net ! n)) else Some net)"
| "net_step env (Ev_damaged d w pkt) net = map_option (put_at d net) (deliver env (state_at d net w) pkt)"

fun net_run :: "'w tcp_env \<Rightarrow> 'w net_event list \<Rightarrow> tcp_net \<Rightarrow> tcp_net option" where
  "net_run env [] net = Some net"
| "net_run env (ev # evs) net = Option.bind (net_step env ev net) (net_run env evs)"

definition net_start :: "buffer_pool \<Rightarrow> buffer_pool \<Rightarrow> tcp_net" where
  "net_start pa pb = ((set_data_callback session_new, pa), (set_data_callback session_new, pb))"

text \<open>A complete packet, with a length field that stays inside it, that fails the checksum.\<close>

definition damaged :: "bytes \<Rightarrow> bool" where
  "damaged pkt \<longleftrightarrow> 16 \<le> length pkt \<and> length pkt \<le> 1040 \<and>
     (let h = hdr_of (take 16 pkt); n = unat (th_payload_len h)
      in 16 + n \<le> length pkt \<and> \<not> verify_checksum h (take n (drop 16 pkt)))"

fun event_ok :: "'w net_event \<Rightarrow> bool" where
  "event_ok (Ev_damaged d w pkt) = damaged pkt"
| "event_ok _ = True"

text \<open>The bytes given to \<^verbatim>\<open>send\<close> at one end.\<close>

fun sent_by :: "side \<Rightarrow> 'w net_event list \<Rightarrow> bytes" where
  "sent_by d [] = []"
| "sent_by d (ev # evs) = (case ev of Ev_send e w data \<Rightarrow> if e = d then data else [] | _ \<Rightarrow> []) @ sent_by d evs"

definition delivered_at :: "side \<Rightarrow> tcp_net \<Rightarrow> bytes" where
  "delivered_at d net = concat (ts_delivered (fst (end_at d net)))"

section \<open>Arrivals keep the invariant\<close>

lemma acquire_foreign:
  assumes "send_ok s p own m bf u F" "pool_free p = b # bs" "pool_keeps p p' {b}" "pool_free p' = bs"
  shows "send_ok s p' own m bf u (insert b F)" "b \<notin> F"
proof -
  note ok = send_okD [OF assms(1)]
  have b: "b \<notin> set bs" "b < length (bp_descs p)"
    using pool_okD(5) [OF ok(1)] pool_free_less [OF ok(1)] assms(2) by auto
  show "b \<notin> F" using ok(6) [of b] assms(2) by (auto simp: held_def)
  have nb: "bf i \<noteq> b" if "i \<in> {u..<length own}" for i
    using ok(4) [OF that] assms(2) by (auto simp: held_def)
  have held: "held p' c" if "held p c" for c
    using that assms(2,3,4) by (auto simp: held_def pool_keeps_def)
  have "held p' b" using b assms(3,4) by (simp add: held_def pool_keeps_def)
  then have "buffers_ok p' bf u (length own) (insert b F)"
    using ok(1-7) held nb assms(2,3,4) by (auto simp: buffers_ok_def pool_keeps_def)
  moreover have "pkt_in p' (bf i) i m (own ! i)" if "i \<in> {u..<length own}" for i
    using ok(13) [OF that] nb [OF that] assms(3) by (simp add: pkt_in_def pool_keeps_def)
  ultimately show "send_ok s p' own m bf u (insert b F)"
    using ok by (simp add: send_ok_def)
qed

text \<open>A packet that finds a buffer is handed over in it.\<close>

lemma deliver_handover:
  assumes "endpoint_ok s p own peer stream u k R {}" "pool_free p \<noteq> []" "length pkt \<le> 1040"
  shows "\<exists>b p'. deliver env (s, p, w) pkt = on_packet_received env (s, p', w) b \<and>
    endpoint_ok s p' own peer stream u k R {b} \<and> holds_pkt p' b pkt \<and> length (bp_descs p') = length (bp_descs p) \<and>
    bp_buffer_size p' = bp_buffer_size p"
proof -
  obtain bf where e: "send_ok s p own k bf u {}" using assms(1) by (auto simp: endpoint_ok_def)
  note ok = send_okD [OF e]
  obtain b bs where f: "pool_free p = b # bs" using assms(2) by (cases "pool_free p") auto
  obtain p1 where p1: "acquire p = Some (Some b, p1)" "pool_ok p1" "pool_free p1 = bs"
      "bp_descs p1 = bp_descs p" "bp_buffer_size p1 = bp_buffer_size p"
    using acquire_Cons [OF ok(1) f] by blast
  have b: "b < length (bp_descs p1)" using pool_free_less [OF ok(1)] f p1(4) by simp
  obtain p2 where p2: "buf_write p1 b 0 pkt = Some p2" "pool_keeps p1 p2 {b}" "pool_free p2 = bs"
      "bd_bytes (bp_descs p2 ! b) = pkt @ drop (length pkt) (bd_bytes (bp_descs p1 ! b))"
    using buf_write_at [OF p1(2) b, of 0 pkt] ok(2) assms(3) p1(3,5) by auto
  obtain p3 where p3: "buf_set_len p2 b (of_nat (length pkt)) = Some p3" "pool_keeps p2 p3 {b}"
      "pool_free p3 = bs" "bd_bytes (bp_descs p3 ! b) = bd_bytes (bp_descs p2 ! b)"
    using buf_set_len_at [of p2 b "of_nat (length pkt)"] p2(2,3) b by (auto simp: pool_keeps_def)
  have k: "pool_keeps p p3 {b}"
    using pool_keeps_trans1 [OF p2(2) p3(2)] p1(4,5) by (simp add: pool_keeps_def)
  then have "endpoint_ok s p3 own peer stream u k R {b}"
    using acquire_foreign [OF e f _ p3(3)] assms(1) by (auto simp: endpoint_ok_def)
  moreover have "holds_pkt p3 b pkt" using p2(4) p3(4) by (simp add: holds_pkt_def)
  moreover have "deliver env (s, p, w) pkt = on_packet_received env (s, p3, w) b"
    using p1(1) p2(1) p3(1) by (simp add: deliver.simps)
  ultimately show ?thesis using k by (auto simp: pool_keeps_def)
qed

lemma deliver_lost:
  assumes "endpoint_ok s p own peer stream u k R {}" "pool_free p = []"
  shows "\<exists>p'. deliver env (s, p, w) pkt = Some (s, p', w) \<and> endpoint_ok s p' own peer stream u k R {} \<and>
    length (bp_descs p') = length (bp_descs p)"
proof -
  obtain bf where e: "send_ok s p own k bf u {}" using assms(1) by (auto simp: endpoint_ok_def)
  have "deliver env (s, p, w) pkt = Some (s, p\<lparr>bp_exhausted := bp_exhausted p + 1\<rparr>, w)"
    using acquire_Nil [OF send_okD(1) [OF e] assms(2)] by (simp add: deliver.simps)
  then show ?thesis using exhausted_ok [OF e] assms(1) by (auto simp: endpoint_ok_def)
qed

lemma data_header_fields [simp]:
  "th_payload_len (data_header i a c) = of_nat (length c)" "th_flags (data_header i a c) = TCP_ACK"
  "th_ack_num (data_header i a c) = of_nat a" "th_seq_num (data_header i a c) = of_nat i"
  by (simp_all add: data_header_def compute_checksum_def make_data_def)

lemma make_ack_fields [simp]:
  "th_payload_len (make_ack i a) = 0" "th_flags (make_ack i a) = TCP_ACK" "th_ack_num (make_ack i a) = a"
  by (simp_all add: make_ack_def compute_checksum_def zero_header_def)

lemma ack_flag: "TCP_ACK AND TCP_ACK \<noteq> 0"
  by (simp add: TCP_ACK_def)

lemma chunk_at: "list_all chunk_ok peer \<Longrightarrow> i < length peer \<Longrightarrow> length (peer ! i) \<le> 1024 \<and> peer ! i \<noteq> []"
  by (auto simp: list_all_length chunk_ok_def TCP_LITE_MAX_PAYLOAD_def)

lemma window_end: "endpoint_ok s p own peer stream u k R F \<Longrightarrow> u \<le> length own \<and> length own \<le> u + 256 \<and> k \<le> length peer"
  by (auto simp: endpoint_ok_def dest: send_okD(11,12) recv_okD(3))

text \<open>A data packet, an acknowledgement and a damaged packet arrive.\<close>

lemma deliver_data:
  assumes "endpoint_ok s p own peer stream u k R {}" "pool_free p \<noteq> []" "list_all chunk_ok peer"
    and "i < length peer" "a \<le> length own" "length own < 2 ^ 31" "length peer < 2 ^ 31"
  shows "\<exists>s' p' w' new k' R'. deliver env (s, p, w) (data_pkt i a (peer ! i)) = Some (s', p', w') \<and>
    endpoint_ok s' p' (own @ new) peer stream (max u a) k' R' {} \<and> k \<le> k' \<and> ts_data_cb s' = ts_data_cb s \<and>
    length (bp_descs p') = length (bp_descs p) \<and>
    {i} \<inter> {k..<k + 256} \<subseteq> {..<k'} \<union> R' \<and> ts_pending_ack s'"
proof -
  let ?c = "peer ! i" let ?h = "data_header i a ?c"
  note c = chunk_at [OF assms(3,4)] note we = window_end [OF assms(1)]
  obtain b p' where d: "deliver env (s, p, w) (data_pkt i a ?c) = on_packet_received env (s, p', w) b"
      "endpoint_ok s p' own peer stream u k R {b}" "holds_pkt p' b (hdr_bytes ?h @ ?c)"
      "length (bp_descs p') = length (bp_descs p)"
    using deliver_handover [OF assms(1,2), of "data_pkt i a ?c" env w] c by (auto simp: data_pkt_def)
  have "verify_checksum ?h ?c" by (simp add: data_header_def verify_compute)
  moreover have "unat (th_payload_len ?h) = length ?c" using c len_word(1) [of "length ?c"] by simp
  moreover have "near a u" "near i k" using assms(4-7) we by (auto intro!: near_small)
  ultimately show ?thesis
    using on_packet_core [OF d(2) _ d(3), of a i env w] c d(1,4) assms(4,5) ack_flag by simp blast
qed

lemma deliver_ack:
  assumes "endpoint_ok s p own peer stream u k R {}" "pool_free p \<noteq> []"
    and "a \<le> length own" "length own < 2 ^ 31"
  shows "\<exists>s' p' w' new k' R'. deliver env (s, p, w) (ack_pkt i a) = Some (s', p', w') \<and>
    endpoint_ok s' p' (own @ new) peer stream (max u a) k' R' {} \<and> k \<le> k' \<and> ts_data_cb s' = ts_data_cb s \<and>
    length (bp_descs p') = length (bp_descs p)"
proof -
  let ?h = "make_ack (of_nat i) (of_nat a)"
  note we = window_end [OF assms(1)]
  obtain b p' where d: "deliver env (s, p, w) (ack_pkt i a) = on_packet_received env (s, p', w) b"
      "endpoint_ok s p' own peer stream u k R {b}" "holds_pkt p' b (hdr_bytes ?h @ [])"
      "length (bp_descs p') = length (bp_descs p)"
    using deliver_handover [OF assms(1,2), of "ack_pkt i a" env w] by (auto simp: ack_pkt_def)
  have "verify_checksum ?h []" by (simp add: make_ack_def verify_compute)
  moreover have "near a u" using assms(3,4) we by (auto intro!: near_small)
  ultimately show ?thesis
    using on_packet_core [OF d(2) _ d(3), of a i env w] d(1,4) assms(3) ack_flag by simp blast
qed

lemma deliver_damaged:
  assumes "endpoint_ok s p own peer stream u k R {}" "damaged pkt"
  shows "\<exists>p'. deliver env (s, p, w) pkt = Some (s, p', w) \<and> endpoint_ok s p' own peer stream u k R {} \<and>
    length (bp_descs p') = length (bp_descs p)"
proof (cases "pool_free p = []")
  case True
  then show ?thesis using deliver_lost [OF assms(1), of env w pkt] by blast
next
  case False
  let ?h = "hdr_of (take 16 pkt)" let ?n = "unat (th_payload_len ?h)"
  have dm: "16 \<le> length pkt" "length pkt \<le> 1040" "16 + ?n \<le> length pkt" "\<not> verify_checksum ?h (take ?n (drop 16 pkt))"
    using assms(2) by (simp_all add: damaged_def Let_def)
  obtain b p' where d: "deliver env (s, p, w) pkt = on_packet_received env (s, p', w) b"
      "endpoint_ok s p' own peer stream u k R {b}" "holds_pkt p' b pkt" "length (bp_descs p') = length (bp_descs p)"
    using deliver_handover [OF assms(1) False dm(2), of env w] by blast
  obtain bf where e: "send_ok s p' own k bf u {b}" using d(2) by (auto simp: endpoint_ok_def)
  note ok = send_okD [OF e]
  have b: "b < length (bp_descs p')" using ok(6) [of b] by (simp add: held_def)
  obtain rest where rest: "bd_bytes (bp_descs p' ! b) = pkt @ rest"
    using d(3) unfolding holds_pkt_def by (metis append_take_drop_id)
  have "read_header p' b = Some ?h" "buf_read p' b 16 ?n = Some (take ?n (drop 16 pkt))"
    using buf_read_take [OF ok(1) b, of 0 16] buf_read_take [OF ok(1) b, of 16 ?n] ok(2) dm(1,2,3) rest
    by (simp_all add: read_header_def)
  then show ?thesis using on_packet_corrupt [OF d(2) _ _ _ dm(4), where env = env and w = w] d(1,4) by auto
qed

section \<open>The invariant of the network\<close>

record ghost =
  gh_own :: "bytes list"
  gh_stream :: bytes
  gh_una :: nat
  gh_next :: nat
  gh_early :: "nat set"
  gh_bufs :: nat

definition end_ok :: "tcp_end \<Rightarrow> ghost \<Rightarrow> bytes list \<Rightarrow> bool" where
  "end_ok x g peer \<longleftrightarrow> endpoint_ok (fst x) (snd x) (gh_own g) peer (gh_stream g) (gh_una g) (gh_next g) (gh_early g) {} \<and>
     ts_data_cb (fst x) \<and> length (bp_descs (snd x)) = gh_bufs g"

text \<open>No end has more acknowledged than the other has received in sequence.\<close>

definition net_ok :: "tcp_net \<Rightarrow> (side \<Rightarrow> ghost) \<Rightarrow> bool" where
  "net_ok net g \<longleftrightarrow> (\<forall>d. end_ok (end_at d net) (g d) (gh_own (g (other_side d))) \<and>
     gh_una (g d) \<le> gh_next (g (other_side d)))"

lemma other_side_simps [simp]: "other_side (other_side d) = d" "other_side d \<noteq> d" "d \<noteq> other_side d"
  by (cases d; simp)+

lemma put_at_simps [simp]:
  "end_at d (put_at d net (s, p, w)) = (s, p)" "end_at (other_side d) (put_at d net st) = end_at (other_side d) net"
  by (cases net; cases d; simp; cases st; simp)+

lemma side_cases: "e = d \<or> e = other_side d"
  by (cases e; cases d) auto

lemma recv_ok_peer: "recv_ok s peer k R \<Longrightarrow> recv_ok s (peer @ new) k R"
  by (auto simp: recv_ok_def nth_append)

lemma end_ok_peer: "end_ok x g peer \<Longrightarrow> end_ok x g (peer @ new)"
  by (auto simp: end_ok_def endpoint_ok_def recv_ok_peer)

lemma put_at_ok:
  assumes "net_ok net g" "end_ok (s, p) g' (gh_own (g (other_side d)))" "gh_own g' = gh_own (g d) @ new"
    and "gh_una g' \<le> gh_next (g (other_side d))" "gh_next (g d) \<le> gh_next g'"
  shows "net_ok (put_at d net (s, p, w)) (g(d := g'))"
  unfolding net_ok_def
proof (intro allI)
  fix e
  have "end_ok (end_at (other_side d) net) (g (other_side d)) (gh_own (g d) @ new)"
    "gh_una (g (other_side d)) \<le> gh_next g'"
    using assms(1,5) end_ok_peer unfolding net_ok_def by (metis other_side_simps(1), metis le_trans other_side_simps(1))
  then show "end_ok (end_at e (put_at d net (s, p, w))) ((g(d := g')) e) (gh_own ((g(d := g')) (other_side e))) \<and>
      gh_una ((g(d := g')) e) \<le> gh_next ((g(d := g')) (other_side e))"
    using side_cases [of e d] assms(2-4) by auto
qed

lemma chunks_length: "list_all chunk_ok own \<Longrightarrow> length own \<le> length (concat own)"
proof (induction own)
  case (Cons c own)
  then show ?case by (cases c) (auto simp: chunk_ok_def)
qed simp

lemma own_bound:
  assumes "end_ok x g peer"
  shows "length (gh_own g) \<le> length (gh_stream g)" "list_all chunk_ok (gh_own g)"
proof -
  obtain bf where e: "send_ok (fst x) (snd x) (gh_own g) (gh_next g) bf (gh_una g) {}"
      "stream_ok (fst x) (gh_own g) (gh_stream g)"
    using assms by (auto simp: end_ok_def endpoint_ok_def)
  show c: "list_all chunk_ok (gh_own g)" by (rule send_okD(14) [OF e(1)])
  then have "length (gh_own g) \<le> length (concat (gh_own g))" by (rule chunks_length)
  also have "\<dots> \<le> length (gh_stream g)" using e(2) unfolding stream_ok_def by (metis length_append le_add1)
  finally show "length (gh_own g) \<le> length (gh_stream g)" .
qed

lemma wire_legal:
  assumes "net_ok net g" "n < length (wire_to d net)"
  shows "legal_pkt (gh_own (g (other_side d))) (gh_next (g (other_side d))) (wire_to d net ! n)"
proof -
  have "end_ok (end_at (other_side d) net) (g (other_side d)) (gh_own (g d))"
    using assms(1) unfolding net_ok_def by (metis other_side_simps(1))
  then show ?thesis
    using assms(2) send_okD(15) by (fastforce simp: end_ok_def endpoint_ok_def wire_to_def)
qed

text \<open>A packet of the other end arrives.\<close>

lemma deliver_legal:
  assumes "end_ok (s, p) g peer" "legal_pkt peer m pkt" "m \<le> length (gh_own g)" "list_all chunk_ok peer"
    and "length (gh_own g) < 2 ^ 31" "length peer < 2 ^ 31"
  shows "\<exists>s' p' w' g' new. deliver env (s, p, w) pkt = Some (s', p', w') \<and> end_ok (s', p') g' peer \<and>
    gh_own g' = gh_own g @ new \<and> gh_una g' \<le> max (gh_una g) m \<and> gh_next g \<le> gh_next g' \<and> gh_stream g' = gh_stream g \<and>
    gh_bufs g' = gh_bufs g"
proof -
  have e: "endpoint_ok s p (gh_own g) peer (gh_stream g) (gh_una g) (gh_next g) (gh_early g) {}" "ts_data_cb s"
      "length (bp_descs p) = gh_bufs g"
    using assms(1) by (auto simp: end_ok_def)
  show ?thesis
  proof (cases "pool_free p = []")
    case True
    obtain p' where "deliver env (s, p, w) pkt = Some (s, p', w)"
        "endpoint_ok s p' (gh_own g) peer (gh_stream g) (gh_una g) (gh_next g) (gh_early g) {}"
        "length (bp_descs p') = length (bp_descs p)"
      using deliver_lost [OF e(1) True, of env w pkt] by blast
    then show ?thesis
      using e(2,3) by (intro exI [of _ s] exI [of _ p'] exI [of _ w] exI [of _ g]) (simp add: end_ok_def)
  next
    case False
    obtain s' p' w' new k' R' a where r: "deliver env (s, p, w) pkt = Some (s', p', w')" "a \<le> m"
        "endpoint_ok s' p' (gh_own g @ new) peer (gh_stream g) (max (gh_una g) a) k' R' {}" "gh_next g \<le> k'"
        "ts_data_cb s' = ts_data_cb s" "length (bp_descs p') = length (bp_descs p)"
      using assms(2)
    proof cases
      case (legal_data i a)
      then show thesis
        using that deliver_data [OF e(1) False assms(4), of i a env w] assms(3,5,6) by (auto dest: le_trans)
    next
      case (legal_ack i a)
      then show thesis
        using that deliver_ack [OF e(1) False, of a env w i] assms(3,5) by (auto dest: le_trans)
    qed
    then show ?thesis
      using e(2,3) by (intro exI [of _ s'] exI [of _ p'] exI [of _ w']
          exI [of _ "\<lparr>gh_own = gh_own g @ new, gh_stream = gh_stream g, gh_una = max (gh_una g) a, gh_next = k', gh_early = R',
            gh_bufs = gh_bufs g\<rparr>"]
          exI [of _ new]) (auto simp: end_ok_def)
  qed
qed

lemma net_okD:
  assumes "net_ok net g"
  shows "end_ok (fst (end_at d net), snd (end_at d net)) (g d) (gh_own (g (other_side d)))"
    and "gh_una (g d) \<le> gh_next (g (other_side d))" "gh_next (g d) \<le> length (gh_own (g (other_side d)))"
    and "list_all chunk_ok (gh_own (g d))" "length (gh_own (g d)) \<le> length (gh_stream (g d))"
    and "endpoint_ok (fst (end_at d net)) (snd (end_at d net)) (gh_own (g d)) (gh_own (g (other_side d)))
      (gh_stream (g d)) (gh_una (g d)) (gh_next (g d)) (gh_early (g d)) {}" "ts_data_cb (fst (end_at d net))"
    and "length (bp_descs (snd (end_at d net))) = gh_bufs (g d)"
proof -
  show e: "end_ok (fst (end_at d net), snd (end_at d net)) (g d) (gh_own (g (other_side d)))"
    and "gh_una (g d) \<le> gh_next (g (other_side d))"
    using assms by (simp_all add: net_ok_def)
  show ep: "endpoint_ok (fst (end_at d net)) (snd (end_at d net)) (gh_own (g d)) (gh_own (g (other_side d)))
      (gh_stream (g d)) (gh_una (g d)) (gh_next (g d)) (gh_early (g d)) {}" and "ts_data_cb (fst (end_at d net))"
    and "length (bp_descs (snd (end_at d net))) = gh_bufs (g d)"
    using e by (simp_all add: end_ok_def)
  show "gh_next (g d) \<le> length (gh_own (g (other_side d)))" using window_end [OF ep] by simp
  show "list_all chunk_ok (gh_own (g d))" "length (gh_own (g d)) \<le> length (gh_stream (g d))"
    using own_bound [OF e] by simp_all
qed

lemma put_local:
  assumes "net_ok net g" "end_ok (s', p') g1 (gh_own (g (other_side d)))" "gh_own g1 = gh_own (g d) @ new"
    and "gh_una g1 \<le> gh_next (g (other_side d))" "gh_next (g d) \<le> gh_next g1" "gh_stream g1 = gh_stream (g d) @ data"
    and "gh_bufs g1 = gh_bufs (g d)"
  shows "\<exists>g'. net_ok (put_at d net (s', p', w')) g' \<and>
    (\<forall>e. gh_stream (g' e) = gh_stream (g e) @ (if e = d then data else []) \<and> gh_next (g e) \<le> gh_next (g' e) \<and>
       gh_bufs (g' e) = gh_bufs (g e))"
  using put_at_ok [OF assms(1-5), of w'] assms(5,6,7) by (intro exI [of _ "g(d := g1)"]) auto

lemma net_deliver_ok:
  assumes "net_ok net g" "\<forall>d. length (gh_stream (g d)) < 2 ^ 31"
  shows "\<exists>net' g'. net_step env (Ev_deliver d w n) net = Some net' \<and> net_ok net' g' \<and>
    (\<forall>d. gh_stream (g' d) = gh_stream (g d) \<and> gh_next (g d) \<le> gh_next (g' d) \<and> gh_bufs (g' d) = gh_bufs (g d))"
proof -
  note ok = net_okD [OF assms(1), of d] note ok' = net_okD [OF assms(1), of "other_side d"]
  show ?thesis
  proof (cases "n < length (wire_to d net)")
    case True
    have "length (gh_own (g d)) < 2 ^ 31" "length (gh_own (g (other_side d))) < 2 ^ 31"
      using assms(2) ok(5) ok'(5) by (auto dest: le_less_trans)
    then obtain s' p' w' g' new where r: "deliver env (state_at d net w) (wire_to d net ! n) = Some (s', p', w')"
        "end_ok (s', p') g' (gh_own (g (other_side d)))" "gh_own g' = gh_own (g d) @ new"
        "gh_una g' \<le> max (gh_una (g d)) (gh_next (g (other_side d)))" "gh_next (g d) \<le> gh_next g'"
        "gh_stream g' = gh_stream (g d)" "gh_bufs g' = gh_bufs (g d)"
      using deliver_legal [OF ok(1) wire_legal [OF assms(1) True], of env w] ok'(3,4) by (auto simp: state_at_def)
    then show ?thesis
      using put_local [OF assms(1) r(2,3), of "[]" w'] True ok(2) by auto
  next
    case False
    then show ?thesis using assms(1) by auto
  qed
qed

lemma net_step_ok:
  assumes "net_ok net g" "event_ok ev" "\<forall>d. length (gh_stream (g d)) < 2 ^ 31"
  shows "\<exists>net' g'. net_step env ev net = Some net' \<and> net_ok net' g' \<and>
    (\<forall>d. gh_stream (g' d) = gh_stream (g d) @ sent_by d [ev] \<and> gh_next (g d) \<le> gh_next (g' d) \<and>
       gh_bufs (g' d) = gh_bufs (g d))"
proof (cases ev)
  case (Ev_send d w data)
  note ok = net_okD [OF assms(1), of d]
  obtain s' p' w' new where r: "send env (state_at d net w) data = Some (s', p', w')" "ts_data_cb s'"
      "endpoint_ok s' p' (gh_own (g d) @ new) (gh_own (g (other_side d))) (gh_stream (g d) @ data)
        (gh_una (g d)) (gh_next (g d)) (gh_early (g d)) {}"
      "length (bp_descs p') = gh_bufs (g d)"
    using send_endpoint [OF ok(6), of env w data] ok(7,8) by (auto simp: state_at_def)
  show ?thesis
    using put_local [OF assms(1), of s' p' "(g d)\<lparr>gh_own := gh_own (g d) @ new, gh_stream := gh_stream (g d) @ data\<rparr>" d new data w']
      r ok(2) Ev_send by (auto simp: end_ok_def)
next
  case (Ev_tick d w)
  note ok = net_okD [OF assms(1), of d]
  obtain s' p' w' new where r: "tick env (state_at d net w) = Some (s', p', w')" "ts_data_cb s'"
      "endpoint_ok s' p' (gh_own (g d) @ new) (gh_own (g (other_side d))) (gh_stream (g d))
        (gh_una (g d)) (gh_next (g d)) (gh_early (g d)) {}"
      "length (bp_descs p') = gh_bufs (g d)"
    using tick_endpoint [OF ok(6), of env w] ok(7,8) by (auto simp: state_at_def)
  show ?thesis
    using put_local [OF assms(1), of s' p' "(g d)\<lparr>gh_own := gh_own (g d) @ new\<rparr>" d new "[]" w']
      r ok(2) Ev_tick by (auto simp: end_ok_def)
next
  case (Ev_deliver d w n)
  then show ?thesis using net_deliver_ok [OF assms(1,3), of env d w n] by simp
next
  case (Ev_damaged d w pkt)
  note ok = net_okD [OF assms(1), of d]
  obtain p' where r: "deliver env (state_at d net w) pkt = Some (fst (end_at d net), p', w)"
      "endpoint_ok (fst (end_at d net)) p' (gh_own (g d)) (gh_own (g (other_side d))) (gh_stream (g d))
        (gh_una (g d)) (gh_next (g d)) (gh_early (g d)) {}"
      "length (bp_descs p') = gh_bufs (g d)"
    using deliver_damaged [OF ok(6), of pkt env w] assms(2) ok(8) Ev_damaged by (auto simp: state_at_def)
  show ?thesis
    using put_local [OF assms(1), of "fst (end_at d net)" p' "g d" d "[]" "[]" w]
      r ok(2,7) Ev_damaged by (auto simp: end_ok_def)
qed

lemma sent_by_append [simp]: "sent_by d (evs @ evs') = sent_by d evs @ sent_by d evs'"
  by (induction evs) simp_all

lemma net_run_append: "net_run env (evs @ evs') net = Option.bind (net_run env evs net) (net_run env evs')"
proof (induction evs arbitrary: net)
  case (Cons ev evs)
  then show ?case by (cases "net_step env ev net") simp_all
qed simp

lemma net_run_ok:
  assumes "net_ok net g" "\<forall>ev \<in> set evs. event_ok ev" "\<forall>d. length (gh_stream (g d)) + length (sent_by d evs) < 2 ^ 31"
  shows "\<exists>net' g'. net_run env evs net = Some net' \<and> net_ok net' g' \<and>
    (\<forall>d. gh_stream (g' d) = gh_stream (g d) @ sent_by d evs \<and> gh_next (g d) \<le> gh_next (g' d) \<and>
       gh_bufs (g' d) = gh_bufs (g d))"
  using assms
proof (induction evs arbitrary: net g)
  case Nil
  then show ?case by auto
next
  case (Cons ev evs)
  have split: "sent_by d (ev # evs) = sent_by d [ev] @ sent_by d evs" for d by simp
  have "\<forall>d. length (gh_stream (g d)) < 2 ^ 31" using Cons.prems(3) by (auto dest: add_lessD1)
  then obtain net1 g1 where 1: "net_step env ev net = Some net1" "net_ok net1 g1"
      "\<forall>d. gh_stream (g1 d) = gh_stream (g d) @ sent_by d [ev] \<and> gh_next (g d) \<le> gh_next (g1 d) \<and>
        gh_bufs (g1 d) = gh_bufs (g d)"
    using net_step_ok [OF Cons.prems(1), of ev env] Cons.prems(2) by auto
  have "\<forall>d. length (gh_stream (g1 d)) + length (sent_by d evs) < 2 ^ 31"
    using Cons.prems(3) 1(3) split by (simp add: add.assoc del: sent_by.simps)
  then obtain net' g' where "net_run env evs net1 = Some net'" "net_ok net' g'"
      "\<forall>d. gh_stream (g' d) = gh_stream (g1 d) @ sent_by d evs \<and> gh_next (g1 d) \<le> gh_next (g' d) \<and>
        gh_bufs (g' d) = gh_bufs (g1 d)"
    using Cons.IH [OF 1(2)] Cons.prems(2) by auto
  then show ?case
    using 1 split by (intro exI [of _ net'] exI [of _ g']) (auto simp del: sent_by.simps intro: le_trans)
qed

section \<open>Start and end\<close>

definition fresh_pool :: "buffer_pool \<Rightarrow> bool" where
  "fresh_pool p \<longleftrightarrow> pool_ok p \<and> 1040 \<le> unat (bp_buffer_size p) \<and> {..<length (bp_descs p)} \<subseteq> set (pool_free p)"

lemma buffer_pool_new_fresh:
  assumes "buffer_pool_new k os reg bsize cnt node = Some (Inr p, reg', os')" "unat cnt < 2 ^ 32" "1040 \<le> unat bsize"
  shows "fresh_pool p" "length (bp_descs p) = unat cnt"
  using buffer_pool_new_cases [OF assms(1,2)] threaded_pool_ok [of p] assms(2,3) by (auto simp: fresh_pool_def)

definition start_ghost :: "buffer_pool \<Rightarrow> buffer_pool \<Rightarrow> side \<Rightarrow> ghost" where
  "start_ghost pa pb d = \<lparr>gh_own = [], gh_stream = [], gh_una = 0, gh_next = 0, gh_early = {},
     gh_bufs = length (bp_descs (case d of Side_A \<Rightarrow> pa | Side_B \<Rightarrow> pb))\<rparr>"

lemma net_start_ok: "fresh_pool pa \<Longrightarrow> fresh_pool pb \<Longrightarrow> net_ok (net_start pa pb) (start_ghost pa pb)"
proof -
  assume f: "fresh_pool pa" "fresh_pool pb"
  have e: "endpoint_ok (set_data_callback session_new) p [] [] [] 0 0 {} {}" if "fresh_pool p" for p
    using that session_new_endpoint [of p "{}" "[]"] by (simp add: fresh_pool_def)
  have "ts_data_cb (set_data_callback session_new)" by (simp add: set_data_callback_def)
  then have "end_ok (end_at d (net_start pa pb)) (start_ghost pa pb d) []" for d
    using e f by (cases d) (simp_all add: end_ok_def net_start_def start_ghost_def)
  then show ?thesis by (simp add: net_ok_def start_ghost_def)
qed

lemma delivered_take:
  assumes "net_ok net g"
  shows "delivered_at d net = concat (take (gh_next (g d)) (gh_own (g (other_side d))))"
  using net_okD(6,7) [OF assms, of d] recv_okD(8) by (fastforce simp: delivered_at_def endpoint_ok_def)

lemma delivered_prefix:
  assumes "net_ok net g"
  shows "prefix (delivered_at d net) (gh_stream (g (other_side d)))"
proof -
  have "prefix (concat (gh_own (g (other_side d)))) (gh_stream (g (other_side d)))"
    using net_okD(6) [OF assms, of "other_side d"] unfolding endpoint_ok_def stream_ok_def by (metis prefixI)
  moreover have "prefix (delivered_at d net) (concat (gh_own (g (other_side d))))"
    unfolding delivered_take [OF assms] by (metis append_take_drop_id concat_append prefixI)
  ultimately show ?thesis by (rule prefix_order.trans [rotated])
qed

lemma bump_pool:
  fixes cnt :: u64
  assumes "cnt \<noteq> 0" "unat cnt < 2 ^ 32"
  shows "\<exists>p. fresh_pool p \<and> length (bp_descs p) = unat cnt \<and> bp_buffer_size p = 2048"
  using bump_pool_exists [of 2048 cnt] assms by (auto simp: fresh_pool_def)

text \<open>Damage to a few bytes of the payload of a packet that verifies is damage in this sense.\<close>

lemma damaged_burst:
  assumes "verify_checksum h (xs @ bs @ ys)" "length bs = length bs'" "length bs \<le> 4" "bs \<noteq> bs'"
    and "unat (th_payload_len h) = length (xs @ bs @ ys)" "length (xs @ bs @ ys) \<le> 1024"
  shows "damaged (hdr_bytes h @ xs @ bs' @ ys)"
proof -
  let ?h = "hdr_bytes (h\<lparr>th_checksum := 0\<rparr>)"
  have "crc32_seg ?h (xs @ bs @ ys) \<noteq> crc32_seg ?h (xs @ bs' @ ys)"
    by (rule crc32_seg_differs [OF assms(2-4), where xs = "?h @ xs" and ys = ys]) simp_all
  then have "\<not> verify_checksum h (xs @ bs' @ ys)" using assms(1) by (simp add: verify_checksum_def)
  then show ?thesis using assms(2,5,6) by (simp add: damaged_def)
qed

section \<open>Properties\<close>

text \<open>
  C1. The byte stream. Two sessions start on fresh pools with buffers of at least 1040 bytes, and each is
  given less than \<open>2 ^ 31\<close> bytes. In every run, whatever the network loses, repeats, delays or reorders, whatever
  the clocks show, and whatever complete packets arrive whose length field stays inside the packet and whose checksum
  fails (by \<open>damaged_burst\<close> these include the packets damaged in up to four consecutive bytes of the payload), no operation
  leaves a buffer or releases one twice, and what one end has delivered is a prefix of what the other end was given.
  Packets damaged so that the length field points outside them are excluded.
\<close>

theorem tcp_stream:
  assumes "fresh_pool pa" "fresh_pool pb"
    and "\<forall>ev \<in> set evs. event_ok ev" "\<forall>d. length (sent_by d evs) < 2 ^ 31"
  shows "\<exists>net. net_run env evs (net_start pa pb) = Some net \<and>
    (\<forall>d. prefix (delivered_at d net) (sent_by (other_side d) evs) \<and>
       ts_bytes_received (fst (end_at d net)) = of_nat (length (delivered_at d net)))"
proof -
  obtain net g where r: "net_run env evs (net_start pa pb) = Some net" "net_ok net g"
      "\<forall>d. gh_stream (g d) = sent_by d evs"
    using net_run_ok [OF net_start_ok [OF assms(1,2)], of evs env] assms(3,4) by (auto simp: start_ghost_def)
  have "ts_bytes_received (fst (end_at d net)) = of_nat (length (delivered_at d net))" for d
    unfolding delivered_take [OF r(2)] using net_okD(6) [OF r(2), of d]
    unfolding endpoint_ok_def by (blast dest: recv_okD(7))
  then show ?thesis using r(1,3) delivered_prefix [OF r(2)] by auto
qed

text \<open>A concrete environment: a counter as the clock.\<close>

definition counter_env :: "u64 tcp_env" where
  "counter_env = \<lparr>te_rdtsc = (\<lambda>w. (w, w + 1)), te_ns = (\<lambda>c. c), te_cycles = (\<lambda>n. n)\<rparr>"

definition sample_run :: "u64 net_event list" where
  "sample_run = [Ev_send Side_A 5 [1, 2, 3], Ev_deliver Side_B 9 0, Ev_deliver Side_B 11 0,
     Ev_damaged Side_B 12 [0, 0, 0, 0, 0, 0, 0, 0, 0, 0, 0, 0, 0, 0, 0, 0], Ev_tick Side_B 20, Ev_deliver Side_A 30 0]"

lemma damaged_zeroes: "damaged [0, 0, 0, 0, 0, 0, 0, 0, 0, 0, 0, 0, 0, 0, 0, 0]"
proof -
  have z: "[0, 0, 0, 0, 0, 0, 0, 0, 0, 0, 0, 0, 0, 0, 0, 0] = hdr_bytes zero_header" "zero_header\<lparr>th_checksum := 0\<rparr> = zero_header"
    by (simp_all add: hdr_bytes_def zero_header_def le32_def le16_def)
  have "foldl (\<lambda>c b. (crc_bit ^^ 8) (c XOR ucast b)) 0xFFFFFFFF ([0, 0, 0, 0, 0, 0, 0, 0, 0, 0, 0, 0, 0, 0, 0, 0] :: bytes) XOR 0xFFFFFFFF \<noteq> 0"
    by (simp add: crc_bit_8 crc_bit_numeral)
  then have "crc32_seg (hdr_bytes zero_header) [] \<noteq> 0" by (simp add: crc32_seg_def crc_loop_foldl flip: z(1))
  then have "\<not> verify_checksum zero_header []" by (simp add: verify_checksum_def z zero_header_def)
  then show ?thesis unfolding z(1) by (simp add: damaged_def zero_header_def Let_def)
qed

lemma sample_run_ok:
  "\<forall>ev \<in> set sample_run. event_ok ev" "sent_by Side_A sample_run = [1, 2, 3]" "sent_by Side_B sample_run = []"
  by (simp_all add: sample_run_def damaged_zeroes)

theorem tcp_stream_witness:
  "\<exists>p net. fresh_pool p \<and> net_run counter_env sample_run (net_start p p) = Some net \<and>
     prefix (delivered_at Side_B net) [1, 2, 3]"
proof -
  obtain p where p: "fresh_pool p" using bump_pool [of 300] by auto
  have "\<forall>d. length (sent_by d sample_run) < 2 ^ 31"
  proof
    fix d show "length (sent_by d sample_run) < 2 ^ 31" by (cases d) (simp_all add: sample_run_ok)
  qed
  then obtain net where "net_run counter_env sample_run (net_start p p) = Some net"
      "\<forall>d. prefix (delivered_at d net) (sent_by (other_side d) sample_run) \<and>
        ts_bytes_received (fst (end_at d net)) = of_nat (length (delivered_at d net))"
    using tcp_stream [OF p p sample_run_ok(1), of counter_env] by blast
  then show ?thesis using p sample_run_ok(2) by (metis other_side.simps(2))
qed

text \<open>
  C7. No buffer is lost. After any run with such events the free buffers and the packets still unacknowledged make up the
  whole pool, and the destructor of the session hands the last of them back.
\<close>

theorem tcp_buffers:
  assumes "fresh_pool pa" "fresh_pool pb"
    and "\<forall>ev \<in> set evs. event_ok ev" "\<forall>d. length (sent_by d evs) < 2 ^ 31"
  shows "\<exists>net. net_run env evs (net_start pa pb) = Some net \<and>
    (\<forall>d. \<exists>p' q. session_delete (fst (end_at d net)) (snd (end_at d net)) = Some (p', q) \<and> pool_ok p' \<and>
       length (pool_free p') = length (bp_descs (snd (end_at d (net_start pa pb)))) \<and>
       length (pool_free (snd (end_at d net))) + unat (ts_next_seq (fst (end_at d net)) - ts_snd_una (fst (end_at d net))) =
         length (bp_descs (snd (end_at d (net_start pa pb)))))"
proof -
  obtain net g where r: "net_run env evs (net_start pa pb) = Some net" "net_ok net g"
      "\<forall>d. gh_bufs (g d) = gh_bufs (start_ghost pa pb d)"
    using net_run_ok [OF net_start_ok [OF assms(1,2)], of evs env] assms(3,4) by (auto simp: start_ghost_def)
  have n: "gh_bufs (g d) = length (bp_descs (snd (end_at d (net_start pa pb))))" for d
    using r(3) by (cases d) (simp_all add: start_ghost_def net_start_def)
  have "\<exists>p' q. session_delete (fst (end_at d net)) (snd (end_at d net)) = Some (p', q) \<and> pool_ok p' \<and>
       length (pool_free p') = gh_bufs (g d) \<and>
       length (pool_free (snd (end_at d net))) + unat (ts_next_seq (fst (end_at d net)) - ts_snd_una (fst (end_at d net))) =
         gh_bufs (g d)" for d
  proof -
    note ok = net_okD [OF r(2), of d]
    obtain bf where e: "send_ok (fst (end_at d net)) (snd (end_at d net)) (gh_own (g d)) (gh_next (g d)) bf (gh_una (g d)) {}"
      using ok(6) by (auto simp: endpoint_ok_def)
    note so = send_okD [OF e]
    have "ts_next_seq (fst (end_at d net)) - ts_snd_una (fst (end_at d net)) = of_nat (length (gh_own (g d)) - gh_una (g d))"
      using so(8,9,11) by (simp add: of_nat_diff)
    moreover have "unat (of_nat (length (gh_own (g d)) - gh_una (g d)) :: u32) = length (gh_own (g d)) - gh_una (g d)"
      using so(12) by (intro unat_of_nat_u32) simp
    moreover have "length (pool_free (snd (end_at d net))) + (length (gh_own (g d)) - gh_una (g d)) = gh_bufs (g d)"
      using buffers_count [of "snd (end_at d net)" bf "gh_una (g d)" "length (gh_own (g d))" "{}"] e ok(8)
      by (simp add: send_ok_def)
    ultimately show ?thesis
      using session_delete_frees [OF ok(6)] ok(8) by (auto simp: keeps_foreign_def)
  qed
  then show ?thesis using r(1) n by auto
qed

theorem tcp_buffers_witness:
  "\<exists>p net p' q. fresh_pool p \<and> net_run counter_env sample_run (net_start p p) = Some net \<and>
     session_delete (fst (end_at Side_A net)) (snd (end_at Side_A net)) = Some (p', q) \<and> length (pool_free p') = 300"
proof -
  obtain p where p: "fresh_pool p" "length (bp_descs p) = 300" using bump_pool [of 300] by auto
  have "\<forall>d. length (sent_by d sample_run) < 2 ^ 31"
  proof
    fix d show "length (sent_by d sample_run) < 2 ^ 31" by (cases d) (simp_all add: sample_run_ok)
  qed
  from tcp_buffers [OF p(1) p(1) sample_run_ok(1) this, of counter_env] show ?thesis
    using p by (auto simp: net_start_def dest!: spec [of _ Side_A])
qed

end
