(* ===== verification/Tcp_Progress.thy ===== *)
theory Tcp_Progress
  imports Tcp_Channel
begin

text \<open>
  TCP-Lite does not get stuck. From every state a run can reach, a further run without calls of \<^verbatim>\<open>send\<close>
  exists after which both ends have delivered everything that was sent: expired packets are sent again,
  arrivals are acknowledged at the next \<^verbatim>\<open>tick\<close>, and acknowledgements open the window. What is needed
  of the environment is a clock that can reach every value, and more than 256 buffers in each pool, so
  that a full send window leaves a buffer for an arriving acknowledgement.
\<close>

section \<open>Further runs\<close>

fun quiet :: "'w net_event \<Rightarrow> bool" where
  "quiet (Ev_tick d w) = True"
| "quiet (Ev_deliver d w n) = True"
| "quiet _ = False"

definition leads :: "'w tcp_env \<Rightarrow> tcp_net \<Rightarrow> tcp_net \<Rightarrow> bool" where
  "leads env net net' \<longleftrightarrow> (\<exists>evs. list_all quiet evs \<and> net_run env evs net = Some net')"

lemma leads_refl [simp]: "leads env net net"
  unfolding leads_def by (intro exI [of _ "[]"]) simp

lemma leads_trans: "leads env net net1 \<Longrightarrow> leads env net1 net2 \<Longrightarrow> leads env net net2"
proof -
  assume "leads env net net1" "leads env net1 net2"
  then obtain evs evs' where "list_all quiet evs" "net_run env evs net = Some net1"
      "list_all quiet evs'" "net_run env evs' net1 = Some net2"
    unfolding leads_def by blast
  then show ?thesis
    unfolding leads_def by (intro exI [of _ "evs @ evs'"]) (simp add: net_run_append)
qed

lemma leads_step: "net_step env ev net = Some net' \<Longrightarrow> quiet ev \<Longrightarrow> leads env net net'"
  unfolding leads_def by (intro exI [of _ "[ev]"]) simp

lemma quiet_silent: "list_all quiet evs \<Longrightarrow> sent_by d evs = []" "list_all quiet evs \<Longrightarrow> \<forall>ev \<in> set evs. event_ok ev"
  by (induction evs) (auto elim: quiet.elims split: net_event.splits)

definition clock_runs :: "'w tcp_env \<Rightarrow> bool" where
  "clock_runs env \<longleftrightarrow> (\<forall>t. \<exists>w. fst (te_rdtsc env w) = t)"

definition good :: "tcp_net \<Rightarrow> (side \<Rightarrow> ghost) \<Rightarrow> bool" where
  "good net g \<longleftrightarrow> net_ok net g \<and> (\<forall>d. 256 < gh_bufs (g d) \<and> length (gh_stream (g d)) < 2 ^ 31)"

definition later :: "(side \<Rightarrow> ghost) \<Rightarrow> (side \<Rightarrow> ghost) \<Rightarrow> bool" where
  "later g g' \<longleftrightarrow> (\<forall>d. gh_stream (g' d) = gh_stream (g d) \<and> gh_bufs (g' d) = gh_bufs (g d) \<and>
     gh_next (g d) \<le> gh_next (g' d) \<and> prefix (gh_own (g d)) (gh_own (g' d)))"

lemma later_refl [simp]: "later g g"
  by (simp add: later_def)

lemma later_trans: "later g g1 \<Longrightarrow> later g1 g2 \<Longrightarrow> later g g2"
  unfolding later_def by (metis le_trans prefix_order.trans)

lemma good_later: "good net g \<Longrightarrow> later g g' \<Longrightarrow> net_ok net' g' \<Longrightarrow> good net' g'"
  by (simp add: good_def later_def)

lemma free_buffer:
  assumes "good net g"
  shows "pool_free (snd (end_at d net)) \<noteq> []"
proof
  assume e: "pool_free (snd (end_at d net)) = []"
  have n: "net_ok net g" using assms by (simp add: good_def)
  obtain bf where s: "send_ok (fst (end_at d net)) (snd (end_at d net)) (gh_own (g d)) (gh_next (g d)) bf (gh_una (g d)) {}"
    using net_okD(6) [OF n, of d] by (auto simp: endpoint_ok_def)
  then have "length (gh_own (g d)) - gh_una (g d) = gh_bufs (g d)"
    using buffers_count [of "snd (end_at d net)" bf] net_okD(8) [OF n, of d] e by (fastforce simp: send_ok_def)
  then show False using send_okD(12) [OF s] assms by (auto simp: good_def dest!: spec [of _ d])
qed

section \<open>The timer\<close>

lemma wire_nth: "pkt \<in> set (ts_out (fst (end_at d net))) \<Longrightarrow> \<exists>n < length (wire_to (other_side d) net). wire_to (other_side d) net ! n = pkt"
  by (auto simp: wire_to_def in_set_conv_nth)

lemma net_tick:
  assumes "good net g"
  shows "\<exists>net' new. net_step env (Ev_tick d w) net = Some net' \<and>
    good net' (g(d := (g d)\<lparr>gh_own := gh_own (g d) @ new\<rparr>)) \<and>
    (\<forall>seq \<in> set (check_timeouts (ts_unacked (fst (end_at d net))) (fst (te_rdtsc env w))
         (te_cycles env (ts_rto_ns (fst (end_at d net))))).
       \<exists>pkt \<in> set (ts_out (fst (end_at d net'))). resent (gh_own (g d)) (gh_next (g d)) seq pkt) \<and>
    (ts_pending_ack (fst (end_at d net)) \<longrightarrow>
       ack_pkt (length (gh_own (g d) @ new)) (gh_next (g d)) \<in> set (ts_out (fst (end_at d net')))) \<and>
    (new \<noteq> [] \<or> concat (gh_own (g d)) = gh_stream (g d) \<or> length (gh_own (g d)) = gh_una (g d) + 256)"
proof -
  have n: "net_ok net g" using assms by (simp add: good_def)
  note ok = net_okD [OF n, of d]
  obtain s' p' w' new where t: "tick env (fst (end_at d net), snd (end_at d net), w) = Some (s', p', w')"
      "endpoint_ok s' p' (gh_own (g d) @ new) (gh_own (g (other_side d))) (gh_stream (g d)) (gh_una (g d)) (gh_next (g d)) (gh_early (g d)) {}"
      "ts_data_cb s' = ts_data_cb (fst (end_at d net))" "length (bp_descs p') = length (bp_descs (snd (end_at d net)))"
      "\<forall>seq \<in> set (check_timeouts (ts_unacked (fst (end_at d net))) (fst (te_rdtsc env w))
         (te_cycles env (ts_rto_ns (fst (end_at d net))))). \<exists>pkt \<in> set (ts_out s'). resent (gh_own (g d)) (gh_next (g d)) seq pkt"
      "ts_pending_ack (fst (end_at d net)) \<longrightarrow> ack_pkt (length (gh_own (g d) @ new)) (gh_next (g d)) \<in> set (ts_out s')"
      "stalled s' p' (gh_own (g d) @ new) (gh_una (g d))"
    using tick_endpoint [OF ok(6), of env w] by blast
  let ?net = "put_at d net (s', p', w')" let ?g = "(g d)\<lparr>gh_own := gh_own (g d) @ new\<rparr>"
  have "end_ok (s', p') ?g (gh_own (g (other_side d)))" using t ok(7,8) by (simp add: end_ok_def)
  then have "net_ok ?net (g(d := ?g))" using put_at_ok [OF n, of s' p' ?g d new w'] ok(2) by simp
  then have gd: "good ?net (g(d := ?g))" using good_later [OF assms, of "g(d := ?g)"] by (simp add: later_def)
  have "new \<noteq> [] \<or> concat (gh_own (g d)) = gh_stream (g d) \<or> length (gh_own (g d)) = gh_una (g d) + 256"
    using t(2,7) free_buffer [OF gd, of d] by (auto simp: stalled_def endpoint_ok_def stream_ok_def)
  then show ?thesis
    using t gd by (intro exI [of _ ?net] exI [of _ new]) (simp add: state_at_def)
qed

text \<open>A packet of the send window is sent again at a tick late enough.\<close>

lemma net_resend:
  assumes "good net g" "clock_runs env" "gh_una (g d) \<le> i" "i < length (gh_own (g d))"
  shows "\<exists>net' new n a. leads env net net' \<and> good net' (g(d := (g d)\<lparr>gh_own := gh_own (g d) @ new\<rparr>)) \<and>
    n < length (wire_to (other_side d) net') \<and> a \<le> gh_next (g d) \<and>
    wire_to (other_side d) net' ! n = data_pkt i a (gh_own (g d) ! i)"
proof -
  have n: "net_ok net g" using assms(1) by (simp add: good_def)
  let ?s = "fst (end_at d net)"
  obtain bf where "uq_rel (ts_unacked ?s) (gh_una (g d)) (length (gh_own (g d))) bf"
    using net_okD(6) [OF n, of d] unfolding endpoint_ok_def by (blast dest: send_okD(10))
  then have slot: "ts_unacked ?s ! (i mod 256) \<in> set (ts_unacked ?s)" "sl_occupied (ts_unacked ?s ! (i mod 256))"
      "sl_seq (ts_unacked ?s ! (i mod 256)) = of_nat i"
    using assms(3,4) by (auto simp: uq_rel_def)
  obtain w where "fst (te_rdtsc env w) = sl_sent_tsc (ts_unacked ?s ! (i mod 256)) + te_cycles env (ts_rto_ns ?s)"
    using assms(2) unfolding clock_runs_def by blast
  then have late: "of_nat i \<in> set (check_timeouts (ts_unacked ?s) (fst (te_rdtsc env w)) (te_cycles env (ts_rto_ns ?s)))"
    using slot by (force simp: check_timeouts_def)
  obtain net' new where t: "net_step env (Ev_tick d w) net = Some net'"
      "good net' (g(d := (g d)\<lparr>gh_own := gh_own (g d) @ new\<rparr>))"
      "\<exists>pkt \<in> set (ts_out (fst (end_at d net'))). resent (gh_own (g d)) (gh_next (g d)) (of_nat i) pkt"
    using net_tick [OF assms(1), of env d w] late by blast
  obtain i' a where r: "(of_nat i :: u32) = of_nat i'" "i' < length (gh_own (g d))" "a \<le> gh_next (g d)"
      "data_pkt i' a (gh_own (g d) ! i') \<in> set (ts_out (fst (end_at d net')))"
    using t(3) by (auto simp: resent_def)
  have "length (gh_own (g d)) < 2 ^ 32" using net_okD(5) [OF n, of d] assms(1) by (auto simp: good_def dest!: spec [of _ d])
  then have "i = i'" using r(1,2) assms(4) unat_of_nat_u32 [of i] unat_of_nat_u32 [of i'] by (metis less_trans)
  moreover have "leads env net net'" by (rule leads_step [OF t(1)]) simp
  ultimately show ?thesis using t(2) r(3) wire_nth [OF r(4)] by blast
qed

section \<open>Arrivals\<close>

lemma net_arrival:
  assumes "good net g" "n < length (wire_to d net)" "wire_to d net ! n = data_pkt i a (gh_own (g (other_side d)) ! i)"
    and "i < length (gh_own (g (other_side d)))" "a \<le> gh_next (g (other_side d))"
  shows "\<exists>net' g'. leads env net net' \<and> good net' g' \<and> later g g' \<and> g' (other_side d) = g (other_side d) \<and>
    (i = gh_next (g d) \<longrightarrow> i < gh_next (g' d)) \<and> ts_pending_ack (fst (end_at d net'))"
proof -
  have n: "net_ok net g" using assms(1) by (simp add: good_def)
  note ok = net_okD [OF n, of d] note ok' = net_okD [OF n, of "other_side d"]
  have b: "length (gh_own (g d)) < 2 ^ 31" "length (gh_own (g (other_side d))) < 2 ^ 31"
    using ok(5) ok'(5) assms(1) by (auto simp: good_def dest: le_less_trans)
  have a: "a \<le> length (gh_own (g d))" using assms(5) ok'(3) by simp
  obtain w :: 'a where True by simp
  obtain s' p' w' new k' R' where r:
      "deliver env (state_at d net w) (data_pkt i a (gh_own (g (other_side d)) ! i)) = Some (s', p', w')"
      "endpoint_ok s' p' (gh_own (g d) @ new) (gh_own (g (other_side d))) (gh_stream (g d)) (max (gh_una (g d)) a) k' R' {}"
      "gh_next (g d) \<le> k'" "ts_data_cb s' = ts_data_cb (fst (end_at d net))"
      "length (bp_descs p') = length (bp_descs (snd (end_at d net)))"
      "{i} \<inter> {gh_next (g d)..<gh_next (g d) + 256} \<subseteq> {..<k'} \<union> R'" "ts_pending_ack s'"
    using deliver_data [OF ok(6) free_buffer [OF assms(1)] ok'(4) assms(4) a b, of env w] by (auto simp: state_at_def)
  let ?g = "\<lparr>gh_own = gh_own (g d) @ new, gh_stream = gh_stream (g d), gh_una = max (gh_una (g d)) a, gh_next = k',
    gh_early = R', gh_bufs = gh_bufs (g d)\<rparr>"
  have "end_ok (s', p') ?g (gh_own (g (other_side d)))" using r(2,4,5) ok(7,8) by (simp add: end_ok_def)
  then have "net_ok (put_at d net (s', p', w')) (g(d := ?g))"
    using put_at_ok [OF n, of s' p' ?g d new w'] r(3) ok(2) assms(5) by simp
  moreover have l: "later g (g(d := ?g))" using r(3) by (simp add: later_def)
  ultimately have "good (put_at d net (s', p', w')) (g(d := ?g))" using good_later [OF assms(1)] by blast
  moreover have "leads env net (put_at d net (s', p', w'))"
    using leads_step [of env "Ev_deliver d w n"] assms(2,3) r(1) by simp
  moreover have "k' \<notin> R'" "R' \<subseteq> {k'..<k' + 256}"
    using r(2) unfolding endpoint_ok_def by (blast, blast dest: recv_okD(4))
  then have "i = gh_next (g d) \<longrightarrow> i < k'" using r(3,6) by (auto simp: le_eq_less_or_eq)
  ultimately show ?thesis
    using l r(7) by (intro exI [of _ "put_at d net (s', p', w')"] exI [of _ "g(d := ?g)"]) simp
qed

lemma net_ack_arrival:
  assumes "good net g" "n < length (wire_to d net)" "wire_to d net ! n = ack_pkt i a" "a = gh_next (g (other_side d))"
  shows "\<exists>net' g'. leads env net net' \<and> good net' g' \<and> later g g' \<and> g' (other_side d) = g (other_side d) \<and>
    gh_una (g' d) = a"
proof -
  have n: "net_ok net g" using assms(1) by (simp add: good_def)
  note ok = net_okD [OF n, of d] note ok' = net_okD [OF n, of "other_side d"]
  have b: "length (gh_own (g d)) < 2 ^ 31" "a \<le> length (gh_own (g d))"
    using ok(5) ok'(3) assms(1,4) by (auto simp: good_def dest: le_less_trans)
  obtain w :: 'a where True by simp
  obtain s' p' w' new k' R' where r: "deliver env (state_at d net w) (ack_pkt i a) = Some (s', p', w')"
      "endpoint_ok s' p' (gh_own (g d) @ new) (gh_own (g (other_side d))) (gh_stream (g d)) (max (gh_una (g d)) a) k' R' {}"
      "gh_next (g d) \<le> k'" "ts_data_cb s' = ts_data_cb (fst (end_at d net))"
      "length (bp_descs p') = length (bp_descs (snd (end_at d net)))"
    using deliver_ack [OF ok(6) free_buffer [OF assms(1)] b(2,1), of env w i] by (auto simp: state_at_def)
  let ?g = "\<lparr>gh_own = gh_own (g d) @ new, gh_stream = gh_stream (g d), gh_una = max (gh_una (g d)) a, gh_next = k',
    gh_early = R', gh_bufs = gh_bufs (g d)\<rparr>"
  have "end_ok (s', p') ?g (gh_own (g (other_side d)))" using r(2,4,5) ok(7,8) by (simp add: end_ok_def)
  then have "net_ok (put_at d net (s', p', w')) (g(d := ?g))"
    using put_at_ok [OF n, of s' p' ?g d new w'] r(3) ok(2) assms(4) by simp
  moreover have l: "later g (g(d := ?g))" using r(3) by (simp add: later_def)
  ultimately have "good (put_at d net (s', p', w')) (g(d := ?g))" using good_later [OF assms(1)] by blast
  moreover have "leads env net (put_at d net (s', p', w'))"
    using leads_step [of env "Ev_deliver d w n"] assms(2,3) r(1) by simp
  moreover have "max (gh_una (g d)) a = a" using ok(2) assms(4) by simp
  ultimately show ?thesis
    using l by (intro exI [of _ "put_at d net (s', p', w')"] exI [of _ "g(d := ?g)"]) simp
qed

section \<open>Progress\<close>

lemma later_tick: "later g (g(d := (g d)\<lparr>gh_own := gh_own (g d) @ new\<rparr>))"
  by (simp add: later_def)

text \<open>A packet is missing: it is sent again and arrives.\<close>

lemma advance_missing:
  assumes "good net g" "clock_runs env" "gh_next (g d) < length (gh_own (g (other_side d)))"
  shows "\<exists>net' g'. leads env net net' \<and> good net' g' \<and> later g g' \<and> gh_next (g d) < gh_next (g' d)"
proof -
  let ?e = "other_side d" let ?i = "gh_next (g d)"
  have "gh_una (g ?e) \<le> ?i" using assms(1) net_okD(2) [of net g ?e] by (simp add: good_def)
  then obtain net1 new n a where 1: "leads env net net1" "good net1 (g(?e := (g ?e)\<lparr>gh_own := gh_own (g ?e) @ new\<rparr>))"
      "n < length (wire_to d net1)" "a \<le> gh_next (g ?e)" "wire_to d net1 ! n = data_pkt ?i a (gh_own (g ?e) ! ?i)"
    using net_resend [OF assms(1,2) _ assms(3)] by auto
  let ?g = "g(?e := (g ?e)\<lparr>gh_own := gh_own (g ?e) @ new\<rparr>)"
  obtain net2 g2 where 2: "leads env net1 net2" "good net2 g2" "later ?g g2" "?i < gh_next (g2 d)"
    using net_arrival [OF 1(2,3), of ?i a env] 1(4,5) assms(3) by (auto simp: nth_append)
  show ?thesis
    using leads_trans [OF 1(1) 2(1)] 2(2,4) later_trans [OF later_tick 2(3)] by blast
qed

text \<open>Bytes are waiting and the window is open: the next tick numbers a packet.\<close>

lemma advance_waiting:
  assumes "good net g" "concat (gh_own (g e)) \<noteq> gh_stream (g e)" "length (gh_own (g e)) \<noteq> gh_una (g e) + 256"
  shows "\<exists>net' g'. leads env net net' \<and> good net' g' \<and> later g g' \<and> length (gh_own (g e)) < length (gh_own (g' e)) \<and>
    gh_next (g' (other_side e)) = gh_next (g (other_side e))"
proof -
  obtain w :: 'a where True by simp
  obtain net' new where t: "net_step env (Ev_tick e w) net = Some net'"
      "good net' (g(e := (g e)\<lparr>gh_own := gh_own (g e) @ new\<rparr>))" "new \<noteq> []"
    using net_tick [OF assms(1), of env e w] assms(2,3) by blast
  then show ?thesis
    using leads_step [OF t(1)] later_tick [of g e new]
    by (intro exI [of _ net'] exI [of _ "g(e := (g e)\<lparr>gh_own := gh_own (g e) @ new\<rparr>)"]) simp
qed

text \<open>The window is full: its oldest packet is sent again, which makes the other end acknowledge everything.\<close>

lemma advance_full:
  assumes "good net g" "clock_runs env" "gh_una (g e) < length (gh_own (g e))"
  shows "\<exists>net' g'. leads env net net' \<and> good net' g' \<and> later g g' \<and> gh_una (g' e) = gh_next (g' (other_side e))"
proof -
  let ?d = "other_side e" let ?i = "gh_una (g e)"
  obtain net1 new n a where 1: "leads env net net1" "good net1 (g(e := (g e)\<lparr>gh_own := gh_own (g e) @ new\<rparr>))"
      "n < length (wire_to ?d net1)" "a \<le> gh_next (g e)" "wire_to ?d net1 ! n = data_pkt ?i a (gh_own (g e) ! ?i)"
    using net_resend [OF assms(1,2) order_refl assms(3)] by blast
  let ?g = "g(e := (g e)\<lparr>gh_own := gh_own (g e) @ new\<rparr>)"
  obtain net2 g2 where 2: "leads env net1 net2" "good net2 g2" "later ?g g2" "ts_pending_ack (fst (end_at ?d net2))"
    using net_arrival [OF 1(2,3), of ?i a env] 1(4,5) assms(3) by (auto simp: nth_append)
  obtain w :: 'a where True by simp
  obtain net3 new3 where 3: "net_step env (Ev_tick ?d w) net2 = Some net3"
      "good net3 (g2(?d := (g2 ?d)\<lparr>gh_own := gh_own (g2 ?d) @ new3\<rparr>))"
      "ack_pkt (length (gh_own (g2 ?d) @ new3)) (gh_next (g2 ?d)) \<in> set (ts_out (fst (end_at ?d net3)))"
    using net_tick [OF 2(2), of env ?d w] 2(4) by blast
  obtain m where m: "m < length (wire_to e net3)"
      "wire_to e net3 ! m = ack_pkt (length (gh_own (g2 ?d) @ new3)) (gh_next (g2 ?d))"
    using wire_nth [OF 3(3)] by auto
  obtain net4 g4 where 4: "leads env net3 net4" "good net4 g4"
      "later (g2(?d := (g2 ?d)\<lparr>gh_own := gh_own (g2 ?d) @ new3\<rparr>)) g4"
      "gh_next (g4 ?d) = gh_next (g2 ?d)" "gh_una (g4 e) = gh_next (g2 ?d)"
    using net_ack_arrival [OF 3(2) m, of env] by auto
  have "leads env net2 net3" by (rule leads_step [OF 3(1)]) simp
  then have "leads env net net4" using 1(1) 2(1) 4(1) leads_trans by blast
  moreover have "later g g4"
    using later_trans [OF later_trans [OF later_tick 2(3)] later_trans [OF later_tick 4(3)]] .
  ultimately show ?thesis using 4(2,4,5) by (intro exI [of _ net4] exI [of _ g4]) simp
qed

definition complete :: "(side \<Rightarrow> ghost) \<Rightarrow> side \<Rightarrow> bool" where
  "complete g d \<longleftrightarrow> concat (take (gh_next (g d)) (gh_own (g (other_side d)))) = gh_stream (g (other_side d))"

lemma next_le: "good net g \<Longrightarrow> gh_next (g d) \<le> length (gh_own (g (other_side d)))"
  using net_okD(3) [of net g d] by (simp add: good_def)

lemma advance_open:
  assumes "good net g" "clock_runs env" "\<not> complete g d" "length (gh_own (g (other_side d))) \<noteq> gh_una (g (other_side d)) + 256"
  shows "\<exists>net' g'. leads env net net' \<and> good net' g' \<and> later g g' \<and> gh_next (g d) < gh_next (g' d)"
proof (cases "gh_next (g d) < length (gh_own (g (other_side d)))")
  case True
  then show ?thesis using advance_missing [OF assms(1,2)] by blast
next
  case False
  let ?e = "other_side d"
  have "concat (gh_own (g ?e)) \<noteq> gh_stream (g ?e)"
    using False assms(3) next_le [OF assms(1), of d] by (auto simp: complete_def)
  then obtain net1 g1 where 1: "leads env net net1" "good net1 g1" "later g g1"
      "length (gh_own (g ?e)) < length (gh_own (g1 ?e))" "gh_next (g1 d) = gh_next (g d)"
    using advance_waiting [OF assms(1) _ assms(4), of env] by auto
  obtain net2 g2 where 2: "leads env net1 net2" "good net2 g2" "later g1 g2" "gh_next (g1 d) < gh_next (g2 d)"
    using advance_missing [OF 1(2) assms(2), of d] 1(4,5) next_le [OF assms(1), of d] by auto
  show ?thesis
    using leads_trans [OF 1(1) 2(1)] later_trans [OF 1(3) 2(3)] 2(2,4) 1(5)
    by (intro exI [of _ net2] exI [of _ g2]) simp
qed

lemma progress:
  assumes "good net g" "clock_runs env" "\<not> complete g d"
  shows "\<exists>net' g'. leads env net net' \<and> good net' g' \<and> later g g' \<and> gh_next (g d) < gh_next (g' d)"
proof (cases "gh_next (g d) < length (gh_own (g (other_side d))) \<or>
    length (gh_own (g (other_side d))) \<noteq> gh_una (g (other_side d)) + 256")
  case True
  then show ?thesis using advance_missing [OF assms(1,2)] advance_open [OF assms] by blast
next
  case False
  let ?e = "other_side d"
  have len: "length (gh_own (g ?e)) = gh_next (g d)" using False next_le [OF assms(1), of d] by simp
  obtain net1 g1 where 1: "leads env net net1" "good net1 g1" "later g g1" "gh_una (g1 ?e) = gh_next (g1 d)"
    using advance_full [OF assms(1,2), of ?e] False by auto
  have from1: "\<exists>net' g'. leads env net net' \<and> good net' g' \<and> later g g' \<and> gh_next (g d) < gh_next (g' d)"
    if "\<exists>net' g'. leads env net1 net' \<and> good net' g' \<and> later g1 g' \<and> gh_next (g1 d) < gh_next (g' d)"
      "gh_next (g d) \<le> gh_next (g1 d)"
    using that leads_trans [OF 1(1)] later_trans [OF 1(3)] le_less_trans by metis
  have le: "gh_next (g d) \<le> gh_next (g1 d)" using 1(3) by (simp add: later_def)
  show ?thesis
  proof (cases "gh_next (g d) < gh_next (g1 d) \<or> gh_next (g1 d) < length (gh_own (g1 ?e))")
    case True
    then show ?thesis using 1 from1 [OF _ le] advance_missing [OF 1(2) assms(2)] by blast
  next
    case no: False
    then have eq: "gh_next (g1 d) = gh_next (g d)" "length (gh_own (g1 ?e)) = gh_next (g1 d)"
      using le next_le [OF 1(2), of d] by simp_all
    moreover obtain zs where "gh_own (g1 ?e) = gh_own (g ?e) @ zs"
      using 1(3) unfolding later_def by (meson prefixE)
    ultimately have "gh_own (g1 ?e) = gh_own (g ?e)" using len by simp
    then have "\<not> complete g1 d" using assms(3) eq 1(3) by (simp add: complete_def later_def)
    then show ?thesis using from1 [OF advance_open [OF 1(2) assms(2)] le] eq(2) 1(4) by simp
  qed
qed

lemma completes:
  assumes "good net g" "clock_runs env"
  shows "\<exists>net' g'. leads env net net' \<and> good net' g' \<and> later g g' \<and> (\<forall>d. complete g' d)"
  using assms(1)
proof (induction "\<Sum>d \<in> {Side_A, Side_B}. length (gh_stream (g (other_side d))) - gh_next (g d)" arbitrary: net g rule: less_induct)
  case less
  show ?case
  proof (cases "\<forall>d. complete g d")
    case True
    then show ?thesis using less.prems leads_refl later_refl by blast
  next
    case False
    then obtain d where "\<not> complete g d" by blast
    then obtain net1 g1 where 1: "leads env net net1" "good net1 g1" "later g g1" "gh_next (g d) < gh_next (g1 d)"
      using progress [OF less.prems assms(2)] by blast
    have top: "gh_next (g1 x) \<le> length (gh_stream (g (other_side x)))" for x
      using next_le [OF 1(2), of x] net_okD(5) [of net1 g1 "other_side x"] 1(2,3) by (simp add: good_def later_def)
    have mono: "gh_next (g x) \<le> gh_next (g1 x)" "gh_stream (g1 x) = gh_stream (g x)" for x
      using 1(3) by (simp_all add: later_def)
    define f where "f g x = length (gh_stream (g (other_side x))) - gh_next (g x)" for g :: "side \<Rightarrow> ghost" and x
    have le: "f g1 x \<le> f g x" for x using mono by (simp add: f_def diff_le_mono2)
    have "f g1 d < f g d" using mono top [of d] 1(4) by (simp add: f_def diff_less_mono2)
    then have "f g1 Side_A + f g1 Side_B < f g Side_A + f g Side_B"
      using le [of Side_A] le [of Side_B] by (cases d) auto
    then have "(\<Sum>x \<in> {Side_A, Side_B}. length (gh_stream (g1 (other_side x))) - gh_next (g1 x)) <
        (\<Sum>x \<in> {Side_A, Side_B}. length (gh_stream (g (other_side x))) - gh_next (g x))"
      by (simp add: f_def)
    then obtain net2 g2 where "leads env net1 net2" "good net2 g2" "later g1 g2" "\<forall>d. complete g2 d"
      using less.hyps [OF _ 1(2)] by blast
    then show ?thesis using leads_trans [OF 1(1)] later_trans [OF 1(3)] by blast
  qed
qed

section \<open>Properties\<close>

text \<open>
  C2. Everything can still arrive. After any run (of the events of \<open>event_ok\<close>), with more than 256 buffers in each pool, there is a
  further run without \<^verbatim>\<open>send\<close> (ticks and arrivals of transmitted packets only) after which each end has
  delivered exactly the bytes given to the other end.
\<close>

theorem tcp_completes:
  assumes "fresh_pool pa" "fresh_pool pb" "256 < length (bp_descs pa)" "256 < length (bp_descs pb)"
    and "\<forall>ev \<in> set evs. event_ok ev" "\<forall>d. length (sent_by d evs) < 2 ^ 31" "clock_runs env"
  shows "\<exists>evs' net. list_all quiet evs' \<and> net_run env (evs @ evs') (net_start pa pb) = Some net \<and>
    (\<forall>d. delivered_at d net = sent_by (other_side d) evs)"
proof -
  obtain net1 g1 where 1: "net_run env evs (net_start pa pb) = Some net1" "net_ok net1 g1"
      "\<forall>d. gh_stream (g1 d) = sent_by d evs \<and> gh_bufs (g1 d) = gh_bufs (start_ghost pa pb d)"
    using net_run_ok [OF net_start_ok [OF assms(1,2)], of evs env] assms(5,6) by (auto simp: start_ghost_def)
  have "256 < gh_bufs (start_ghost pa pb d)" for d using assms(3,4) by (cases d) (simp_all add: start_ghost_def)
  then have "good net1 g1" using 1(2,3) assms(6) by (simp add: good_def)
  then obtain net2 g2 where 2: "leads env net1 net2" "good net2 g2" "later g1 g2" "\<forall>d. complete g2 d"
    using completes assms(7) by blast
  obtain evs' where q: "list_all quiet evs'" "net_run env evs' net1 = Some net2" using 2(1) by (auto simp: leads_def)
  have "net_run env (evs @ evs') (net_start pa pb) = Some net2" using 1(1) q(2) by (simp add: net_run_append)
  moreover have "delivered_at d net2 = sent_by (other_side d) evs" for d
    using delivered_take [of net2 g2 d] 2(2,3,4) 1(3) by (simp add: good_def complete_def later_def)
  ultimately show ?thesis using q(1) by blast
qed

theorem tcp_completes_witness:
  "\<exists>p evs' net. fresh_pool p \<and> list_all quiet evs' \<and>
     net_run counter_env (sample_run @ evs') (net_start p p) = Some net \<and> delivered_at Side_B net = [1, 2, 3]"
proof -
  obtain p where p: "fresh_pool p" "length (bp_descs p) = 300" using bump_pool [of 300] by auto
  have len: "\<forall>d. length (sent_by d sample_run) < 2 ^ 31"
  proof
    fix d show "length (sent_by d sample_run) < 2 ^ 31" by (cases d) (simp_all add: sample_run_ok)
  qed
  have "clock_runs counter_env" by (simp add: clock_runs_def counter_env_def)
  then obtain evs' net where "list_all quiet evs'" "net_run counter_env (sample_run @ evs') (net_start p p) = Some net"
      "\<forall>d. delivered_at d net = sent_by (other_side d) sample_run"
    using tcp_completes [OF p(1) p(1) _ _ sample_run_ok(1) len, of counter_env] p(2) by force
  then show ?thesis using p(1) sample_run_ok(2) by (metis other_side.simps(2))
qed

end
