(* ===== verification/Tcp_Limits.thy ===== *)
theory Tcp_Limits
  imports Tcp_Channel
begin

text \<open>
  Where TCP-Lite stops working: a pool of at most 256 buffers, which a full send window empties so that no
  acknowledgement can be received any more; an acknowledgement of packets that were never sent, after
  which nothing is sent any more; and a length field larger than the buffer.
\<close>

section \<open>An empty pool stays empty\<close>

text \<open>The part of a session that an empty pool freezes.\<close>

definition frozen_part :: "tcp_session \<Rightarrow> u32 \<times> u32 \<times> bytes list \<times> recv_bitmap" where
  "frozen_part s = (ts_next_seq s, ts_snd_una s, ts_delivered s, ts_bitmap s)"

lemma starved_pump:
  assumes "pool_ok p" "pool_free p = []"
  shows "\<exists>s' p'. pump_tx env (s, p, w) = Some (s', p', w) \<and> pool_free p' = [] \<and> frozen_part s' = frozen_part s"
proof -
  have "pump_step env (s, p, w) = Some (False, s, p\<lparr>bp_exhausted := bp_exhausted p + 1\<rparr>, w)"
    using acquire_Nil [OF assms] by (simp add: pump_step.simps)
  moreover have "pool_free (p\<lparr>bp_exhausted := e\<rparr>) = []" for e using assms(2) by (simp add: pool_free_def)
  ultimately have "\<exists>p'. pump_loop env (s, p, w) = Some (s, p', w) \<and> pool_free p' = []"
    using assms(2) by (subst pump_loop.simps) auto
  then show ?thesis by (auto simp: pump_tx_def frozen_part_def)
qed

lemma retransmit_frozen: "retransmit s p now seqs = Some s' \<Longrightarrow> frozen_part s' = frozen_part s"
  by (induction seqs arbitrary: s)
    (auto simp: frozen_part_def transmit_def bind_eq_Some_conv split: option.splits)

lemma starved_send:
  assumes "pool_ok p" "pool_free p = []"
  shows "\<exists>s' p'. send env (s, p, w) data = Some (s', p', w) \<and> pool_free p' = [] \<and> frozen_part s' = frozen_part s"
  using starved_pump [OF assms, of env "s\<lparr>ts_pending_tx := ts_pending_tx s @ data\<rparr>" w]
  by (simp add: send.simps frozen_part_def)

lemma starved_tick:
  assumes "pool_ok p" "pool_free p = []" "tick env (s, p, w) = Some (s', p', w')"
  shows "pool_free p' = []" "frozen_part s' = frozen_part s"
proof -
  obtain now w1 where t: "te_rdtsc env w = (now, w1)" by fastforce
  then obtain s1 where r: "retransmit s p now (check_timeouts (ts_unacked s) now (te_cycles env (ts_rto_ns s))) = Some s1"
    using assms(3) by (auto simp: tick.simps bind_eq_Some_conv)
  obtain s2 p2 where u: "pump_tx env (s1, p, w1) = Some (s2, p2, w1)" "pool_free p2 = []" "frozen_part s2 = frozen_part s1"
    using starved_pump [OF assms(1,2), of env s1 w1] by blast
  show "pool_free p' = []" "frozen_part s' = frozen_part s"
    using assms(3) t r u retransmit_frozen [OF r]
    by (auto simp: tick.simps frozen_part_def transmit_def)
qed

definition starved :: "side \<Rightarrow> tcp_net \<Rightarrow> bool" where
  "starved d net \<longleftrightarrow> pool_free (snd (end_at d net)) = []"

lemma starved_step:
  assumes "net_ok net g" "starved d net" "net_step env ev net = Some net'"
  shows "starved d net' \<and> frozen_part (fst (end_at d net')) = frozen_part (fst (end_at d net))"
proof -
  obtain bf where e: "send_ok (fst (end_at d net)) (snd (end_at d net)) (gh_own (g d)) (gh_next (g d)) bf (gh_una (g d)) {}"
    using net_okD(6) [OF assms(1), of d] by (auto simp: endpoint_ok_def)
  have ok: "pool_ok (snd (end_at d net))" "pool_free (snd (end_at d net)) = []"
    using send_okD(1) [OF e] assms(2) by (simp_all add: starved_def)
  have elsewhere: ?thesis if "net' = put_at x net st" "x \<noteq> d" for x and st :: "'a tcp_state"
    using that assms(2) side_cases [of d x] by (auto simp: starved_def)
  have here: ?thesis if "net' = put_at d net (s', p', w')" "pool_free p' = []"
      "frozen_part s' = frozen_part (fst (end_at d net))" for s' p' and w' :: 'a
    using that by (simp add: starved_def)
  have arrive: ?thesis if "net' = put_at x net st" "deliver env (state_at x net w) pkt = Some st" for x w pkt and st :: "'a tcp_state"
  proof (cases "x = d")
    case True
    obtain p' where "deliver env (state_at d net w) pkt = Some (fst (end_at d net), p', w)" "pool_free p' = []"
      using acquire_Nil [OF ok] ok(2) by (simp add: deliver.simps state_at_def pool_free_def)
    then show ?thesis using that True here by auto
  qed (use that elsewhere in blast)
  show ?thesis
  proof (cases ev)
    case (Ev_send x w data)
    then show ?thesis
      using assms(3) elsewhere here starved_send [OF ok, of env "fst (end_at d net)" w data]
      by (cases "x = d") (auto simp: state_at_def)
  next
    case (Ev_tick x w)
    then show ?thesis
      using assms(3) elsewhere here starved_tick [OF ok] by (cases "x = d") (fastforce simp: state_at_def)+
  next
    case (Ev_deliver x w n)
    then show ?thesis using assms arrive by (auto split: if_splits)
  next
    case (Ev_damaged x w pkt)
    then show ?thesis using assms(3) arrive by auto
  qed
qed

lemma starved_run:
  assumes "net_ok net g" "starved d net" "\<forall>ev \<in> set evs. event_ok ev"
    and "\<forall>x. length (gh_stream (g x)) + length (sent_by x evs) < 2 ^ 31" "net_run env evs net = Some net'"
  shows "starved d net' \<and> frozen_part (fst (end_at d net')) = frozen_part (fst (end_at d net))"
  using assms
proof (induction evs arbitrary: net g)
  case (Cons ev evs)
  have split: "sent_by x (ev # evs) = sent_by x [ev] @ sent_by x evs" for x by simp
  have "\<forall>x. length (gh_stream (g x)) < 2 ^ 31" using Cons.prems(4) by (auto dest: add_lessD1)
  then obtain net1 g1 where 1: "net_step env ev net = Some net1" "net_ok net1 g1"
      "\<forall>x. gh_stream (g1 x) = gh_stream (g x) @ sent_by x [ev]"
    using net_step_ok [OF Cons.prems(1), of ev env] Cons.prems(3) by auto
  have "\<forall>x. length (gh_stream (g1 x)) + length (sent_by x evs) < 2 ^ 31"
    using Cons.prems(4) 1(3) split by (simp add: add.assoc del: sent_by.simps)
  then show ?case
    using Cons.IH [OF 1(2)] starved_step [OF Cons.prems(1,2) 1(1)] Cons.prems(3,5) 1(1) by auto
qed simp

lemma chunks_size: "list_all chunk_ok own \<Longrightarrow> length (concat own) \<le> 1024 * length own"
  by (induction own) (auto simp: chunk_ok_def TCP_LITE_MAX_PAYLOAD_def)

text \<open>The first \<^verbatim>\<open>send\<close> takes the whole of a small pool.\<close>

lemma send_drains:
  assumes "fresh_pool pa" "fresh_pool pb" "length (bp_descs pa) \<le> 256" "1024 * length (bp_descs pa) < length data"
    and "length data < 2 ^ 31"
  shows "\<exists>net g. net_step env (Ev_send Side_A w data) (net_start pa pb) = Some net \<and> net_ok net g \<and>
    (\<forall>d. gh_stream (g d) = sent_by d [Ev_send Side_A w data]) \<and> starved Side_A net \<and>
    frozen_part (fst (end_at Side_A net)) = (of_nat (length (bp_descs pa)), 0, [], bitmap_init)"
proof -
  let ?s = "set_data_callback session_new"
  have e: "endpoint_ok ?s pa [] [] [] 0 0 {} {}" using session_new_endpoint [of pa "{}"] assms(1) by (simp add: fresh_pool_def)
  obtain s' p' w' new where t: "send env (?s, pa, w) data = Some (s', p', w')" "endpoint_ok s' p' new [] data 0 0 {} {}"
      "length (bp_descs p') = length (bp_descs pa)" "stalled s' p' new 0"
    using send_endpoint [OF e, of env w data] by auto
  obtain bf where so: "send_ok s' p' new 0 bf 0 {}" "stream_ok s' new data" "recv_ok s' [] 0 {}"
    using t(2) by (auto simp: endpoint_ok_def)
  have count: "length (pool_free p') + length new = length (bp_descs pa)"
    using buffers_count [of p' bf 0 "length new" "{}"] so(1) t(3) by (simp add: send_ok_def)
  have "length (concat new) < length data"
    using chunks_size [OF send_okD(14) [OF so(1)]] count assms(4) by linarith
  then have "ts_tx_off s' \<noteq> length (ts_pending_tx s')" using so(2) by (auto simp: stream_ok_def)
  then have "length new = 256 \<or> length (pool_free p') = 0" using t(4) by (simp add: stalled_def)
  then have "length (pool_free p') = 0" using count assms(3) by linarith
  then have "pool_free p' = []" by simp
  moreover have "net_step env (Ev_send Side_A w data) (net_start pa pb) = Some ((s', p'), (?s, pb))"
    using t(1) by (simp add: net_start_def state_at_def)
  moreover obtain g where "net_ok ((s', p'), (?s, pb)) g" "\<forall>d. gh_stream (g d) = sent_by d [Ev_send Side_A w data]"
    using net_step_ok [OF net_start_ok [OF assms(1,2)], of "Ev_send Side_A w data" env] calculation(2)
    by (auto simp: start_ghost_def)
  moreover have "ts_bitmap s' = bitmap_init \<and> ts_delivered s' = []"
    using send_recv_part [OF t(1)] by (simp add: recv_part_def set_data_callback_def session_new_def)
  ultimately show ?thesis
    using send_okD(8,9) [OF so(1)] count
    by (intro exI [of _ "((s', p'), (?s, pb))"] exI [of _ g]) (simp add: starved_def frozen_part_def)
qed

section \<open>An acknowledgement from the future\<close>

lemma acked_loop_cong:
  "\<forall>s \<in> set ss. sl_occupied s \<longrightarrow> (sint (sl_seq s - up) < 0 \<longleftrightarrow> sint (sl_seq s - up') < 0) \<Longrightarrow>
   acked_loop p up acc ss = acked_loop p up' acc ss"
proof (induction ss arbitrary: p acc)
  case (Cons s ss)
  have c: "sl_occupied s \<and> sint (sl_seq s - up) < 0 \<longleftrightarrow> sl_occupied s \<and> sint (sl_seq s - up') < 0"
    using Cons.prems by auto
  have ih: "acked_loop p up acc ss = acked_loop p up' acc ss" for p acc
    using Cons.IH Cons.prems by simp
  show ?case by (cases acc) (simp only: acked_loop.simps c ih)
qed simp

lemma mark_acked_beyond:
  assumes "uq_rel q u n bf" "n \<le> a" "a < u + 2 ^ 31"
  shows "mark_acked p q (of_nat a) = mark_acked p q (of_nat n)"
proof -
  have "sint (sl_seq s - of_nat a) < 0 \<longleftrightarrow> sint (sl_seq s - of_nat n) < 0" if s: "s \<in> set q" "sl_occupied s" for s
  proof -
    obtain j where "j < 256" "q ! j = s" using s(1) assms(1) by (auto simp: in_set_conv_nth uq_rel_def)
    then obtain i where i: "u \<le> i" "i < n" "sl_seq s = of_nat i" using occupied_packet [OF assms(1), of j] s(2) by blast
    then have "near i a" "near i n" using assms by (auto simp: near_def)
    then show ?thesis using i assms(2) by (simp add: sint_diff)
  qed
  then show ?thesis using acked_loop_cong [of q "of_nat a" "of_nat n"] by (simp add: mark_acked_def)
qed

text \<open>The sender believes that its window is full for ever.\<close>

definition wedged :: "tcp_session \<Rightarrow> bool" where
  "wedged s \<longleftrightarrow> \<not> ts_next_seq s - ts_snd_una s < TCP_LITE_WINDOW"

lemma wedged_pump:
  "wedged s \<Longrightarrow> \<exists>s'. pump_tx env (s, p, w) = Some (s', p, w) \<and> ts_out s' = ts_out s \<and> ts_next_seq s' = ts_next_seq s \<and>
     ts_snd_una s' = ts_snd_una s \<and> ts_unacked s' = ts_unacked s"
  by (simp add: pump_tx_def pump_loop.simps wedged_def)

lemma small_signed: "0 \<le> d \<Longrightarrow> d < 256 \<Longrightarrow> signed_take_bit 31 d = (d :: int)"
  by (intro signed_take_bit_int_eq_self) auto

lemma wedged_words: "n < a \<Longrightarrow> a < n + 2 ^ 31 \<Longrightarrow> \<not> (of_nat n :: u32) - of_nat a < TCP_LITE_WINDOW"
proof -
  assume h: "n < a" "a < n + 2 ^ 31"
  have "sint (of_nat n - of_nat a :: u32) = int n - int a" using h by (intro sint_diff) (simp add: near_def)
  then have neg: "sint (of_nat n - of_nat a :: u32) < 0" using h(1) by simp
  show ?thesis
  proof
    assume l: "(of_nat n :: u32) - of_nat a < TCP_LITE_WINDOW"
    then have "uint (of_nat n - of_nat a :: u32) < 256" by (simp add: word_less_def TCP_LITE_WINDOW_def)
    moreover have "0 \<le> uint (of_nat n - of_nat a :: u32)" by simp
    ultimately have "signed_take_bit 31 (uint (of_nat n - of_nat a :: u32)) = uint (of_nat n - of_nat a :: u32)"
      by (intro small_signed)
    then have "sint (of_nat n - of_nat a :: u32) = uint (of_nat n - of_nat a :: u32)" by (simp add: sint_uint)
    then show False using neg by (simp add: not_less)
  qed
qed

lemma wedged_ack:
  assumes "send_ok s p own m bf u F" "th_flags h AND TCP_ACK \<noteq> 0" "th_ack_num h = of_nat a"
    and "length own < a" "a < u + 2 ^ 31"
  shows "\<exists>s' p' w'. on_ack env (s, p, w) h = Some (s', p', w') \<and> wedged s' \<and> ts_out s' = ts_out s \<and>
    length (pool_free p') = length (pool_free p) + (length own - u)"
proof -
  note ok = send_okD [OF assms(1)]
  have "near a u" using assms(4,5) ok(11) by (simp add: near_def)
  then have d: "sint (th_ack_num h - ts_snd_una s) = int a - int u" using sint_diff assms(3) ok(9) by simp
  obtain t p1 q where m: "mark_acked p (ts_unacked s) (of_nat a) = Some (t, p1, q)"
      "length (pool_free p1) = (length own - u) + length (pool_free p)"
    using mark_acked_rel [OF ok(10,1,11) order_refl ok(3)] ok(4) mark_acked_beyond [OF ok(10), of a p] assms(4,5)
    by auto
  obtain rtt w1 where e: "on_ack env (s, p, w) h =
      pump_tx env (s\<lparr>ts_unacked := q, ts_snd_una := of_nat a, ts_rtt_ns := rtt\<rparr>, p1, w1)" (is "_ = pump_tx env (?s, _)")
  proof (cases "t = 0")
    case True
    then show thesis
      using that [of "ts_rtt_ns s" w] d ok(11) assms(2-4) m(1) by (simp add: on_ack.simps)
  next
    case False
    then show thesis
      using that d ok(11) assms(2-4) m(1) by (cases "te_rdtsc env w") (simp add: on_ack.simps Let_def)
  qed
  have w: "wedged ?s" using wedged_words [of "length own" a] assms(4,5) ok(8,11) by (simp add: wedged_def)
  obtain s' where "pump_tx env (?s, p1, w1) = Some (s', p1, w1)" "ts_out s' = ts_out s" "ts_next_seq s' = ts_next_seq s"
      "ts_snd_una s' = of_nat a"
    using wedged_pump [OF w, of env p1 w1] by auto
  then show ?thesis using e w m(2) by (intro exI [of _ s'] exI [of _ p1] exI [of _ w1]) (simp add: wedged_def)
qed

section \<open>Properties\<close>

text \<open>
  C32. A small pool locks up. A session whose pool has at most 256 buffers is given more bytes than the
  buffers can carry. From then on, whatever happens on the network, it stays as it is: it has numbered
  one packet per buffer, none of them is ever acknowledged, no further packet is numbered and nothing
  is ever delivered, because every arriving packet, an acknowledgement too, needs a buffer of that pool.
\<close>

theorem tcp_starves:
  assumes "fresh_pool pa" "fresh_pool pb" "length (bp_descs pa) \<le> 256" "1024 * length (bp_descs pa) < length data"
    and "\<forall>ev \<in> set evs. event_ok ev" "\<forall>d. length (sent_by d (Ev_send Side_A w data # evs)) < 2 ^ 31"
  shows "\<exists>net. net_run env (Ev_send Side_A w data # evs) (net_start pa pb) = Some net \<and>
    pool_free (snd (end_at Side_A net)) = [] \<and> ts_snd_una (fst (end_at Side_A net)) = 0 \<and>
    ts_next_seq (fst (end_at Side_A net)) = of_nat (length (bp_descs pa)) \<and> delivered_at Side_A net = []"
proof -
  have "length data < 2 ^ 31" using assms(6) [rule_format, of Side_A] by simp
  then obtain net1 g where 1: "net_step env (Ev_send Side_A w data) (net_start pa pb) = Some net1" "net_ok net1 g"
      "\<forall>d. gh_stream (g d) = sent_by d [Ev_send Side_A w data]" "starved Side_A net1"
      "frozen_part (fst (end_at Side_A net1)) = (of_nat (length (bp_descs pa)), 0, [], bitmap_init)"
    using send_drains [OF assms(1-4), of env w] by blast
  have len: "\<forall>x. length (gh_stream (g x)) + length (sent_by x evs) < 2 ^ 31" using assms(6) 1(3) by simp
  obtain net where r: "net_run env evs net1 = Some net" using net_run_ok [OF 1(2) assms(5) len, of env] by blast
  show ?thesis
    using starved_run [OF 1(2,4) assms(5) len r] r 1(1,5)
    by (intro exI [of _ net]) (simp add: starved_def frozen_part_def delivered_at_def del: net_step.simps)
qed

theorem tcp_starves_witness:
  "\<exists>p net. fresh_pool p \<and> net_run counter_env [Ev_send Side_A 5 (replicate 3000 7), Ev_deliver Side_B 6 0, Ev_tick Side_B 7,
     Ev_deliver Side_A 8 0] (net_start p p) = Some net \<and> ts_snd_una (fst (end_at Side_A net)) = 0"
proof -
  obtain p where p: "fresh_pool p" "length (bp_descs p) = 2" using bump_pool [of 2] by auto
  have "\<forall>d. length (sent_by d [Ev_send Side_A 5 (replicate 3000 7), Ev_deliver Side_B 6 0, Ev_tick Side_B 7,
     Ev_deliver Side_A 8 0]) < 2 ^ 31" by simp
  from tcp_starves [OF p(1) p(1) _ _ _ this, of counter_env] p show ?thesis by auto
qed

text \<open>
  C33. An acknowledgement of packets that were never sent stops the sender. It is accepted, the send window
  is emptied, and the unacknowledged count wraps around: afterwards \<^verbatim>\<open>send\<close> transmits nothing, whatever
  it is given.
\<close>

theorem ack_beyond_wedges:
  assumes "endpoint_ok s p own peer stream u k R F" "th_flags h AND TCP_ACK \<noteq> 0" "th_ack_num h = of_nat a"
    and "length own < a" "a < u + 2 ^ 31"
  shows "\<exists>s' p' w'. on_ack env (s, p, w) h = Some (s', p', w') \<and>
    length (pool_free p') = length (pool_free p) + (length own - u) \<and>
    (\<forall>data w2. \<exists>s2. send env (s', p', w2) data = Some (s2, p', w2) \<and> ts_out s2 = ts_out s \<and> ts_next_seq s2 = ts_next_seq s')"
proof -
  obtain bf where e: "send_ok s p own k bf u F" using assms(1) by (auto simp: endpoint_ok_def)
  obtain s' p' w' where a: "on_ack env (s, p, w) h = Some (s', p', w')" "wedged s'" "ts_out s' = ts_out s"
      "length (pool_free p') = length (pool_free p) + (length own - u)"
    using wedged_ack [OF e assms(2-5), of env w] by blast
  have "\<exists>s2. send env (s', p', w2) data = Some (s2, p', w2) \<and> ts_out s2 = ts_out s \<and> ts_next_seq s2 = ts_next_seq s'" for data w2
    using wedged_pump [of "s'\<lparr>ts_pending_tx := ts_pending_tx s' @ data\<rparr>" env p' w2] a(2,3)
    by (auto simp: send.simps wedged_def)
  then show ?thesis using a(1,4) by blast
qed

theorem ack_beyond_wedges_witness:
  "\<exists>p s' p' w'. fresh_pool p \<and> on_ack counter_env (session_new, p, 3) (make_ack 0 1) = Some (s', p', w') \<and>
     (\<exists>s2. send counter_env (s', p', 4) [1, 2, 3] = Some (s2, p', 4) \<and> ts_out s2 = [])"
proof -
  obtain p where p: "fresh_pool p" using bump_pool [of 2] by auto
  have e: "endpoint_ok session_new p [] [] [] 0 0 {} {}"
    using p uq_init_rel window_init
    by (simp add: fresh_pool_def endpoint_ok_def send_ok_def stream_ok_def recv_ok_def buffers_ok_def session_new_def)
  have "ts_out session_new = []" by (simp add: session_new_def)
  then show ?thesis
    using ack_beyond_wedges [OF e, of "make_ack 0 1" 1 counter_env 3] ack_flag p by simp blast
qed

text \<open>
  C34. The length field is trusted. A packet that announces a payload longer than the buffer makes the
  checksum read past the end of the buffer, before anything has been verified.
\<close>

theorem payload_len_unchecked:
  assumes "endpoint_ok s p own peer stream u k R {}" "pool_free p \<noteq> []" "16 \<le> length pkt" "length pkt \<le> 1040"
    and "unat (bp_buffer_size p) < 16 + unat (th_payload_len (hdr_of (take 16 pkt)))"
  shows "deliver env (s, p, w) pkt = None"
proof -
  obtain b p' where d: "deliver env (s, p, w) pkt = on_packet_received env (s, p', w) b" "bp_buffer_size p' = bp_buffer_size p"
      "endpoint_ok s p' own peer stream u k R {b}" "holds_pkt p' b pkt"
    using deliver_handover [OF assms(1,2,4), of env w] by blast
  obtain bf where e: "send_ok s p' own k bf u {b}" using d(3) by (auto simp: endpoint_ok_def)
  note ok = send_okD [OF e]
  have b: "b < length (bp_descs p')" using ok(6) [of b] by (simp add: held_def)
  obtain rest where rest: "bd_bytes (bp_descs p' ! b) = pkt @ rest"
    using d(4) unfolding holds_pkt_def by (metis append_take_drop_id)
  have "length (bd_bytes (bp_descs p' ! b)) = unat (bp_buffer_size p')"
    using pool_okD(3) [OF ok(1) b] by (simp add: desc_ok_def)
  then have "read_header p' b = Some (hdr_of (take 16 pkt))"
      "buf_read p' b 16 (unat (th_payload_len (hdr_of (take 16 pkt)))) = None"
    using buf_read_take [OF ok(1) b, of 0 16] ok(2) assms(3,5) rest d(2) b
    by (simp_all add: read_header_def buf_read_def)
  then show ?thesis using d(1) by (simp add: on_packet_received.simps)
qed

theorem payload_len_unchecked_witness:
  "\<exists>p. fresh_pool p \<and> deliver counter_env (session_new, p, 3) (hdr_bytes (make_data 0 0 0xFFFF)) = None"
proof -
  obtain p where p: "fresh_pool p" "length (bp_descs p) = 2" "bp_buffer_size p = 2048" using bump_pool [of 2] by auto
  have e: "endpoint_ok session_new p [] [] [] 0 0 {} {}"
    using p uq_init_rel window_init
    by (simp add: fresh_pool_def endpoint_ok_def send_ok_def stream_ok_def recv_ok_def buffers_ok_def session_new_def)
  have "0 \<in> {..<length (bp_descs p)}" using p(2) by simp
  then have "pool_free p \<noteq> []" using p(1) by (auto simp: fresh_pool_def)
  then show ?thesis
    using payload_len_unchecked [OF e, of "hdr_bytes (make_data 0 0 0xFFFF)" counter_env 3] p
    by (auto simp: make_data_def)
qed

end
