(* ===== verification/Tcp_Socket.thy ===== *)
theory Tcp_Socket
  imports Tcp_Session
begin

text \<open>
  The socket of a session, \<^verbatim>\<open>src/tcp_lite.cpp\<close>: what the constructor and the destructor of
  \<^verbatim>\<open>TcpLiteSession\<close> do with it, and the default transmit function \<^verbatim>\<open>udp_transmit\<close>. The socket calls are the
  parameter \<open>os\<close> on a state \<open>'k\<close>; addresses are of a type \<open>'a\<close>.
\<close>

record ('a, 'k) udp_os =
  uo_socket :: "'k \<Rightarrow> int \<times> 'k"
  uo_reuseaddr :: "int \<Rightarrow> 'k \<Rightarrow> 'k"
  uo_bind :: "int \<Rightarrow> 'a \<Rightarrow> 'k \<Rightarrow> bool \<times> 'k"
  uo_sendto :: "int \<Rightarrow> bytes \<Rightarrow> 'a \<Rightarrow> 'k \<Rightarrow> 'k"
  uo_close :: "int \<Rightarrow> 'k \<Rightarrow> 'k"

record 'a udp_session =
  us_session :: tcp_session
  us_local :: 'a
  us_remote :: 'a
  us_fd :: int

text \<open>The second component tells whether \<^verbatim>\<open>bind failed (continuing)\<close> is printed.\<close>

definition udp_session_new :: "('a, 'k) udp_os \<Rightarrow> 'a \<Rightarrow> 'a \<Rightarrow> 'k \<Rightarrow> 'a udp_session \<times> bool \<times> 'k" where
  "udp_session_new os local remote k =
     (let (fd, k1) = uo_socket os k;
          s = \<lparr>us_session = session_new, us_local = local, us_remote = remote, us_fd = fd\<rparr>
      in if 0 \<le> fd then
           (let k2 = uo_reuseaddr os fd k1; (ok, k3) = uo_bind os fd local k2 in (s, \<not> ok, k3))
         else (s, False, k1))"

definition udp_transmit :: "('a, 'k) udp_os \<Rightarrow> 'a udp_session \<Rightarrow> bytes \<Rightarrow> 'k \<Rightarrow> 'k" where
  "udp_transmit os s pkt k = (if us_fd s < 0 then k else uo_sendto os (us_fd s) pkt (us_remote s) k)"

definition udp_session_delete ::
  "('a, 'k) udp_os \<Rightarrow> 'a udp_session \<Rightarrow> buffer_pool \<Rightarrow> 'k \<Rightarrow> (buffer_pool \<times> 'k) option" where
  "udp_session_delete os s p k =
     (case session_delete (us_session s) p of
        None \<Rightarrow> None
      | Some (p', _) \<Rightarrow> Some (p', if 0 \<le> us_fd s then uo_close os (us_fd s) k else k))"

text \<open>The session closes the socket it opened, and no other; it works without one.\<close>

lemma udp_session_fds:
  assumes "\<And>k fd k1. uo_socket os k = (fd, k1) \<Longrightarrow> fds k1 = (if 0 \<le> fd then insert fd (fds k) else fds k) \<and> fd \<notin> fds k"
    and "\<And>fd k. fds (uo_reuseaddr os fd k) = fds k" "\<And>fd a k. fds (snd (uo_bind os fd a k)) = fds k"
    and "\<And>fd k. fds (uo_close os fd k) = fds k - {fd}"
    and "udp_session_new os local remote k = (s, msg, k1)" "fds k2 = fds k1"
    and "udp_session_delete os (s\<lparr>us_session := t\<rparr>) p k2 = Some (p', k3)"
  shows "fds k3 = fds k"
proof -
  obtain fd k0 where o: "uo_socket os k = (fd, k0)" by fastforce
  note sock = assms(1) [OF o]
  have "us_fd s = fd" "fds k1 = fds k0"
    using assms(2,3,5) o by (auto simp: udp_session_new_def Let_def split: prod.splits if_splits) (metis snd_conv)+
  then show ?thesis
    using assms(4,6,7) sock by (auto simp: udp_session_delete_def split: option.splits if_splits)
qed

end
