(* ===== verification/Packet_Parser.thy ===== *)
theory Packet_Parser
  imports Prelude "HOL-Library.Monad_Syntax"
begin

unbundle bit_operations_syntax

text \<open>
  The zero-copy parser of \<^verbatim>\<open>include/packet_parser.h\<close>. The memory that may be read from the frame
  pointer on is a byte list \<open>m\<close>, independent of the length \<open>len\<close> the caller passes; a pointer is an
  offset into it, and \<open>None\<close> is a read outside it. A view is the record of its two fields. The
  operators \<^verbatim>\<open>&\<close> and \<^verbatim>\<open>|\<close> of \<^verbatim>\<open>parse\<close> evaluate both operands, so every read happens on every frame.
\<close>

section \<open>Byte reads\<close>

definition rd8 :: "bytes \<Rightarrow> nat \<Rightarrow> u8 option" where
  "rd8 m i = (if i < length m then Some (m ! i) else None)"

definition rd16 :: "bytes \<Rightarrow> nat \<Rightarrow> u16 option" where
  "rd16 m i = do { a \<leftarrow> rd8 m i; b \<leftarrow> rd8 m (i + 1); Some (push_bit 8 (ucast a) OR ucast b) }"

definition rd32 :: "bytes \<Rightarrow> nat \<Rightarrow> u32 option" where
  "rd32 m i = do { a \<leftarrow> rd8 m i; b \<leftarrow> rd8 m (i + 1); c \<leftarrow> rd8 m (i + 2); d \<leftarrow> rd8 m (i + 3);
     Some (push_bit 24 (ucast a) OR push_bit 16 (ucast b) OR push_bit 8 (ucast c) OR ucast d) }"

section \<open>Ethernet\<close>

record view =
  v_buf :: nat
  v_len :: u64

definition null_view :: view where "null_view = \<lparr>v_buf = 0, v_len = 0\<rparr>"

definition eth_valid :: "view \<Rightarrow> bool" where
  "eth_valid v \<longleftrightarrow> v_len v \<ge> 14"

definition dst_mac :: "bytes \<Rightarrow> view \<Rightarrow> bytes option" where
  "dst_mac m v = those (map (\<lambda>i. rd8 m (v_buf v + i)) [0, 1, 2, 3, 4, 5])"

definition src_mac :: "bytes \<Rightarrow> view \<Rightarrow> bytes option" where
  "src_mac m v = those (map (\<lambda>i. rd8 m (v_buf v + i)) [6, 7, 8, 9, 10, 11])"

definition ethertype :: "bytes \<Rightarrow> view \<Rightarrow> u16 option" where
  "ethertype m v = rd16 m (v_buf v + 12)"

definition eth_payload :: "view \<Rightarrow> nat" where
  "eth_payload v = v_buf v + 14"

definition eth_payload_len :: "u64 \<Rightarrow> u64" where
  "eth_payload_len total_len = total_len - 14"

section \<open>IPv4\<close>

definition header_len :: "bytes \<Rightarrow> view \<Rightarrow> u64 option" where
  "header_len m v = do { b \<leftarrow> rd8 m (v_buf v); Some ((ucast b AND 0x0F) * 4) }"

definition ip_valid :: "bytes \<Rightarrow> view \<Rightarrow> bool option" where
  "ip_valid m v =
     do { b \<leftarrow> rd8 m (v_buf v);
          if drop_bit 4 b = 4 \<and> v_len v \<ge> 20 then do { hl \<leftarrow> header_len m v; Some (hl \<ge> 20) }
          else Some False }"

definition protocol :: "bytes \<Rightarrow> view \<Rightarrow> u8 option" where
  "protocol m v = rd8 m (v_buf v + 9)"

definition src_ip :: "bytes \<Rightarrow> view \<Rightarrow> u32 option" where
  "src_ip m v = rd32 m (v_buf v + 12)"

definition dst_ip :: "bytes \<Rightarrow> view \<Rightarrow> u32 option" where
  "dst_ip m v = rd32 m (v_buf v + 16)"

definition total_len :: "bytes \<Rightarrow> view \<Rightarrow> u16 option" where
  "total_len m v = rd16 m (v_buf v + 2)"

definition ip_payload :: "bytes \<Rightarrow> view \<Rightarrow> nat option" where
  "ip_payload m v = do { hl \<leftarrow> header_len m v; Some (v_buf v + unat hl) }"

definition ip_payload_len :: "bytes \<Rightarrow> view \<Rightarrow> u64 option" where
  "ip_payload_len m v = do { t \<leftarrow> total_len m v; hl \<leftarrow> header_len m v; Some (ucast t - hl) }"

text \<open>The two loops of \<^verbatim>\<open>checksum_valid\<close>: summing the 16-bit words, folding the carries.\<close>

function csum_sum :: "bytes \<Rightarrow> nat \<Rightarrow> nat \<Rightarrow> nat \<Rightarrow> u32 \<Rightarrow> u32 option" where
  "csum_sum m buf hl i acc =
     (if i + 1 < hl then do { w \<leftarrow> rd16 m (buf + i); csum_sum m buf hl (i + 2) (acc + ucast w) }
      else Some acc)"
  by pat_completeness auto
termination by (relation "measure (\<lambda>(m, buf, hl, i, acc). hl - i)") auto

lemma unat_drop16: "unat (drop_bit 16 (s :: u32)) = unat s div 65536"
  by (simp add: drop_bit_eq_div unat_div)

lemma unat_mask16: "unat ((s :: u32) AND 0xFFFF) = unat s mod 65536"
  using unat_and_mask_power [of s 16] by simp

lemma drop16_less: "drop_bit 16 (s :: u32) \<noteq> 0 \<longleftrightarrow> 65536 \<le> unat s"
  by (metis unat_drop16 div_greater_zero_iff unat_eq_zero neq0_conv zero_less_numeral)

lemma unat_fold16: "unat (((s :: u32) AND 0xFFFF) + drop_bit 16 s) = unat s mod 65536 + unat s div 65536"
proof -
  have "unat s mod 65536 + unat s div 65536 < 2 ^ 32"
    using unat_u32_less [of s] by (auto simp: add_strict_mono less_mult_imp_div_less)
  then show ?thesis
    by (simp add: unat_word_ariths unat_drop16 unat_mask16)
qed

function csum_fold :: "u32 \<Rightarrow> u32" where
  "csum_fold s = (if drop_bit 16 s \<noteq> 0 then csum_fold ((s AND 0xFFFF) + drop_bit 16 s) else s)"
  by pat_completeness auto
termination
proof (relation "measure unat")
  fix s :: u32
  assume "drop_bit 16 s \<noteq> 0"
  then have "65536 \<le> unat s" by (simp only: drop16_less)
  then have "unat s mod 65536 + unat s div 65536 < unat s"
    using div_mult_mod_eq [of "unat s" 65536] div_greater_zero_iff [of "unat s" 65536] by linarith
  then show "((s AND 0xFFFF) + drop_bit 16 s, s) \<in> measure unat"
    by (simp add: unat_fold16)
qed simp

declare csum_sum.simps [simp del] csum_fold.simps [simp del]

definition checksum_valid :: "bytes \<Rightarrow> view \<Rightarrow> bool option" where
  "checksum_valid m v =
     do { hl \<leftarrow> header_len m v; s \<leftarrow> csum_sum m (v_buf v) (unat hl) 0 0; Some (csum_fold s = 0xFFFF) }"

section \<open>UDP\<close>

definition udp_valid :: "view \<Rightarrow> bool" where
  "udp_valid v \<longleftrightarrow> v_len v \<ge> 8"

definition src_port :: "bytes \<Rightarrow> view \<Rightarrow> u16 option" where
  "src_port m v = rd16 m (v_buf v)"

definition dst_port :: "bytes \<Rightarrow> view \<Rightarrow> u16 option" where
  "dst_port m v = rd16 m (v_buf v + 2)"

definition udp_length :: "bytes \<Rightarrow> view \<Rightarrow> u16 option" where
  "udp_length m v = rd16 m (v_buf v + 4)"

definition udp_payload :: "view \<Rightarrow> nat" where
  "udp_payload v = v_buf v + 8"

text \<open>\<^verbatim>\<open>length() - 8\<close> is an \<^verbatim>\<open>int\<close> subtraction; the conversion to \<^verbatim>\<open>size_t\<close> wraps.\<close>

definition udp_payload_len :: "bytes \<Rightarrow> view \<Rightarrow> u64 option" where
  "udp_payload_len m v = do { n \<leftarrow> udp_length m v; Some (ucast n - 8) }"

section \<open>The parser\<close>

record parsed_packet =
  pp_valid :: bool
  pp_eth :: view
  pp_ip :: view
  pp_udp :: view
  pp_has_ip :: bool
  pp_has_udp :: bool
  pp_raw :: nat
  pp_raw_len :: u64

definition parse :: "bytes \<Rightarrow> u64 \<Rightarrow> parsed_packet option" where
  "parse m len =
     (let eth = \<lparr>v_buf = 0, v_len = len\<rparr>; eth_ok = eth_valid eth;
          ip = \<lparr>v_buf = eth_payload eth, v_len = len - 14\<rparr> in
      do { et \<leftarrow> ethertype m eth;
           ipv \<leftarrow> ip_valid m ip;
           let is_ipv4 = (eth_ok \<and> et = 0x0800 \<and> ipv);
           up \<leftarrow> ip_payload m ip;
           ul \<leftarrow> ip_payload_len m ip;
           let udp = \<lparr>v_buf = up, v_len = ul\<rparr>;
           pr \<leftarrow> protocol m ip;
           let is_udp = (is_ipv4 \<and> pr = 17 \<and> udp_valid udp);
           cs \<leftarrow> checksum_valid m ip;
           let csum_ok = (\<not> is_ipv4 \<or> cs);
           Some \<lparr>pp_valid = (eth_ok \<and> csum_ok), pp_eth = eth, pp_ip = ip, pp_udp = udp,
                 pp_has_ip = is_ipv4, pp_has_udp = is_udp, pp_raw = 0, pp_raw_len = len\<rparr> })"

section \<open>The checksum as a sum of 16-bit words\<close>

fun be_words :: "bytes \<Rightarrow> nat list" where
  "be_words (a # b # bs) = (256 * unat a + unat b) # be_words bs"
| "be_words bs = []"

lemma unat_be16: "unat (push_bit 8 (ucast (a :: u8)) OR ucast (b :: u8) :: u16) = 256 * unat a + unat b"
proof -
  have "push_bit 8 (ucast a) OR ucast b = (push_bit 8 (ucast a) + ucast b :: u16)"
    by (rule disjunctive_add [symmetric]) (auto simp: bit_simps dest: bit_imp_le_length)
  moreover have "256 * unat a + unat b < 2 ^ 16"
    using unat_u8_less [of a] unat_u8_less [of b] by simp
  ultimately show ?thesis
    by (simp add: push_bit_eq_mult unat_word_ariths unat_ucast_up)
qed

lemma ucast_be16:
  "ucast (push_bit 8 (ucast (a :: u8)) OR ucast (b :: u8) :: u16) = (256 * ucast a + ucast b :: u32)"
proof -
  have "(ucast w :: u32) = of_nat (unat w)" for w :: u16
    by simp
  then show ?thesis by (simp only: unat_be16) simp
qed

lemma rd16_eq: "rd16 m i = (if i + 1 < length m
    then Some (push_bit 8 (ucast (m ! i)) OR ucast (m ! (i + 1))) else None)"
  by (simp add: rd16_def rd8_def)

lemma rd32_eq: "rd32 m i = (if i + 3 < length m
    then Some (push_bit 24 (ucast (m ! i)) OR push_bit 16 (ucast (m ! (i + 1))) OR
      push_bit 8 (ucast (m ! (i + 2))) OR ucast (m ! (i + 3))) else None)"
  by (simp add: rd32_def rd8_def)

lemma drop_two: "i + 1 < length m \<Longrightarrow> drop i m = m ! i # m ! (i + 1) # drop (i + 2) m"
  by (metis Cons_nth_drop_Suc Suc_eq_plus1 add_2_eq_Suc' add_lessD1)

lemma csum_sum_eq:
  "buf + hl \<le> length m \<Longrightarrow> even hl \<Longrightarrow> even i \<Longrightarrow> i \<le> hl \<Longrightarrow>
   csum_sum m buf hl i acc = Some (acc + of_nat (sum_list (be_words (take (hl - i) (drop (buf + i) m)))))"
proof (induction m buf hl i acc rule: csum_sum.induct)
  case (1 m buf hl i acc)
  show ?case
  proof (cases "i + 1 < hl")
    case True
    have "take (hl - i) (drop (buf + i) m) =
        m ! (buf + i) # m ! (buf + i + 1) # take (hl - (i + 2)) (drop (buf + (i + 2)) m)"
      using True "1.prems"(1) by (subst drop_two) (auto simp: take_Cons' numeral_2_eq_2)
    then show ?thesis
      using True "1.prems" "1.IH"
      by (subst csum_sum.simps) (simp add: rd16_eq ucast_be16)
  next
    case False
    then have "hl = i" using "1.prems" by (metis Suc_eq_plus1 dvd_diff_nat even_Suc le_neq_implies_less le_imp_less_Suc less_antisym not_less_eq)
    then show ?thesis by (subst csum_sum.simps) simp
  qed
qed

lemma fold_step_mod: "(n mod 65536 + n div 65536) mod 65535 = n mod (65535 :: nat)"
proof -
  have "n = (n mod 65536 + n div 65536) + 65535 * (n div 65536)"
    using div_mult_mod_eq [of n 65536] by linarith
  then show ?thesis by (metis mod_mult_self2)
qed

lemma fold_step_pos: "0 < n mod 65536 + n div 65536 \<longleftrightarrow> 0 < (n :: nat)"
  using div_mult_mod_eq [of n 65536] by (metis add_is_0 mult_is_0 neq0_conv mod_0 div_0)

lemma csum_fold_eq:
  "unat (csum_fold s) < 65536 \<and> unat (csum_fold s) mod 65535 = unat s mod 65535 \<and>
   (0 < unat (csum_fold s) \<longleftrightarrow> 0 < unat s)"
proof (induction s rule: csum_fold.induct)
  case (1 s)
  show ?case
  proof (cases "drop_bit 16 s \<noteq> 0")
    case True
    then have "csum_fold s = csum_fold ((s AND 0xFFFF) + drop_bit 16 s)"
      by (subst csum_fold.simps) simp
    then show ?thesis
      using 1 [OF True] fold_step_mod [of "unat s"] fold_step_pos [of "unat s"]
      by (simp only: unat_fold16)
  next
    case False
    then have "unat s < 65536" using drop16_less [of s] by simp
    then show ?thesis using False by (subst (1 2 3) csum_fold.simps) simp
  qed
qed

lemma csum_fold_ffff: "csum_fold s = 0xFFFF \<longleftrightarrow> 0 < unat s \<and> unat s mod 65535 = 0"
proof -
  have "csum_fold s = 0xFFFF \<longleftrightarrow> unat (csum_fold s) = 65535"
    by (simp add: word_unat_eq_iff)
  also have "\<dots> \<longleftrightarrow> 0 < unat (csum_fold s) \<and> unat (csum_fold s) mod 65535 = 0"
    using csum_fold_eq [of s] by (auto elim!: dvdE simp: mod_eq_0_iff_dvd)
  finally show ?thesis using csum_fold_eq [of s] by simp
qed

definition ones_sum_ok :: "bytes \<Rightarrow> bool" where
  "ones_sum_ok hdr \<longleftrightarrow> 0 < sum_list (be_words hdr) \<and> sum_list (be_words hdr) mod 65535 = 0"

text \<open>The header length in bytes that the first byte of an IPv4 header announces.\<close>

definition ihl :: "u8 \<Rightarrow> nat" where
  "ihl b = 4 * (unat b mod 16)"

lemma ihl_le: "ihl b \<le> 60"
  by (simp add: ihl_def)

lemma even_ihl: "even (ihl b)"
  by (simp add: ihl_def)

lemma unat_ihl: "unat ((ucast (b :: u8) AND 0x0F) * 4 :: u64) = ihl b"
proof -
  have "unat (ucast b AND 0x0F :: u64) = unat b mod 16"
    using unat_and_mask_power [of "ucast b :: u64" 4] by (simp add: unat_ucast_up)
  then show ?thesis
    using ihl_le [of b] by (simp add: ihl_def unat_word_ariths)
qed

lemma header_len_eq: "header_len m v = (if v_buf v < length m
    then Some (of_nat (ihl (m ! v_buf v))) else None)"
  by (auto simp: header_len_def rd8_def simp flip: unat_ihl)

lemma unat_of_nat_ihl: "unat (of_nat (ihl b) :: u64) = ihl b"
  using ihl_le [of b] by (intro unat_of_nat_u64) simp

lemma be_words_bound: "sum_list (be_words bs) \<le> 65535 * (length bs div 2)"
proof (induction bs rule: be_words.induct)
  case (1 a b bs)
  have "256 * unat a + unat b \<le> 65535"
    using unat_u8_less [of a] unat_u8_less [of b] by simp
  with 1 show ?case by simp
qed simp_all

lemma checksum_valid_eq:
  assumes "v_buf v + ihl (m ! v_buf v) \<le> length m" "v_buf v < length m"
  shows "checksum_valid m v = Some (ones_sum_ok (take (ihl (m ! v_buf v)) (drop (v_buf v) m)))"
proof -
  let ?hl = "ihl (m ! v_buf v)"
  let ?S = "sum_list (be_words (take ?hl (drop (v_buf v) m)))"
  have "?S \<le> 65535 * (?hl div 2)"
    using be_words_bound [of "take ?hl (drop (v_buf v) m)"] assms by simp
  also have "\<dots> \<le> 65535 * 30"
    using ihl_le [of "m ! v_buf v"] by simp
  finally have "unat (of_nat ?S :: u32) = ?S"
    by (intro unat_of_nat_u32) simp
  then show ?thesis
    using assms csum_sum_eq [of "v_buf v" ?hl m 0 0] even_ihl
    by (simp add: checksum_valid_def header_len_eq unat_of_nat_ihl csum_fold_ffff ones_sum_ok_def)
qed

lemma csum_sum_short: "buf + hl > length m \<Longrightarrow> even hl \<Longrightarrow> even i \<Longrightarrow> i < hl \<Longrightarrow> csum_sum m buf hl i acc = None"
proof (induction m buf hl i acc rule: csum_sum.induct)
  case (1 m buf hl i acc)
  have step: "i + 1 < hl" using "1.prems"
    by (metis Suc_eq_plus1 Suc_lessI even_Suc)
  show ?case
  proof (cases "buf + i + 1 < length m")
    case True
    then have "i + 2 < hl"
      using "1.prems" step by (cases "i + 2 = hl") auto
    then show ?thesis
      using True step "1.prems" "1.IH" by (subst csum_sum.simps) (simp add: rd16_eq)
  next
    case False
    then show ?thesis using step by (subst csum_sum.simps) (simp add: rd16_eq)
  qed
qed

lemma checksum_valid_defined:
  assumes "v_buf v < length m"
  shows "checksum_valid m v \<noteq> None \<longleftrightarrow> v_buf v + ihl (m ! v_buf v) \<le> length m"
proof (cases "v_buf v + ihl (m ! v_buf v) \<le> length m")
  case True
  then show ?thesis using assms checksum_valid_eq by simp
next
  case False
  then have "csum_sum m (v_buf v) (ihl (m ! v_buf v)) 0 0 = None"
    using assms even_ihl by (intro csum_sum_short) auto
  then show ?thesis
    using assms False by (simp add: checksum_valid_def header_len_eq unat_of_nat_ihl)
qed

section \<open>The parser in closed form\<close>

lemma ip_valid_eq: "ip_valid m v = (if v_buf v < length m
    then Some (unat (m ! v_buf v) div 16 = 4 \<and> 20 \<le> unat (v_len v) \<and> 20 \<le> ihl (m ! v_buf v)) else None)"
proof -
  have "drop_bit 4 b = 4 \<longleftrightarrow> unat b div 16 = 4" for b :: u8
    by (simp add: drop_bit_eq_div word_unat_eq_iff unat_div)
  moreover have "20 \<le> (of_nat (ihl b) :: u64) \<longleftrightarrow> 20 \<le> ihl b" for b
    by (simp add: word_le_nat_alt unat_of_nat_ihl)
  moreover have "20 \<le> v_len v \<longleftrightarrow> 20 \<le> unat (v_len v)"
    by (simp add: word_le_nat_alt)
  ultimately show ?thesis
    by (auto simp: ip_valid_def rd8_def header_len_eq)
qed

definition parse_reads :: "bytes \<Rightarrow> bool" where
  "parse_reads m \<longleftrightarrow> 24 \<le> length m \<and> 14 + ihl (m ! 14) \<le> length m"

definition frame_is_ipv4 :: "bytes \<Rightarrow> nat \<Rightarrow> bool" where
  "frame_is_ipv4 m len \<longleftrightarrow> 34 \<le> len \<and> m ! 12 = 0x08 \<and> m ! 13 = 0x00 \<and>
     unat (m ! 14) div 16 = 4 \<and> 20 \<le> ihl (m ! 14)"

definition ip_total :: "bytes \<Rightarrow> nat" where
  "ip_total m = 256 * unat (m ! 16) + unat (m ! 17)"

definition frame_is_udp :: "bytes \<Rightarrow> nat \<Rightarrow> bool" where
  "frame_is_udp m len \<longleftrightarrow> frame_is_ipv4 m len \<and> m ! 23 = 17 \<and>
     (ip_total m < ihl (m ! 14) \<or> ihl (m ! 14) + 8 \<le> ip_total m)"

definition frame_valid :: "bytes \<Rightarrow> nat \<Rightarrow> bool" where
  "frame_valid m len \<longleftrightarrow> 14 \<le> len \<and>
     (frame_is_ipv4 m len \<longrightarrow> ones_sum_ok (take (ihl (m ! 14)) (drop 14 m)))"

lemma ucast_be16_64:
  "ucast (push_bit 8 (ucast (a :: u8)) OR ucast (b :: u8) :: u16) = (of_nat (256 * unat a + unat b) :: u64)"
proof -
  have "(ucast w :: u64) = of_nat (unat w)" for w :: u16
    by simp
  then show ?thesis by (simp only: unat_be16)
qed

lemma be16_0800: "(push_bit 8 (ucast (a :: u8)) OR ucast (b :: u8) :: u16) = 0x0800 \<longleftrightarrow> a = 0x08 \<and> b = 0x00"
proof -
  have "256 * unat a + unat b = 2048 \<longleftrightarrow> unat a = 8 \<and> unat b = 0"
    using unat_u8_less [of b] by simp presburger
  then show ?thesis
    using unat_be16 [of a b] by (auto simp: word_unat_eq_iff)
qed

lemma wrapped_len:
  assumes "t < 65536" "h \<le> 60"
  shows "8 \<le> (of_nat t - of_nat h :: u64) \<longleftrightarrow> t < h \<or> h + 8 \<le> t"
proof (cases "t < h")
  case True
  have "unat (of_nat t - of_nat h :: u64) = 2 ^ 64 + t - h"
    using True assms by (subst unat_sub_if') (auto simp: unat_of_nat_u64)
  then show ?thesis using True assms by (simp add: word_le_nat_alt)
next
  case False
  then have "unat (of_nat t - of_nat h :: u64) = t - h"
    using assms by (subst unat_sub_if') (auto simp: unat_of_nat_u64)
  then show ?thesis using False by (auto simp: word_le_nat_alt)
qed

lemma ip_total_less: "ip_total m < 65536"
  using unat_u8_less [of "m ! 16"] unat_u8_less [of "m ! 17"] by (simp add: ip_total_def)

lemma ethertype_eq:
  "24 \<le> length m \<Longrightarrow> \<exists>et. rd16 m 12 = Some et \<and> (et = 0x0800 \<longleftrightarrow> m ! 12 = 0x08 \<and> m ! 13 = 0x00)"
  by (simp add: rd16_eq be16_0800)

lemma parse_eq:
  assumes "parse_reads m"
  shows "parse m len = Some \<lparr>pp_valid = frame_valid m (unat len), pp_eth = \<lparr>v_buf = 0, v_len = len\<rparr>,
     pp_ip = \<lparr>v_buf = 14, v_len = len - 14\<rparr>,
     pp_udp = \<lparr>v_buf = 14 + ihl (m ! 14), v_len = of_nat (ip_total m) - of_nat (ihl (m ! 14))\<rparr>,
     pp_has_ip = frame_is_ipv4 m (unat len), pp_has_udp = frame_is_udp m (unat len),
     pp_raw = 0, pp_raw_len = len\<rparr>"
proof -
  have m: "24 \<le> length m" "14 + ihl (m ! 14) \<le> length m"
    using assms by (simp_all add: parse_reads_def)
  obtain et where et: "rd16 m 12 = Some et" "et = 0x0800 \<longleftrightarrow> m ! 12 = 0x08 \<and> m ! 13 = 0x00"
    using ethertype_eq [OF m(1)] by auto
  have len: "14 \<le> len \<longleftrightarrow> 14 \<le> unat len" "14 \<le> unat len \<Longrightarrow> unat (len - 14) = unat len - 14"
    by (simp_all add: word_le_nat_alt unat_sub)
  have ipl: "ip_payload_len m \<lparr>v_buf = 14, v_len = l\<rparr> = Some (of_nat (ip_total m) - of_nat (ihl (m ! 14)))" for l
    using m by (simp add: ip_payload_len_def total_len_def header_len_eq rd16_eq ucast_be16_64 ip_total_def
        del: of_nat_add of_nat_mult)
  have cs: "checksum_valid m \<lparr>v_buf = 14, v_len = l\<rparr> =
      Some (ones_sum_ok (take (ihl (m ! 14)) (drop 14 m)))" for l
    using m by (simp add: checksum_valid_eq)
  have ip4: "(14 \<le> len \<and> et = 0x0800 \<and> unat (m ! 14) div 16 = 4 \<and> 20 \<le> unat (len - 14) \<and>
      20 \<le> ihl (m ! 14)) = frame_is_ipv4 m (unat len)"
    using len et(2) by (auto simp: frame_is_ipv4_def)
  show ?thesis
    using m et(1) ip4 len(1)
    by (auto simp: parse_def Let_def ethertype_def eth_payload_def ip_valid_eq ip_payload_def header_len_eq
        unat_of_nat_ihl ipl cs protocol_def rd8_def eth_valid_def udp_valid_def
        frame_is_udp_def frame_valid_def wrapped_len [OF ip_total_less ihl_le])
qed

lemma parse_undefined:
  assumes "\<not> parse_reads m"
  shows "parse m len = None"
proof (cases "24 \<le> length m")
  case True
  then have "checksum_valid m \<lparr>v_buf = 14, v_len = l\<rparr> = None" for l
    using assms checksum_valid_defined [of "\<lparr>v_buf = 14, v_len = l\<rparr>" m] by (simp add: parse_reads_def)
  then show ?thesis
    by (auto simp: parse_def Let_def eth_payload_def bind_eq_None_conv)
next
  case False
  then have "protocol m \<lparr>v_buf = 14, v_len = l\<rparr> = None" for l
    by (simp add: protocol_def rd8_def)
  then show ?thesis
    by (auto simp: parse_def Let_def eth_payload_def bind_eq_None_conv)
qed

section \<open>Well-formed UDP frames\<close>

definition be16 :: "u16 \<Rightarrow> bytes" where
  "be16 w = [ucast (drop_bit 8 w), ucast w]"

definition be32 :: "u32 \<Rightarrow> bytes" where
  "be32 w = [ucast (drop_bit 24 w), ucast (drop_bit 16 w), ucast (drop_bit 8 w), ucast w]"

lemma be16_join: "push_bit 8 (ucast (ucast (drop_bit 8 w) :: u8)) OR ucast (ucast w :: u8) = (w :: u16)"
proof (rule bit_word_eqI)
  show "bit (push_bit 8 (ucast (ucast (drop_bit 8 w) :: u8)) OR ucast (ucast w :: u8) :: u16) n = bit w n"
    if "n < LENGTH(16)" for n
    using that less_diff_conv2 [of 8 n 8] less_diff_conv2 [of 8 n 16] by (cases "n < 8") (auto simp: bit_simps)
qed

lemma be32_join:
  "push_bit 24 (ucast (ucast (drop_bit 24 w) :: u8)) OR push_bit 16 (ucast (ucast (drop_bit 16 w) :: u8)) OR
   push_bit 8 (ucast (ucast (drop_bit 8 w) :: u8)) OR ucast (ucast w :: u8) = (w :: u32)"
proof (rule bit_word_eqI)
  show "bit (push_bit 24 (ucast (ucast (drop_bit 24 w) :: u8)) OR push_bit 16 (ucast (ucast (drop_bit 16 w) :: u8)) OR
     push_bit 8 (ucast (ucast (drop_bit 8 w) :: u8)) OR ucast (ucast w :: u8) :: u32) n = bit w n"
    if "n < LENGTH(32)" for n
    using that by (cases "n < 8"; cases "n < 16"; cases "n < 24") (auto simp: bit_simps)
qed

text \<open>The fields of an IPv4 header without options, in wire order, with a given checksum word.\<close>

record ipv4_fields =
  f_tos :: u8
  f_id :: u16
  f_frag :: u16
  f_ttl :: u8
  f_src :: u32
  f_dst :: u32

definition ip_header :: "ipv4_fields \<Rightarrow> u16 \<Rightarrow> u16 \<Rightarrow> bytes" where
  "ip_header f tot csum = [0x45, f_tos f] @ be16 tot @ be16 (f_id f) @ be16 (f_frag f) @ [f_ttl f, 17] @
     be16 csum @ be32 (f_src f) @ be32 (f_dst f)"

definition ip_csum :: "ipv4_fields \<Rightarrow> u16 \<Rightarrow> u16" where
  "ip_csum f tot = of_nat (65535 - sum_list (be_words (ip_header f tot 0)) mod 65535)"

definition udp_frame ::
  "bytes \<Rightarrow> bytes \<Rightarrow> ipv4_fields \<Rightarrow> u16 \<Rightarrow> u16 \<Rightarrow> u16 \<Rightarrow> bytes \<Rightarrow> bytes" where
  "udp_frame dmac smac f sport dport ucsum payload =
     (let tot = of_nat (28 + length payload) in
      dmac @ smac @ [0x08, 0x00] @ ip_header f tot (ip_csum f tot) @
      be16 sport @ be16 dport @ be16 (of_nat (8 + length payload)) @ be16 ucsum @ payload)"

lemma unat_be16_bytes: "256 * unat (ucast (drop_bit 8 w) :: u8) + unat (ucast w :: u8) = unat (w :: u16)"
  using unat_be16 [of "ucast (drop_bit 8 w)" "ucast w"] by (simp add: be16_join)

lemma header_sum_csum:
  "sum_list (be_words (ip_header f tot c)) = sum_list (be_words (ip_header f tot 0)) + unat c"
  using unat_be16_bytes [of c] by (simp add: ip_header_def be16_def be32_def)

lemma fill_up: "r < k \<Longrightarrow> s = q * k + r \<Longrightarrow> s + (k - r) = k * (q + 1 :: nat)"
  by (simp add: algebra_simps)

lemma header_sum_ok: "ones_sum_ok (ip_header f tot (ip_csum f tot))"
proof -
  define S where "S = sum_list (be_words (ip_header f tot 0))"
  have "0 < S" by (simp add: S_def ip_header_def)
  have "unat (ip_csum f tot) = 65535 - S mod 65535"
    unfolding ip_csum_def S_def [symmetric] by (intro unat_of_nat_u16) simp
  then have total: "sum_list (be_words (ip_header f tot (ip_csum f tot))) = S + (65535 - S mod 65535)"
    using header_sum_csum [of f tot "ip_csum f tot"] by (simp only: S_def)
  have "S + (65535 - S mod 65535) = 65535 * (S div 65535 + 1)"
    by (rule fill_up) simp_all
  then have "(S + (65535 - S mod 65535)) mod 65535 = 0"
    by (metis mod_mult_self1_is_0)
  then show ?thesis using total \<open>0 < S\<close> by (simp add: ones_sum_ok_def)
qed

lemma length_6: "length xs = 6 \<Longrightarrow> \<exists>a b c d e f. xs = [a, b, c, d, e, f]"
  by (auto simp: length_Suc_conv eval_nat_numeral)

section \<open>Damaged headers\<close>

lemma be_words_update:
  "2 * k + 1 < length bs \<Longrightarrow>
   be_words (bs[2 * k := a, 2 * k + 1 := b]) = (be_words bs)[k := 256 * unat a + unat b] \<and> k < length (be_words bs)"
proof (induction bs arbitrary: k rule: be_words.induct)
  case (1 x y bs)
  then show ?case by (cases k) auto
qed simp_all

lemma be_words_nth:
  "2 * k + 1 < length bs \<Longrightarrow> be_words bs ! k = 256 * unat (bs ! (2 * k)) + unat (bs ! (2 * k + 1))"
  using be_words_update [of k bs "bs ! (2 * k)" "bs ! (2 * k + 1)"] by (metis list_update_id nth_list_update_eq)

lemma be_words_le: "w \<in> set (be_words bs) \<Longrightarrow> w \<le> 65535"
proof (induction bs rule: be_words.induct)
  case (1 a b bs)
  then show ?case using unat_u8_less [of a] unat_u8_less [of b] by auto
qed simp_all

lemma multiples_apart:
  assumes "s mod 65535 = 0" "(s + w - x) mod 65535 = 0" "x \<le> s" "x \<le> 65535" "w \<le> 65535"
  shows "w = x \<or> {w, x} = {0, 65535 :: nat}"
proof -
  obtain c d where "s = 65535 * c" "s + w - x = 65535 * d"
    using assms(1,2) by (metis dvdE mod_eq_0_iff_dvd)
  then have e: "65535 * c + w = 65535 * d + x"
    using assms(3) by linarith
  consider "c = d" | "c + 1 \<le> d" | "d + 1 \<le> c" by linarith
  then show ?thesis
  proof cases
    case 1
    with e show ?thesis by simp
  next
    case 2
    then have "w = 65535 \<and> x = 0" using e assms(5) by linarith
    then show ?thesis by auto
  next
    case 3
    then have "x = 65535 \<and> w = 0" using e assms(4) by linarith
    then show ?thesis by auto
  qed
qed

lemma damaged_header:
  assumes "ones_sum_ok hdr" "2 * k + 1 < length hdr" "w = be_words hdr ! k" "w' = 256 * unat a + unat b"
    and "w' \<noteq> w" "{w', w} \<noteq> {0, 65535}"
  shows "\<not> ones_sum_ok (hdr[2 * k := a, 2 * k + 1 := b])"
proof
  assume "ones_sum_ok (hdr[2 * k := a, 2 * k + 1 := b])"
  moreover have k: "k < length (be_words hdr)"
    using be_words_update [OF assms(2)] by simp
  ultimately have "(sum_list (be_words hdr) + w' - w) mod 65535 = 0"
    using be_words_update [OF assms(2), of a b] assms(3,4)
    by (simp add: ones_sum_ok_def sum_list_update)
  moreover have "w \<le> sum_list (be_words hdr)" "w \<le> 65535"
    using assms(3) nth_mem [OF k] by (auto intro: member_le_sum_list be_words_le)
  moreover have "w' \<le> 65535"
    using unat_u8_less [of a] unat_u8_less [of b] assms(4) by simp
  ultimately show False
    using multiples_apart [of "sum_list (be_words hdr)" w' w] assms(1,5,6) by (simp add: ones_sum_ok_def)
qed

lemma take_drop_update:
  "take n (drop d (m[d + i := x])) = (take n (drop d m))[i := x]"
  by (simp add: drop_update_swap take_update_swap)

lemma udp_frame_parses:
  assumes "length dmac = 6" "length smac = 6" "length payload \<le> 65507"
    and "fr = udp_frame dmac smac f sport dport ucsum payload" "m = fr @ rest"
  shows "\<exists>p. parse m (of_nat (length fr)) = Some p \<and> pp_valid p \<and> pp_has_ip p \<and> pp_has_udp p \<and>
    dst_mac m (pp_eth p) = Some dmac \<and> src_mac m (pp_eth p) = Some smac \<and>
    src_ip m (pp_ip p) = Some (f_src f) \<and> dst_ip m (pp_ip p) = Some (f_dst f) \<and>
    src_port m (pp_udp p) = Some sport \<and> dst_port m (pp_udp p) = Some dport \<and>
    udp_payload_len m (pp_udp p) = Some (of_nat (length payload)) \<and>
    take (length payload) (drop (udp_payload (pp_udp p)) m) = payload"
proof -
  obtain d0 d1 d2 d3 d4 d5 s0 s1 s2 s3 s4 s5
    where mac: "dmac = [d0, d1, d2, d3, d4, d5]" "smac = [s0, s1, s2, s3, s4, s5]"
    using length_6 assms(1,2) by meson
  define tot :: u16 where "tot = of_nat (28 + length payload)"
  have hdr: "take 20 (drop 14 m) = ip_header f tot (ip_csum f tot)"
    unfolding assms(4,5) by (simp add: udp_frame_def mac ip_header_def be16_def be32_def tot_def Let_def)
  have len: "length fr = 42 + length payload" "length m = 42 + length payload + length rest"
    unfolding assms(4,5) by (simp_all add: udp_frame_def mac ip_header_def be16_def be32_def Let_def)
  have b: "m ! 12 = 0x08" "m ! 13 = 0x00" "m ! 14 = 0x45" "m ! 16 = ucast (drop_bit 8 tot)"
      "m ! 17 = ucast tot" "m ! 23 = 17"
    unfolding assms(4,5) by (simp_all add: udp_frame_def mac ip_header_def be16_def be32_def tot_def Let_def)
  have reads: "rd32 m 26 = Some (f_src f)" "rd32 m 30 = Some (f_dst f)" "rd16 m 34 = Some sport"
      "rd16 m 36 = Some dport" "rd16 m 38 = Some (of_nat (8 + length payload))"
      "\<And>l. dst_mac m \<lparr>v_buf = 0, v_len = l\<rparr> = Some dmac"
      "\<And>l. src_mac m \<lparr>v_buf = 0, v_len = l\<rparr> = Some smac" "take (length payload) (drop 42 m) = payload"
    unfolding assms(4,5) dst_mac_def src_mac_def
    by (simp_all add: udp_frame_def mac ip_header_def be16_def be32_def Let_def rd16_eq rd32_eq rd8_def
        be16_join be32_join)
  have n: "ihl (m ! 14) = 20" "ip_total m = 28 + length payload" "unat (of_nat (length fr) :: u64) = length fr"
    using assms(3) len unat_be16_bytes [of tot]
    by (simp_all add: b ihl_def ip_total_def tot_def unat_of_nat_u16 unat_of_nat_u64 del: of_nat_add)
  have "parse_reads m" "frame_is_ipv4 m (length fr)" "frame_is_udp m (length fr)" "frame_valid m (length fr)"
    using len n b hdr header_sum_ok [of f tot]
    by (simp_all add: parse_reads_def frame_is_ipv4_def frame_is_udp_def frame_valid_def)
  moreover have "unat (of_nat (8 + length payload) :: u16) = 8 + length payload"
    using assms(3) by (intro unat_of_nat_u16) simp
  then have "(ucast (of_nat (8 + length payload) :: u16) :: u64) = of_nat (8 + length payload)"
    by (metis of_nat_unat)
  ultimately show ?thesis
    using n reads by (simp add: parse_eq src_ip_def dst_ip_def src_port_def dst_port_def
        udp_payload_len_def udp_length_def udp_payload_def)
qed

section \<open>Properties\<close>

text \<open>
  C13. Round trip. Parsing a well-formed IPv4/UDP frame with any addresses, ports, remaining header
  fields and payload succeeds: the packet is valid, has an IP and a UDP view, and the views return
  the addresses, ports and payload the frame was built from.
\<close>

theorem parse_udp_frame:
  assumes "length dmac = 6" "length smac = 6" "length payload \<le> 65507"
    and "fr = udp_frame dmac smac f sport dport ucsum payload"
  shows "\<exists>p. parse fr (of_nat (length fr)) = Some p \<and> pp_valid p \<and> pp_has_ip p \<and> pp_has_udp p \<and>
    dst_mac fr (pp_eth p) = Some dmac \<and> src_mac fr (pp_eth p) = Some smac \<and>
    src_ip fr (pp_ip p) = Some (f_src f) \<and> dst_ip fr (pp_ip p) = Some (f_dst f) \<and>
    src_port fr (pp_udp p) = Some sport \<and> dst_port fr (pp_udp p) = Some dport \<and>
    udp_payload_len fr (pp_udp p) = Some (of_nat (length payload)) \<and>
    take (length payload) (drop (udp_payload (pp_udp p)) fr) = payload"
  using udp_frame_parses [OF assms, of fr "[]"] by simp

theorem parse_udp_frame_witness:
  "\<exists>p. parse (udp_frame [1, 2, 3, 4, 5, 6] [7, 8, 9, 10, 11, 12]
          \<lparr>f_tos = 0, f_id = 1, f_frag = 0, f_ttl = 64, f_src = 0x0A000001, f_dst = 0x0A000002\<rparr> 53 4242 0 [1, 2, 3])
        (of_nat 45) = Some p \<and> pp_valid p \<and> pp_has_udp p"
proof -
  let ?fr = "udp_frame [1, 2, 3, 4, 5, 6] [7, 8, 9, 10, 11, 12]
      \<lparr>f_tos = 0, f_id = 1, f_frag = 0, f_ttl = 64, f_src = 0x0A000001, f_dst = 0x0A000002\<rparr> 53 4242 0 [1, 2, 3]"
  have "length ?fr = 45"
    by (simp add: udp_frame_def ip_header_def be16_def be32_def Let_def)
  then show ?thesis
    using parse_udp_frame [of "[1, 2, 3, 4, 5, 6]" "[7, 8, 9, 10, 11, 12]" "[1, 2, 3]" ?fr
      "\<lparr>f_tos = 0, f_id = 1, f_frag = 0, f_ttl = 64, f_src = 0x0A000001, f_dst = 0x0A000002\<rparr>" 53 4242 0]
    by auto
qed

text \<open>
  C21. What the parser decides, in terms of the bytes of the frame. A parsed frame has an IPv4 view
  exactly when 34 bytes were captured and they announce IPv4 with a header of at least 20 bytes; it
  has a UDP view exactly when moreover the protocol byte is 17 and the total length either leaves
  room for a UDP header or is smaller than the header length (the subtraction wraps); and it is
  valid exactly when 14 bytes were captured and, for IPv4, the words of the header add up to a
  positive multiple of 65535.
\<close>

theorem parse_decides:
  assumes "parse m len = Some p"
  shows "pp_has_ip p = frame_is_ipv4 m (unat len) \<and> pp_has_udp p = frame_is_udp m (unat len) \<and>
    pp_valid p = frame_valid m (unat len)"
  using assms parse_eq [of m len] parse_undefined [of m len] by (cases "parse_reads m") auto

theorem parse_decides_witness:
  "\<exists>p. parse (replicate 24 0) 24 = Some p \<and> pp_has_ip p = frame_is_ipv4 (replicate 24 0) 24 \<and>
    pp_valid p = frame_valid (replicate 24 0) 24"
proof -
  have "parse_reads (replicate 24 0)"
    by (simp add: parse_reads_def ihl_def)
  then obtain p where "parse (replicate 24 0) 24 = Some p"
    using parse_eq [of "replicate 24 0" 24] by blast
  then show ?thesis using parse_decides [of "replicate 24 0" 24 p] by simp
qed

text \<open>
  C25. Which bytes the parser reads. \<open>parse\<close> stays inside the readable memory exactly when that
  memory has 24 bytes and reaches to the end of the header length announced by byte 14: the length
  argument plays no part, so a shorter frame is read past its end.
\<close>

theorem parse_reads_exactly:
  "parse m len \<noteq> None \<longleftrightarrow> parse_reads m"
  using parse_eq [of m len] parse_undefined [of m len] by (cases "parse_reads m") auto

text \<open>
  C38. The UDP view is not checked against the captured length: there is a frame of 34 readable and
  captured bytes that is valid and has a UDP view, whose ports lie outside the frame.
\<close>

theorem udp_view_outside_frame:
  "\<exists>m p. parse m (of_nat (length m)) = Some p \<and> length m = 34 \<and> pp_valid p \<and> pp_has_udp p \<and>
     src_port m (pp_udp p) = None"
proof -
  let ?m = "replicate 12 0 @ [0x08, 0x00, 0x45, 0, 0, 28, 0, 0, 0, 0, 64, 17, 0x7A, 0xD2] @ replicate 8 (0 :: u8)"
  have r12: "replicate 12 (0 :: u8) = [0, 0, 0, 0, 0, 0, 0, 0, 0, 0, 0, 0]"
    and r8: "replicate 8 (0 :: u8) = [0, 0, 0, 0, 0, 0, 0, 0]"
    by (simp_all add: eval_nat_numeral)
  have b: "?m ! 12 = 0x08" "?m ! 13 = 0x00" "?m ! 14 = 0x45" "?m ! 16 = 0" "?m ! 17 = 28" "?m ! 23 = 17"
    by (simp_all add: r12 r8)
  have "take 20 (drop 14 ?m) = [0x45, 0, 0, 28, 0, 0, 0, 0, 64, 17, 0x7A, 0xD2, 0, 0, 0, 0, 0, 0, 0, 0]"
    by (simp add: r8)
  then have "ones_sum_ok (take 20 (drop 14 ?m))"
    by (simp only: ones_sum_ok_def) simp
  moreover have "ihl (?m ! 14) = 20" "ip_total ?m = 28"
    unfolding ip_total_def b by (simp_all add: ihl_def)
  ultimately have "parse_reads ?m" "frame_valid ?m 34" "frame_is_udp ?m 34" "frame_is_ipv4 ?m 34"
    by (simp_all only: parse_reads_def frame_valid_def frame_is_udp_def frame_is_ipv4_def b) simp_all
  then show ?thesis
    using parse_eq [of ?m 34] \<open>ihl (?m ! 14) = 20\<close>
    by (intro exI [of _ ?m]) (simp add: src_port_def rd16_eq)
qed

text \<open>
  C22. Damage to an IPv4 header is caught. Replacing one 16-bit word of the header of a valid IPv4
  frame (after the first, so that version and header length stay) by a different value makes the
  frame invalid, unless one of the two values is \<open>0x0000\<close> and the other \<open>0xFFFF\<close>.
\<close>

theorem checksum_detects:
  assumes "parse m len = Some p" "pp_valid p" "pp_has_ip p"
    and "1 \<le> k" "2 * k + 1 < ihl (m ! 14)"
    and "w = 256 * unat (m ! (14 + 2 * k)) + unat (m ! (15 + 2 * k))" "w' = 256 * unat a + unat b"
    and "w' \<noteq> w" "{w', w} \<noteq> {0, 65535}"
  shows "\<exists>p'. parse (m[14 + 2 * k := a, 15 + 2 * k := b]) len = Some p' \<and> pp_has_ip p' \<and> \<not> pp_valid p'"
proof -
  define m' where "m' = m[14 + 2 * k := a, 15 + 2 * k := b]"
  let ?h = "take (ihl (m ! 14)) (drop 14 m)"
  have r: "parse_reads m" using assms(1) parse_undefined [of m len] by force
  then have old: "frame_is_ipv4 m (unat len)" "ones_sum_ok ?h" "14 \<le> unat len"
    using parse_eq [OF r, of len] assms(1,2,3) by (auto simp: frame_valid_def)
  have keep: "m' ! 12 = m ! 12" "m' ! 13 = m ! 13" "m' ! 14 = m ! 14" "length m' = length m"
    using assms(4) by (simp_all add: m'_def)
  have h: "2 * k + 1 < length ?h"
    using r assms(5) by (auto simp: parse_reads_def)
  have "14 \<le> length m" using r by (simp add: parse_reads_def)
  then have "?h ! (2 * k) = m ! (14 + 2 * k)" "?h ! (2 * k + 1) = m ! (15 + 2 * k)"
    using h by (simp_all add: nth_drop)
  then have "be_words ?h ! k = w"
    using be_words_nth [OF h] assms(6) by simp
  then have "\<not> ones_sum_ok (?h[2 * k := a, 2 * k + 1 := b])"
    using damaged_header [OF old(2) h, of w w' a b] assms(7,8,9) by simp
  moreover have "take (ihl (m ! 14)) (drop 14 m') = ?h[2 * k := a, 2 * k + 1 := b]"
    using take_drop_update [of _ 14 "m[14 + 2 * k := a]" "2 * k + 1" b] take_drop_update [of _ 14 m "2 * k" a]
    by (simp add: m'_def)
  ultimately have "\<not> frame_valid m' (unat len)" "frame_is_ipv4 m' (unat len)" "parse_reads m'"
    using old r keep by (simp_all add: frame_valid_def frame_is_ipv4_def parse_reads_def)
  then show ?thesis using parse_eq [of m' len] by (simp add: m'_def)
qed

definition plain_frame :: bytes where
  "plain_frame = [0, 0, 0, 0, 0, 0, 0, 0, 0, 0, 0, 0, 0x08, 0x00, 0x45, 0, 0, 28, 0, 0, 0, 0, 64, 17,
     0x7A, 0xD2, 0, 0, 0, 0, 0, 0, 0, 0]"

lemma plain_frame_parse: "\<exists>p. parse plain_frame 34 = Some p \<and> pp_valid p \<and> pp_has_ip p"
proof -
  have b: "plain_frame ! 12 = 0x08" "plain_frame ! 13 = 0x00" "plain_frame ! 14 = 0x45" "ihl 0x45 = 20"
      "length plain_frame = 34"
    by (simp_all add: plain_frame_def ihl_def)
  have "ones_sum_ok (take 20 (drop 14 plain_frame))"
    by (simp add: ones_sum_ok_def plain_frame_def)
  then have "parse_reads plain_frame" "frame_valid plain_frame 34" "frame_is_ipv4 plain_frame 34"
    by (simp_all add: parse_reads_def frame_valid_def frame_is_ipv4_def b)
  then show ?thesis using parse_eq [of plain_frame 34] by simp
qed

theorem checksum_detects_witness:
  "\<exists>p'. parse (plain_frame[22 := 63, 23 := 17]) 34 = Some p' \<and> pp_has_ip p' \<and> \<not> pp_valid p'"
proof -
  obtain p where p: "parse plain_frame 34 = Some p" "pp_valid p" "pp_has_ip p"
    using plain_frame_parse by auto
  have "{16145, 16401} \<noteq> {0, 65535 :: nat}" by auto
  then show ?thesis
    using checksum_detects [OF p, of 4 16401 16145 63 17] by (simp add: plain_frame_def ihl_def)
qed

end
