(* ===== verification/Rss.thy ===== *)
theory Rss
  imports Spsc_Ring Packet_Parser
begin

unbundle bit_operations_syntax

text \<open>
  Receive-side scaling, \<^verbatim>\<open>include/rss_distributor.h\<close> and \<^verbatim>\<open>src/rss_distributor.cpp\<close>: the Toeplitz hash
  of a flow and the distribution of buffers to per-queue rings. \<open>None\<close> is an access outside
  \<^verbatim>\<open>kRssKey\<close> or \<^verbatim>\<open>queues_\<close>, or a read outside the frame made by an accessor of the parsed packet.
  The \<^verbatim>\<open>assert\<close> on the number of queues is compiled out of the release build and appears as a
  hypothesis where a statement needs it.
\<close>

section \<open>The hash\<close>

definition kRssKey :: "u8 list" where
  "kRssKey =
    [0x6d, 0x5a, 0x56, 0xda, 0x25, 0x5b, 0x0e, 0xc2, 0x41, 0x67,
     0x25, 0x3d, 0x43, 0xa3, 0x8f, 0xb0, 0xd0, 0xca, 0x2b, 0xcb,
     0xae, 0x7b, 0x30, 0xb4, 0x77, 0xcb, 0x2d, 0xa3, 0x80, 0x30,
     0xf2, 0x0c, 0x6a, 0x42, 0xb7, 0x3b, 0xbe, 0xac, 0x01, 0xfa]"

definition toeplitz_input :: "u32 \<Rightarrow> u32 \<Rightarrow> u16 \<Rightarrow> u16 \<Rightarrow> u8 list" where
  "toeplitz_input sip dip sport dport =
     [ucast (drop_bit 24 sip), ucast (drop_bit 16 sip), ucast (drop_bit 8 sip), ucast sip,
      ucast (drop_bit 24 dip), ucast (drop_bit 16 dip), ucast (drop_bit 8 dip), ucast dip,
      ucast (drop_bit 8 sport), ucast sport, ucast (drop_bit 8 dport), ucast dport]"

text \<open>The loop state: \<^verbatim>\<open>result\<close>, \<^verbatim>\<open>window\<close>, \<^verbatim>\<open>next_bit\<close>.\<close>

type_synonym toeplitz_state = "u32 \<times> u32 \<times> u32"

definition toeplitz_bit :: "u8 \<Rightarrow> nat \<Rightarrow> toeplitz_state \<Rightarrow> toeplitz_state option" where
  "toeplitz_bit byte n = (\<lambda>(result, window, next_bit).
     let result' = (if drop_bit n byte AND 1 \<noteq> 0 then result XOR window else result) in
     if unat (drop_bit 3 next_bit) < length kRssKey then
       (let key_byte = kRssKey ! unat (drop_bit 3 next_bit);
            key_bit = ucast (drop_bit (7 - unat (next_bit AND 7)) key_byte AND 1)
        in Some (result', push_bit 1 window OR key_bit, next_bit + 1))
     else None)"

fun toeplitz_bits :: "u8 \<Rightarrow> nat list \<Rightarrow> toeplitz_state \<Rightarrow> toeplitz_state option" where
  "toeplitz_bits byte [] s = Some s"
| "toeplitz_bits byte (n # ns) s =
     (case toeplitz_bit byte n s of None \<Rightarrow> None | Some s' \<Rightarrow> toeplitz_bits byte ns s')"

fun toeplitz_bytes :: "u8 list \<Rightarrow> toeplitz_state \<Rightarrow> toeplitz_state option" where
  "toeplitz_bytes [] s = Some s"
| "toeplitz_bytes (b # bs) s =
     (case toeplitz_bits b [7, 6, 5, 4, 3, 2, 1, 0] s of None \<Rightarrow> None | Some s' \<Rightarrow> toeplitz_bytes bs s')"

definition toeplitz :: "u32 \<Rightarrow> u32 \<Rightarrow> u16 \<Rightarrow> u16 \<Rightarrow> u32 option" where
  "toeplitz sip dip sport dport =
     (let window = push_bit 24 (ucast (kRssKey ! 0)) OR push_bit 16 (ucast (kRssKey ! 1)) OR
                   push_bit 8 (ucast (kRssKey ! 2)) OR ucast (kRssKey ! 3)
      in case toeplitz_bytes (toeplitz_input sip dip sport dport) (0, window, 32) of
           None \<Rightarrow> None
         | Some (result, _, _) \<Rightarrow> Some result)"

section \<open>The distributor\<close>

record rss_distributor =
  rs_queue_count :: u64
  rs_mask :: u32
  rs_queues :: "nat spsc_ring list"

definition rss_init :: "u64 \<Rightarrow> rss_distributor" where
  "rss_init queue_count =
     \<lparr>rs_queue_count = queue_count, rs_mask = ucast (queue_count - 1),
      rs_queues = replicate (unat queue_count) (spsc_init (replicate 8192 0))\<rparr>"

text \<open>The constructor; \<open>None\<close> is the failed assertion that the number of queues is a power of two.\<close>

definition rss_new :: "u64 \<Rightarrow> rss_distributor option" where
  "rss_new queue_count =
     (if queue_count \<noteq> 0 \<and> queue_count AND (queue_count - 1) = 0 then Some (rss_init queue_count) else None)"

definition hash :: "rss_distributor \<Rightarrow> u32 \<Rightarrow> u32 \<Rightarrow> u16 \<Rightarrow> u16 \<Rightarrow> u32 option" where
  "hash d sip dip sport dport =
     do { h \<leftarrow> toeplitz sip dip sport dport; Some (h AND rs_mask d) }"

definition get_queue :: "rss_distributor \<Rightarrow> nat \<Rightarrow> nat spsc_ring option" where
  "get_queue d i = (if i < length (rs_queues d) then Some (rs_queues d ! i) else None)"

definition submit_index :: "bytes \<Rightarrow> rss_distributor \<Rightarrow> parsed_packet \<Rightarrow> u32 option" where
  "submit_index m d pkt =
     (if pp_has_udp pkt then
        do { s \<leftarrow> src_ip m (pp_ip pkt); t \<leftarrow> dst_ip m (pp_ip pkt);
             sp \<leftarrow> src_port m (pp_udp pkt); dp \<leftarrow> dst_port m (pp_udp pkt);
             hash d s t sp dp }
      else if pp_has_ip pkt then
        do { s \<leftarrow> src_ip m (pp_ip pkt); t \<leftarrow> dst_ip m (pp_ip pkt); hash d s t 0 0 }
      else Some 0)"

definition submit ::
  "bytes \<Rightarrow> rss_distributor \<Rightarrow> nat \<Rightarrow> parsed_packet \<Rightarrow> (bool \<times> rss_distributor) option" where
  "submit m d buf pkt =
     do { index \<leftarrow> submit_index m d pkt;
          q \<leftarrow> get_queue d (unat index);
          let (b, q') = spsc_push q buf;
          Some (b, d\<lparr>rs_queues := (rs_queues d)[unat index := q']\<rparr>) }"

section \<open>The hash as an exclusive or of key windows\<close>

definition key_at :: "nat \<Rightarrow> bool" where
  "key_at n = bit (kRssKey ! (n div 8)) (7 - n mod 8)"

text \<open>The 32 bits of the key that start at bit \<open>k\<close>, the first one most significant.\<close>

definition key_window :: "nat \<Rightarrow> u32" where
  "key_window k = horner_sum of_bool 2 (map (\<lambda>j. key_at (k + 31 - j)) [0..<32])"

fun xor_windows :: "nat \<Rightarrow> bool list \<Rightarrow> u32" where
  "xor_windows k [] = 0"
| "xor_windows k (b # bs) = (if b then key_window k else 0) XOR xor_windows (Suc k) bs"

definition byte_bits :: "u8 \<Rightarrow> bool list" where
  "byte_bits b = map (bit b) [7, 6, 5, 4, 3, 2, 1, 0]"

definition toeplitz_ref :: "u8 list \<Rightarrow> u32" where
  "toeplitz_ref bs = xor_windows 0 (concat (map byte_bits bs))"

lemma bit_key_window: "bit (key_window k) n \<longleftrightarrow> n < 32 \<and> key_at (k + 31 - n)"
  by (auto simp: key_window_def bit_horner_sum_bit_word_iff)

lemma key_window_Suc: "push_bit 1 (key_window k) OR of_bool (key_at (k + 32)) = key_window (Suc k)"
proof (rule bit_word_eqI)
  show "bit (push_bit 1 (key_window k) OR of_bool (key_at (k + 32))) n = bit (key_window (Suc k)) n"
    if "n < LENGTH(32)" for n
    using that unfolding bit_or_iff bit_push_bit_iff
    by (cases n) (auto simp: bit_simps bit_key_window add.commute)
qed

lemma toeplitz_bit_step:
  assumes "k < 96"
  shows "toeplitz_bit b n (r, key_window k, of_nat (32 + k)) =
    Some ((if bit b n then r XOR key_window k else r), key_window (Suc k), of_nat (32 + Suc k))"
proof -
  have nb: "unat (of_nat (32 + k) :: u32) = 32 + k"
    using assms by (intro unat_of_nat_u32) simp
  have "unat (drop_bit 3 (of_nat (32 + k) :: u32)) = (32 + k) div 8"
    by (simp only: drop_bit_eq_div unat_div nb) simp
  moreover have "unat ((of_nat (32 + k) :: u32) AND 7) = (32 + k) mod 8"
    using unat_and_mask_power [of "of_nat (32 + k) :: u32" 3] nb by simp
  moreover have "ucast (drop_bit i (w :: u8) AND 1) = (of_bool (bit w i) :: u32)" for i w
    by (rule bit_word_eqI) (auto simp: bit_simps)
  moreover have "drop_bit n b AND 1 \<noteq> 0 \<longleftrightarrow> bit b n"
    by (simp add: and_one_eq bit_iff_odd_drop_bit odd_iff_mod_2_eq_one)
  moreover have "(32 + k) div 8 < length kRssKey"
    using assms by (simp add: kRssKey_def)
  ultimately show ?thesis
    using key_window_Suc [of k] by (simp add: toeplitz_bit_def Let_def key_at_def add.commute)
qed

lemma toeplitz_bits_eq:
  "k + length ns \<le> 96 \<Longrightarrow> toeplitz_bits b ns (r, key_window k, of_nat (32 + k)) =
    Some (r XOR xor_windows k (map (bit b) ns), key_window (k + length ns), of_nat (32 + (k + length ns)))"
proof (induction ns arbitrary: k r)
  case Nil
  then show ?case by simp
next
  case (Cons n ns)
  have "toeplitz_bits b (n # ns) (r, key_window k, of_nat (32 + k)) =
      toeplitz_bits b ns (if bit b n then r XOR key_window k else r, key_window (Suc k), of_nat (32 + Suc k))"
    using Cons.prems toeplitz_bit_step [of k b n r] by (simp del: of_nat_add of_nat_Suc)
  then show ?case
    using Cons.IH [of "Suc k"] Cons.prems by (simp add: xor.assoc del: of_nat_add of_nat_Suc)
qed

lemma toeplitz_byte_eq:
  assumes "k + 8 * Suc n \<le> 96"
  shows "toeplitz_bits b [7, 6, 5, 4, 3, 2, 1, 0] (r, key_window k, of_nat (32 + k)) =
    Some (r XOR xor_windows k (byte_bits b), key_window (k + 8), of_nat (32 + (k + 8)))"
proof -
  have "length [7, 6, 5, 4, 3, 2, 1, 0 :: nat] = 8" by simp
  then show ?thesis
    using assms toeplitz_bits_eq [of k "[7, 6, 5, 4, 3, 2, 1, 0]" b r]
    unfolding byte_bits_def by (simp only:) simp
qed

lemma xor_windows_append:
  "xor_windows k (xs @ ys) = xor_windows k xs XOR xor_windows (k + length xs) ys"
  by (induction xs arbitrary: k) (simp_all add: xor.assoc)

lemma toeplitz_bytes_eq:
  "k + 8 * length bs \<le> 96 \<Longrightarrow> toeplitz_bytes bs (r, key_window k, of_nat (32 + k)) =
    Some (r XOR xor_windows k (concat (map byte_bits bs)), key_window (k + 8 * length bs),
      of_nat (32 + (k + 8 * length bs)))"
proof (induction bs arbitrary: k r)
  case Nil
  then show ?case by simp
next
  case (Cons b bs)
  have "toeplitz_bytes (b # bs) (r, key_window k, of_nat (32 + k)) =
      toeplitz_bytes bs (r XOR xor_windows k (byte_bits b), key_window (k + 8), of_nat (32 + (k + 8)))"
    using Cons.prems by (simp only: toeplitz_bytes.simps toeplitz_byte_eq option.case length_Cons)
  moreover have "length (byte_bits b) = 8" by (simp add: byte_bits_def)
  ultimately show ?case
    using Cons.IH [of "k + 8"] Cons.prems
    by (simp add: xor.assoc xor_windows_append add.assoc del: of_nat_add of_nat_Suc)
qed

lemma key_window_0:
  "push_bit 24 (ucast (kRssKey ! 0)) OR push_bit 16 (ucast (kRssKey ! 1)) OR
   push_bit 8 (ucast (kRssKey ! 2)) OR ucast (kRssKey ! 3) = key_window 0"
  by code_simp

lemma toeplitz_eq: "toeplitz sip dip sport dport = Some (toeplitz_ref (toeplitz_input sip dip sport dport))"
  using toeplitz_bytes_eq [of 0 "toeplitz_input sip dip sport dport" 0] key_window_0
  by (simp add: toeplitz_def toeplitz_ref_def toeplitz_input_def)

text \<open>Exclusive or of flows carries over to the hash.\<close>

lemma xor_windows_linear:
  "length xs = length ys \<Longrightarrow>
   xor_windows k (map2 (\<noteq>) xs ys) = xor_windows k xs XOR xor_windows k ys"
proof (induction xs ys arbitrary: k rule: list_induct2)
  case (Cons x xs y ys)
  then show ?case by (auto simp: ac_simps xor.left_commute)
qed simp

lemma bits_xor:
  "length as = length bs \<Longrightarrow> concat (map byte_bits (map2 (XOR) as bs)) =
   map2 (\<noteq>) (concat (map byte_bits as)) (concat (map byte_bits bs))"
proof (induction as bs rule: list_induct2)
  case (Cons a as b bs)
  then show ?case by (simp add: byte_bits_def bit_xor_iff)
qed simp

lemma length_bits: "length (concat (map byte_bits bs)) = 8 * length bs"
  by (induction bs) (simp_all add: byte_bits_def)

lemma toeplitz_ref_xor:
  "length as = length bs \<Longrightarrow> toeplitz_ref (map2 (XOR) as bs) = toeplitz_ref as XOR toeplitz_ref bs"
  unfolding toeplitz_ref_def
  by (subst bits_xor, assumption, rule xor_windows_linear) (simp only: length_bits)

lemma toeplitz_input_xor:
  "toeplitz_input (s XOR s') (d XOR d') (p XOR p') (q XOR q') =
   map2 (XOR) (toeplitz_input s d p q) (toeplitz_input s' d' p' q')"
  by (simp add: toeplitz_input_def unsigned_xor_eq)

section \<open>Distribution\<close>

definition rss_ok :: "rss_distributor \<Rightarrow> bool" where
  "rss_ok d \<longleftrightarrow> rs_queue_count d \<noteq> 0 \<and> length (rs_queues d) = unat (rs_queue_count d) \<and>
     rs_mask d = ucast (rs_queue_count d - 1) \<and>
     list_all (\<lambda>q. spsc_ok q \<and> length (rg_slots q) = 8192) (rs_queues d)"

lemma mask_bound:
  assumes "n \<noteq> 0"
  shows "unat (h AND (ucast (n - 1) :: u32)) < unat (n :: u64)"
proof -
  have "unat (h AND (ucast (n - 1) :: u32)) \<le> unat (ucast (n - 1) :: u32)"
    by (metis word_and_le1 word_le_nat_alt)
  also have "\<dots> \<le> unat (n - 1)"
    by (simp add: unsigned_ucast_eq take_bit_nat_less_eq_self)
  also have "\<dots> < unat n"
    using assms by (simp add: unat_gt_0 unat_minus_one)
  finally show ?thesis .
qed

lemma hash_in_range:
  assumes "rss_ok d"
  shows "\<exists>i. hash d s t p q = Some i \<and> unat i < length (rs_queues d)"
  using assms mask_bound by (simp add: hash_def toeplitz_eq rss_ok_def)

lemma hash_mod:
  assumes "rss_ok d" "k \<le> 32" "unat (rs_queue_count d) = 2 ^ k"
  shows "\<exists>i. hash d s t p q = Some i \<and>
    unat i = unat (toeplitz_ref (toeplitz_input s t p q)) mod unat (rs_queue_count d)"
proof -
  have "rs_queue_count d - 1 = mask k"
    using assms(2,3) unat_eq_2power [of k "rs_queue_count d"] by (simp add: mask_eq_decr_exp)
  moreover have "ucast (mask k :: u64) = (mask k :: u32)"
    by (rule bit_word_eqI) (auto simp: bit_simps)
  ultimately have "rs_mask d = 2 ^ k - 1"
    using assms(1) by (simp add: rss_ok_def mask_eq_decr_exp)
  then show ?thesis
    using assms(3) unat_and_mask_power by (simp add: hash_def toeplitz_eq)
qed

lemma rss_init_ok: "n \<noteq> 0 \<Longrightarrow> rss_ok (rss_init n)"
proof -
  have "pow2_upto 63 8192" unfolding pow2_upto_iff by (intro exI [of _ 13]) simp
  then show "n \<noteq> 0 \<Longrightarrow> rss_ok (rss_init n)"
    by (simp add: rss_ok_def rss_init_def spsc_init_def spsc_ok_def list_all_iff)
qed

lemma submit_at:
  assumes "rss_ok d" "submit_index m d pkt = Some i" "unat i < length (rs_queues d)"
  shows "\<exists>b d'. submit m d buf pkt = Some (b, d') \<and> rss_ok d' \<and>
    (b \<longleftrightarrow> length (spsc_contents (rs_queues d ! unat i)) < 8192) \<and>
    spsc_contents (rs_queues d' ! unat i) = spsc_contents (rs_queues d ! unat i) @ (if b then [buf] else []) \<and>
    (\<forall>j. j \<noteq> unat i \<longrightarrow> rs_queues d' ! j = rs_queues d ! j) \<and> rs_queue_count d' = rs_queue_count d"
proof -
  let ?q = "rs_queues d ! unat i"
  have q: "spsc_ok ?q" "length (rg_slots ?q) = 8192"
    using assms(1,3) by (auto simp: rss_ok_def list_all_length)
  obtain b q' where push: "spsc_push ?q buf = (b, q')" by fastforce
  note r = spsc.push_result [OF q(1) push]
  let ?d' = "d\<lparr>rs_queues := (rs_queues d)[unat i := q']\<rparr>"
  have "submit m d buf pkt = Some (b, ?d')"
    using assms(2,3) push by (simp add: submit_def get_queue_def)
  moreover have "rss_ok ?d'"
    using assms(1) r(2,3) q(2) by (auto simp: rss_ok_def list_all_iff dest!: set_update_subset_insert [THEN subsetD])
  ultimately show ?thesis
    using r(1,4) q(2) assms(3) by auto
qed

section \<open>Properties\<close>

text \<open>
  C12. The sliding-window loop computes the Toeplitz hash: it never leaves the key, and its result is
  the exclusive or, over the set bits of the 96-bit input, of the 32 key bits that start at the
  position of the input bit.
\<close>

theorem toeplitz_correct:
  "toeplitz sip dip sport dport =
     Some (xor_windows 0 (concat (map byte_bits (toeplitz_input sip dip sport dport))))"
  by (simp only: toeplitz_eq toeplitz_ref_def)

text \<open>
  The hash agrees with the verification suite of the 82599 datasheet for IPv4 with ports.
\<close>

theorem toeplitz_vectors:
  "toeplitz 0x420995BB 0xA18E6450 2794 1766 = Some 0x51ccc178 \<and>
   toeplitz 0xC75C6F02 0x41458C53 14230 4739 = Some 0xc626b0ea \<and>
   toeplitz 0x1813C65F 0x0C16CFB8 12898 38024 = Some 0x5c2b394a \<and>
   toeplitz 0x261BCD1E 0xD18EA306 48228 2217 = Some 0xafc7327f"
  by code_simp

text \<open>
  The hash is linear: the hash of the bitwise exclusive or of two flows is the exclusive or of
  their hashes.
\<close>

theorem toeplitz_linear:
  "toeplitz (s XOR s') (t XOR t') (p XOR p') (q XOR q') =
     do { h \<leftarrow> toeplitz s t p q; h' \<leftarrow> toeplitz s' t' p' q'; Some (h XOR h') }"
proof -
  have "length (toeplitz_input s t p q) = length (toeplitz_input s' t' p' q')"
    by (simp add: toeplitz_input_def)
  then show ?thesis
    by (simp add: toeplitz_eq toeplitz_input_xor toeplitz_ref_xor)
qed

text \<open>
  C20. \<open>submit\<close> on a UDP packet, for a distributor with \<open>2 ^ k\<close> queues: the buffer goes to the queue
  whose number is the Toeplitz hash of the packet's addresses and ports modulo the number of queues
  (so the packets of a flow stay in order in one queue), at its end; the call returns false exactly
  when that queue holds 8192 buffers, and then nothing changes; no other queue is touched.
\<close>

theorem submit_flow:
  assumes "rss_ok d" "k \<le> 32" "unat (rs_queue_count d) = 2 ^ k" "pp_has_udp pkt"
    and "src_ip m (pp_ip pkt) = Some s" "dst_ip m (pp_ip pkt) = Some t"
    and "src_port m (pp_udp pkt) = Some p" "dst_port m (pp_udp pkt) = Some q"
    and "toeplitz s t p q = Some h" "i = unat h mod unat (rs_queue_count d)"
  shows "\<exists>b d'. submit m d buf pkt = Some (b, d') \<and> rss_ok d' \<and>
    (b \<longleftrightarrow> length (spsc_contents (rs_queues d ! i)) < 8192) \<and>
    spsc_contents (rs_queues d' ! i) = spsc_contents (rs_queues d ! i) @ (if b then [buf] else []) \<and>
    (\<forall>j. j \<noteq> i \<longrightarrow> rs_queues d' ! j = rs_queues d ! j)"
proof -
  obtain w where w: "hash d s t p q = Some w" "unat w = i"
    using hash_mod [OF assms(1-3), of s t p q] assms(9,10) by (auto simp: toeplitz_eq)
  then have "submit_index m d pkt = Some w"
    using assms(4-8) by (simp add: submit_index_def)
  moreover have "unat w < length (rs_queues d)"
    using hash_in_range [OF assms(1), of s t p q] w by auto
  ultimately show ?thesis
    using submit_at [OF assms(1), of m pkt w buf] w(2) by blast
qed

definition example_pkt :: parsed_packet where
  "example_pkt = \<lparr>pp_valid = True, pp_eth = null_view, pp_ip = \<lparr>v_buf = 0, v_len = 28\<rparr>,
     pp_udp = \<lparr>v_buf = 20, v_len = 8\<rparr>, pp_has_ip = True, pp_has_udp = True, pp_raw = 0, pp_raw_len = 28\<rparr>"

theorem submit_flow_witness:
  "\<exists>b d'. submit (replicate 28 0) (rss_init 4) 7 example_pkt = Some (b, d') \<and> b"
proof -
  have "toeplitz 0 0 0 0 = Some 0" by code_simp
  moreover have "rss_ok (rss_init 4)" by (rule rss_init_ok) simp
  moreover have "length (spsc_contents (rs_queues (rss_init 4) ! 0)) < 8192"
    by (simp add: rss_init_def spsc_init_def spsc_contents_def)
  ultimately show ?thesis
    using submit_flow [of "rss_init 4" 2 example_pkt "replicate 28 0" 0 0 0 0 0 0 7]
    by (auto simp: example_pkt_def src_ip_def dst_ip_def src_port_def dst_port_def rd16_eq rd32_eq rss_init_def)
qed

end
