(* ===== verification/Packet_Path.thy ===== *)
theory Packet_Path
  imports Rss Unacked_Queue
begin

text \<open>
  What the consumers of the receive queues share: parsing the frame in a buffer of the pool
  (\<^verbatim>\<open>PacketParser::parse(buf->data, buf->len)\<close>, as \<^verbatim>\<open>src/batch_processor.cpp\<close> and \<^verbatim>\<open>src/worker_pool.cpp\<close> call
  it), and giving buffers back. The memory a view of the packet may read is the buffer itself: a buffer of
  78 bytes holds the longest Ethernet and IPv4 headers and the two ports, so no access leaves it.
\<close>

definition frame_mem :: "buffer_pool \<Rightarrow> nat \<Rightarrow> bytes" where
  "frame_mem p b = bd_bytes (bp_descs p ! b)"

definition parse_buf :: "buffer_pool \<Rightarrow> nat \<Rightarrow> parsed_packet option" where
  "parse_buf p b =
     (if b < length (bp_descs p) then parse (frame_mem p b) (ucast (bd_len (bp_descs p ! b))) else None)"

lemma frame_mem_length:
  "pool_ok p \<Longrightarrow> b < length (bp_descs p) \<Longrightarrow> length (frame_mem p b) = unat (bp_buffer_size p)"
  using pool_okD(3) [of p b] by (simp add: frame_mem_def desc_ok_def)

lemma parse_reads_roomy: "78 \<le> length m \<Longrightarrow> parse_reads m"
  using ihl_le [of "m ! 14"] by (simp add: parse_reads_def)

text \<open>What the parser reports of a frame in a roomy buffer, and that the ports can be read.\<close>

lemma parse_buf_defined:
  assumes "pool_ok p" "b < length (bp_descs p)" "78 \<le> unat (bp_buffer_size p)"
  shows "\<exists>pkt sp dp s t. parse_buf p b = Some pkt \<and> src_port (frame_mem p b) (pp_udp pkt) = Some sp \<and>
    dst_port (frame_mem p b) (pp_udp pkt) = Some dp \<and> src_ip (frame_mem p b) (pp_ip pkt) = Some s \<and>
    dst_ip (frame_mem p b) (pp_ip pkt) = Some t"
proof -
  let ?m = "frame_mem p b"
  have m: "78 \<le> length ?m" using frame_mem_length [OF assms(1,2)] assms(3) by simp
  note pe = parse_eq [OF parse_reads_roomy [OF m]]
  have "\<exists>w. rd16 ?m i = Some w" if "i \<le> 76" for i using that m by (simp add: rd16_eq)
  moreover have "\<exists>w. rd32 ?m i = Some w" if "i \<le> 74" for i using that m by (simp add: rd32_eq)
  ultimately show ?thesis
    using ihl_le [of "?m ! 14"] assms(2) pe
    by (simp add: parse_buf_def src_port_def dst_port_def src_ip_def dst_ip_def)
qed

fun release_bufs :: "buffer_pool \<Rightarrow> nat list \<Rightarrow> buffer_pool option" where
  "release_bufs p [] = Some p"
| "release_bufs p (b # bs) = do { p' \<leftarrow> release p b; release_bufs p' bs }"

lemma release_bufs_frees:
  assumes "pool_ok p" "distinct bs" "\<forall>b \<in> set bs. held p b"
  shows "\<exists>p'. release_bufs p bs = Some p' \<and> pool_keeps p p' (set bs) \<and> pool_free p' = rev bs @ pool_free p"
  using assms
proof (induction bs arbitrary: p)
  case Nil
  then show ?case by (simp add: pool_keeps_refl)
next
  case (Cons b bs)
  obtain p1 where p1: "release p b = Some p1" "pool_keeps p p1 {b}" "pool_free p1 = b # pool_free p"
    using release_keeps [OF Cons.prems(1)] Cons.prems(3) by (auto simp: held_def)
  have "pool_ok p1" "\<forall>c \<in> set bs. held p1 c"
    using p1 Cons.prems(2,3) by (auto simp: held_def pool_keeps_def)
  then obtain p' where "release_bufs p1 bs = Some p'" "pool_keeps p1 p' (set bs)" "pool_free p' = rev bs @ pool_free p1"
    using Cons.IH Cons.prems(2) by auto
  then show ?case using p1 pool_keeps_trans [OF p1(2), of p' "set bs"] by simp
qed

end
