(* ===== verification/Binary64.thy ===== *)
theory Binary64
  imports Complex_Main Prelude "HOL-Library.Log_Nat"
begin

text \<open>
  The \<^verbatim>\<open>double\<close> arithmetic of the measuring code (\<^verbatim>\<open>include/rdtsc.h\<close>, \<^verbatim>\<open>src/perf_counters.cpp\<close>,
  \<^verbatim>\<open>tools/perf_baseline.cpp\<close>): a finite double is the rational number it stands for, and every operation
  rounds its exact result to 53 significant bits, to nearest, ties to even. The operands there are conversions
  of 64-bit integers, quotients of these and small constants, so that no nonzero result leaves the range of
  normal exponents; \<open>None\<close> is a quotient by zero or a conversion to \<^verbatim>\<open>uint64_t\<close> of a number it cannot hold.
\<close>

section \<open>Rounding\<close>

definition rne :: "rat \<Rightarrow> int" where
  "rne x = (let n = \<lfloor>x\<rfloor>; d = x - of_int n in
     if d < 1 / 2 then n else if 1 / 2 < d then n + 1 else if even n then n else n + 1)"

definition expo :: "rat \<Rightarrow> int" where
  "expo x = (case quotient_of x of (a, b) \<Rightarrow>
     (let k = bitlen a - bitlen b in if 2 powi k \<le> x then k else k - 1))"

definition dround :: "rat \<Rightarrow> rat" where
  "dround x = (if x = 0 then 0
     else let u = 2 powi (expo \<bar>x\<bar> - 52) in of_int (rne (x / u)) * u)"

definition double_of :: "u64 \<Rightarrow> rat" where
  "double_of n = dround (of_nat (unat n))"

definition u64_of :: "rat \<Rightarrow> u64 option" where
  "u64_of x = (if - 1 < x \<and> x < 2 ^ 64 then Some (of_int (if 0 \<le> x then \<lfloor>x\<rfloor> else \<lceil>x\<rceil>)) else None)"

definition dmul :: "rat \<Rightarrow> rat \<Rightarrow> rat" where
  "dmul x y = dround (x * y)"

definition dsub :: "rat \<Rightarrow> rat \<Rightarrow> rat" where
  "dsub x y = dround (x - y)"

definition ddiv :: "rat \<Rightarrow> rat \<Rightarrow> rat option" where
  "ddiv x y = (if y = 0 then None else Some (dround (x / y)))"

section \<open>Its error\<close>

lemma rne_of_int [simp]: "rne (of_int n) = n"
  by (simp add: rne_def)

lemma rne_error: "\<bar>of_int (rne x) - x\<bar> \<le> 1 / 2"
proof -
  have "of_int \<lfloor>x\<rfloor> \<le> x" "x < of_int \<lfloor>x\<rfloor> + 1" by linarith+
  then show ?thesis by (auto simp: rne_def Let_def abs_le_iff)
qed

lemma rne_nonneg: "0 \<le> x \<Longrightarrow> 0 \<le> rne x"
  by (auto simp: rne_def Let_def)

lemma expo_bounds:
  assumes "0 < x"
  shows "2 powi expo x \<le> x" "x < 2 powi (expo x + 1)"
proof -
  obtain a b where q: "quotient_of x = (a, b)" by fastforce
  have b: "0 < b" and x: "x = of_int a / of_int b"
    using quotient_of_denom_pos [OF q] quotient_of_div [OF q] by auto
  then have a: "0 < a" using assms by (simp add: zero_less_divide_iff)
  have bits: "2 powi (bitlen n - 1) \<le> (of_int n :: rat)" "(of_int n :: rat) < 2 powi bitlen n" if "0 < n" for n
  proof -
    have "2 ^ nat (bitlen n - 1) \<le> n" "n < 2 ^ nat (bitlen n)" "0 < bitlen n"
      using bitlen_bounds [OF that] bitlen_eq_zero_iff [of n] bitlen_nonneg [of n] that by auto
    then have "(2 ^ nat (bitlen n - 1) :: rat) \<le> of_int n" "(of_int n :: rat) < 2 ^ nat (bitlen n)"
      by (metis of_int_le_iff of_int_numeral of_int_power, metis of_int_less_iff of_int_numeral of_int_power)
    then show "2 powi (bitlen n - 1) \<le> (of_int n :: rat)" "(of_int n :: rat) < 2 powi bitlen n"
      using \<open>0 < bitlen n\<close> by (simp_all add: power_int_def)
  qed
  let ?k = "bitlen a - bitlen b"
  have "x < 2 powi bitlen a / 2 powi (bitlen b - 1)"
    unfolding x using bits [OF a] bits [OF b] a b by (intro frac_less) auto
  also have "\<dots> = 2 powi (?k + 1)" by (simp flip: power_int_diff add: algebra_simps)
  finally have up: "x < 2 powi (?k + 1)" .
  have "2 powi (bitlen a - 1) / 2 powi bitlen b < x"
    unfolding x using bits [OF a] bits [OF b] a b by (intro frac_less2) auto
  then have "2 powi (?k - 1) \<le> x" by (simp flip: power_int_diff add: algebra_simps)
  then show "2 powi expo x \<le> x" "x < 2 powi (expo x + 1)"
    using up by (auto simp: expo_def q Let_def)
qed

lemma dround_zero [simp]: "dround 0 = 0"
  by (simp add: dround_def)

lemma dround_error: "\<bar>dround x - x\<bar> \<le> \<bar>x\<bar> / 2 ^ 53"
proof (cases "x = 0")
  case False
  let ?u = "2 powi (expo \<bar>x\<bar> - 52) :: rat"
  have "of_int (rne (x / ?u)) * ?u - x = (of_int (rne (x / ?u)) - x / ?u) * ?u"
    by (simp add: left_diff_distrib)
  then have "\<bar>of_int (rne (x / ?u)) * ?u - x\<bar> = \<bar>of_int (rne (x / ?u)) - x / ?u\<bar> * ?u"
    by (simp only: abs_mult) simp
  also have "\<dots> \<le> 1 / 2 * ?u" by (intro mult_right_mono rne_error) simp
  also have "\<dots> = 2 powi expo \<bar>x\<bar> / 2 ^ 53" by (simp add: power_int_diff)
  also have "\<dots> \<le> \<bar>x\<bar> / 2 ^ 53" using expo_bounds(1) [of "\<bar>x\<bar>"] False by (intro divide_right_mono) auto
  finally show ?thesis using False by (simp add: dround_def Let_def)
qed simp

lemma dround_nonneg: "0 \<le> x \<Longrightarrow> 0 \<le> dround x"
  by (auto simp: dround_def Let_def intro!: mult_nonneg_nonneg rne_nonneg divide_nonneg_nonneg)

lemma dround_bounds:
  assumes "0 \<le> x"
  shows "x * (1 - 1 / 2 ^ 53) \<le> dround x" "dround x \<le> x * (1 + 1 / 2 ^ 53)"
proof -
  have "dround x - x \<le> x / 2 ^ 53" "x - dround x \<le> x / 2 ^ 53" using dround_error [of x] assms by linarith+
  then show "x * (1 - 1 / 2 ^ 53) \<le> dround x" "dround x \<le> x * (1 + 1 / 2 ^ 53)"
    unfolding right_diff_distrib distrib_left times_divide_eq_right mult_1_right by linarith+
qed

lemma powi_shift:
  assumes "e \<le> 52"
  shows "(2 :: rat) powi (e - 52) = 1 / 2 ^ nat (52 - e)"
proof -
  have "e - 52 = - int (nat (52 - e))" using assms by simp
  then show ?thesis by (metis divide_inverse mult_1 power_int_minus power_int_of_nat)
qed

text \<open>An integer of at most 53 bits is a double.\<close>

lemma dround_of_int:
  assumes "\<bar>n\<bar> \<le> 2 ^ 53"
  shows "dround (of_int n) = of_int n"
proof (cases "n = 0")
  case False
  let ?x = "of_int n :: rat"
  let ?e = "expo \<bar>?x\<bar>"
  have e: "2 powi ?e \<le> \<bar>?x\<bar>" "\<bar>?x\<bar> < 2 powi (?e + 1)" using expo_bounds [of "\<bar>?x\<bar>"] False by auto
  have "\<bar>?x\<bar> \<le> 2 ^ 53" using assms by (metis of_int_abs of_int_le_iff of_int_numeral of_int_power)
  then have "(2 :: rat) powi ?e \<le> 2 powi 53" using e(1) by (simp add: power_int_def)
  then have "?e \<le> 53" by (rule power_int_le_imp_le_exp [rotated]) simp_all
  show ?thesis
  proof (cases "?e = 53")
    case True
    then have "\<bar>?x\<bar> = 2 ^ 53" using e(1) \<open>\<bar>?x\<bar> \<le> 2 ^ 53\<close> by (simp add: power_int_def)
    then have "?x / 2 = of_int (if 0 < n then 2 ^ 52 else - (2 ^ 52))" by (auto simp: abs_if split: if_splits)
    then show ?thesis using True False by (simp add: dround_def power_int_def)
  next
    case False
    then have u: "(2 :: rat) powi (?e - 52) = 1 / 2 ^ nat (52 - ?e)"
      using \<open>?e \<le> 53\<close> by (intro powi_shift) linarith
    have "?x / 2 powi (?e - 52) = of_int (n * 2 ^ nat (52 - ?e))" unfolding u by simp
    then have "rne (?x / 2 powi (?e - 52)) = n * 2 ^ nat (52 - ?e)" by (simp only: rne_of_int)
    then show ?thesis using \<open>n \<noteq> 0\<close> unfolding dround_def Let_def by (simp add: u)
  qed
qed simp

lemma double_of_bounds:
  "of_nat (unat n) * (1 - 1 / 2 ^ 53) \<le> double_of n" "double_of n \<le> of_nat (unat n) * (1 + 1 / 2 ^ 53)"
  unfolding double_of_def by (rule dround_bounds, rule of_nat_0_le_iff)+

lemma dround_of_nat: "n \<le> 2 ^ 53 \<Longrightarrow> dround (of_nat n) = of_nat n"
  using dround_of_int [of "int n"] by simp

lemma double_of_small: "unat n \<le> 2 ^ 53 \<Longrightarrow> double_of n = of_nat (unat n)"
  unfolding double_of_def by (rule dround_of_nat)

lemma u64_of_floor:
  assumes "0 \<le> x" "x < 2 ^ 64"
  shows "\<exists>k. u64_of x = Some k \<and> of_nat (unat k) \<le> x \<and> x < of_nat (unat k) + 1"
proof -
  have k: "0 \<le> \<lfloor>x\<rfloor>" "\<lfloor>x\<rfloor> < 2 ^ 64" "of_int \<lfloor>x\<rfloor> \<le> x" "x < of_int \<lfloor>x\<rfloor> + 1"
    using assms by (auto simp: floor_less_iff) linarith
  then have "int (unat (of_int \<lfloor>x\<rfloor> :: u64)) = \<lfloor>x\<rfloor>"
    by (simp add: uint_word_of_int_eq take_bit_eq_mod flip: uint_nat)
  then have "of_nat (unat (of_int \<lfloor>x\<rfloor> :: u64)) = (of_int \<lfloor>x\<rfloor> :: rat)"
    by (metis of_int_of_nat_eq)
  then show ?thesis using assms k by (auto simp: u64_of_def)
qed

end
