(* ===== verification/Batch_Processor.thy ===== *)
theory Batch_Processor
  imports Packet_Path Binary64
begin

text \<open>
  The batching consumer of one queue, \<^verbatim>\<open>include/batch_processor.h\<close> and \<^verbatim>\<open>src/batch_processor.cpp\<close>. A handler is
  identified by its address, a number; what the handlers do is the parameter \<open>handler_ops\<close> on a state \<open>'h\<close>
  (they are the application's code; they do not release the buffers they are shown). \<open>None\<close> is an
  access outside an array or a buffer.
\<close>

record 'h handler_ops =
  ho_handle :: "nat \<Rightarrow> parsed_packet \<Rightarrow> nat \<Rightarrow> 'h \<Rightarrow> 'h"
  ho_flush :: "nat \<Rightarrow> 'h \<Rightarrow> 'h"

definition BATCH_SIZE :: nat where "BATCH_SIZE = 32"

record processing_batch =
  pb_bufs :: "nat list"
  pb_packets :: "parsed_packet list"
  pb_count :: nat

record batch_stats =
  bs_batches :: u64
  bs_processed :: u64
  bs_dispatched :: u64

record batch_processor =
  bq_queue_index :: nat
  bq_batch :: processing_batch
  bq_stats :: batch_stats
  bq_default :: "nat option"
  bq_udp :: "u16 \<Rightarrow> nat option"

definition batch_new :: "nat \<Rightarrow> batch_processor" where
  "batch_new queue_index =
     \<lparr>bq_queue_index = queue_index, bq_batch = \<lparr>pb_bufs = [], pb_packets = [], pb_count = 0\<rparr>,
      bq_stats = \<lparr>bs_batches = 0, bs_processed = 0, bs_dispatched = 0\<rparr>, bq_default = None, bq_udp = (\<lambda>_. None)\<rparr>"

definition register_udp_handler :: "batch_processor \<Rightarrow> u16 \<Rightarrow> nat option \<Rightarrow> batch_processor" where
  "register_udp_handler bp port handler = bp\<lparr>bq_udp := (bq_udp bp)(port := handler)\<rparr>"

definition set_default_handler :: "batch_processor \<Rightarrow> nat option \<Rightarrow> batch_processor" where
  "set_default_handler bp handler = bp\<lparr>bq_default := handler\<rparr>"

section \<open>Dispatch\<close>

text \<open>The lambda \<^verbatim>\<open>mark\<close> on the array of \<^verbatim>\<open>BATCH_SIZE + 1\<close> handlers.\<close>

definition mark :: "nat list \<Rightarrow> nat \<Rightarrow> nat list option" where
  "mark touched h =
     (if h \<in> set touched then Some touched
      else if length touched < BATCH_SIZE + 1 then Some (touched @ [h]) else None)"

definition select_handler :: "batch_processor \<Rightarrow> bytes \<Rightarrow> parsed_packet \<Rightarrow> nat option option" where
  "select_handler bp m pkt =
     do { h \<leftarrow> (if pp_has_udp pkt then do { port \<leftarrow> dst_port m (pp_udp pkt); Some (bq_udp bp port) } else Some None);
          Some (case h of None \<Rightarrow> bq_default bp | Some x \<Rightarrow> Some x) }"

fun dispatch_loop ::
  "'h handler_ops \<Rightarrow> batch_processor \<Rightarrow> buffer_pool \<Rightarrow> (parsed_packet \<times> nat) list \<Rightarrow> nat list \<Rightarrow> 'h
    \<Rightarrow> (batch_processor \<times> nat list \<times> 'h) option" where
  "dispatch_loop ops bp p [] touched st = Some (bp, touched, st)"
| "dispatch_loop ops bp p ((pkt, buf) # rest) touched st =
     do { h \<leftarrow> select_handler bp (frame_mem p buf) pkt;
          case h of
            None \<Rightarrow> dispatch_loop ops bp p rest touched st
          | Some x \<Rightarrow>
              do { touched' \<leftarrow> mark touched x;
                   dispatch_loop ops
                     (bp\<lparr>bq_stats := (bq_stats bp)\<lparr>bs_dispatched := bs_dispatched (bq_stats bp) + 1\<rparr>\<rparr>) p rest
                     touched' (ho_handle ops x pkt buf st) } }"

definition dispatch_batch ::
  "'h handler_ops \<Rightarrow> batch_processor \<Rightarrow> buffer_pool \<Rightarrow> processing_batch \<Rightarrow> 'h \<Rightarrow> (batch_processor \<times> 'h) option" where
  "dispatch_batch ops bp p batch st =
     do { (bp', touched, st') \<leftarrow>
            dispatch_loop ops bp p (take (pb_count batch) (zip (pb_packets batch) (pb_bufs batch))) [] st;
          Some (bp', fold (ho_flush ops) touched st') }"

section \<open>One batch\<close>

fun pop_batch :: "nat \<Rightarrow> nat spsc_ring \<Rightarrow> nat list \<times> nat spsc_ring" where
  "pop_batch 0 q = ([], q)"
| "pop_batch (Suc n) q =
     (case spsc_pop q of
        (None, q') \<Rightarrow> ([], q')
      | (Some b, q') \<Rightarrow> (let (bs, q'') = pop_batch n q' in (b # bs, q'')))"

fun parse_bufs :: "buffer_pool \<Rightarrow> nat list \<Rightarrow> parsed_packet list option" where
  "parse_bufs p [] = Some []"
| "parse_bufs p (b # bs) = do { pkt \<leftarrow> parse_buf p b; pkts \<leftarrow> parse_bufs p bs; Some (pkt # pkts) }"

definition run_once ::
  "'h handler_ops \<Rightarrow> batch_processor \<Rightarrow> rss_distributor \<Rightarrow> buffer_pool \<Rightarrow> 'h
    \<Rightarrow> (batch_processor \<times> rss_distributor \<times> buffer_pool \<times> 'h) option" where
  "run_once ops bp d p st =
     do { q \<leftarrow> get_queue d (bq_queue_index bp);
          let (bufs, q') = pop_batch BATCH_SIZE q;
          let n = length bufs;
          let d' = d\<lparr>rs_queues := (rs_queues d)[bq_queue_index bp := q']\<rparr>;
          if n = 0 then Some (bp\<lparr>bq_batch := (bq_batch bp)\<lparr>pb_count := 0\<rparr>\<rparr>, d', p, st)
          else do {
            pkts \<leftarrow> parse_bufs p bufs;
            let batch = \<lparr>pb_bufs = bufs, pb_packets = pkts, pb_count = n\<rparr>;
            (bp1, st1) \<leftarrow> dispatch_batch ops (bp\<lparr>bq_batch := batch\<rparr>) p batch st;
            p' \<leftarrow> release_bufs p bufs;
            Some (bp1\<lparr>bq_stats := (bq_stats bp1)\<lparr>bs_batches := bs_batches (bq_stats bp1) + 1,
                    bs_processed := bs_processed (bq_stats bp1) + of_nat n\<rparr>\<rparr>, d', p', st1) } }"

section \<open>The specification\<close>

text \<open>The packets of a batch that have a handler, with the handler, in order.\<close>

definition chosen :: "batch_processor \<Rightarrow> buffer_pool \<Rightarrow> nat \<Rightarrow> nat option" where
  "chosen bp p b = (case parse_buf p b of None \<Rightarrow> None | Some pkt \<Rightarrow>
     (case select_handler bp (frame_mem p b) pkt of None \<Rightarrow> None | Some h \<Rightarrow> h))"

definition routed :: "batch_processor \<Rightarrow> buffer_pool \<Rightarrow> nat list \<Rightarrow> (nat \<times> parsed_packet \<times> nat) list" where
  "routed bp p bs = map (\<lambda>b. (the (chosen bp p b), the (parse_buf p b), b)) (filter (\<lambda>b. chosen bp p b \<noteq> None) bs)"

text \<open>The handlers of a list in the order in which they appear first.\<close>

definition first_seen :: "nat list \<Rightarrow> nat list" where
  "first_seen hs = rev (remdups (rev hs))"

lemma first_seen_props: "distinct (first_seen hs)" "set (first_seen hs) = set hs" "length (first_seen hs) \<le> length hs"
  using length_remdups_leq [of "rev hs"] by (simp_all add: first_seen_def)

lemma first_seen_snoc: "first_seen (hs @ [h]) = (if h \<in> set hs then first_seen hs else first_seen hs @ [h])"
  by (simp add: first_seen_def)

lemma mark_first_seen: "length hs \<le> BATCH_SIZE \<Longrightarrow> mark (first_seen hs) h = Some (first_seen (hs @ [h]))"
  using first_seen_props [of hs] by (simp add: mark_def first_seen_snoc)

lemma select_stats [simp]:
  "select_handler (bp\<lparr>bq_stats := x\<rparr>) m pkt = select_handler bp m pkt"
  "select_handler (bp\<lparr>bq_batch := y\<rparr>) m pkt = select_handler bp m pkt"
  by (simp_all add: select_handler_def cong: option.case_cong)

lemma chosen_stats [simp]:
  "chosen (bp\<lparr>bq_stats := x\<rparr>) = chosen bp" "chosen (bp\<lparr>bq_batch := y\<rparr>) = chosen bp"
  by (simp_all add: chosen_def fun_eq_iff cong: option.case_cong)

lemma routed_stats [simp]:
  "routed (bp\<lparr>bq_stats := x\<rparr>) = routed bp" "routed (bp\<lparr>bq_batch := y\<rparr>) = routed bp"
  by (simp_all add: routed_def fun_eq_iff)

lemma dispatch_loop_spec:
  assumes "\<forall>b \<in> set bs. \<exists>pkt h. parse_buf p b = Some pkt \<and> select_handler bp (frame_mem p b) pkt = Some h"
    and "length hs + length bs \<le> BATCH_SIZE"
  shows "dispatch_loop ops bp p (zip (map (the \<circ> parse_buf p) bs) bs) (first_seen hs) st =
    Some (bp\<lparr>bq_stats := (bq_stats bp)\<lparr>bs_dispatched := bs_dispatched (bq_stats bp) + of_nat (length (routed bp p bs))\<rparr>\<rparr>,
      first_seen (hs @ map fst (routed bp p bs)), fold (\<lambda>(h, pkt, b). ho_handle ops h pkt b) (routed bp p bs) st)"
  using assms
proof (induction bs arbitrary: bp hs st)
  case Nil
  then show ?case by (simp add: routed_def)
next
  case (Cons b bs)
  obtain pkt h where b: "parse_buf p b = Some pkt" "select_handler bp (frame_mem p b) pkt = Some h"
    using Cons.prems(1) by auto
  show ?case
  proof (cases h)
    case None
    then show ?thesis using Cons.IH [of bp hs st] Cons.prems b by (simp add: routed_def chosen_def)
  next
    case (Some x)
    let ?bp = "bp\<lparr>bq_stats := (bq_stats bp)\<lparr>bs_dispatched := bs_dispatched (bq_stats bp) + 1\<rparr>\<rparr>"
    have "routed bp p (b # bs) = (x, pkt, b) # routed bp p bs"
      using Some b by (simp add: routed_def chosen_def)
    then show ?thesis
      using Cons.IH [of ?bp "hs @ [x]" "ho_handle ops x pkt b st"] Cons.prems b Some mark_first_seen [of hs x]
      by (simp add: algebra_simps)
  qed
qed

lemma pop_batch_take:
  assumes "spsc_ok q"
  shows "\<exists>q'. pop_batch n q = (take n (spsc_contents q), q') \<and> spsc_ok q' \<and>
    spsc_contents q' = drop n (spsc_contents q) \<and> length (rg_slots q') = length (rg_slots q)"
  using assms
proof (induction n arbitrary: q)
  case 0
  then show ?case by simp
next
  case (Suc n)
  show ?case
  proof (cases "spsc_contents q")
    case Nil
    then show ?thesis using Suc.prems spsc_pop_empty [OF Nil] by simp
  next
    case (Cons x xs)
    obtain q1 where q1: "spsc_pop q = (Some x, q1)" "spsc_ok q1" "spsc_contents q1 = xs" "rg_slots q1 = rg_slots q"
      using spsc_pop_Cons [OF Suc.prems Cons] by blast
    then show ?thesis using Suc.IH [OF q1(2)] Cons by auto
  qed
qed

lemma parse_bufs_map:
  "\<forall>b \<in> set bs. parse_buf p b \<noteq> None \<Longrightarrow> parse_bufs p bs = Some (map (the \<circ> parse_buf p) bs)"
  by (induction bs) auto

lemma select_defined:
  assumes "pool_ok p" "78 \<le> unat (bp_buffer_size p)" "b < length (bp_descs p)"
  shows "\<exists>pkt h. parse_buf p b = Some pkt \<and> select_handler bp (frame_mem p b) pkt = Some h"
  using parse_buf_defined [OF assms(1,3,2)] by (auto simp: select_handler_def)

text \<open>The state of the handlers after a batch.\<close>

definition handled :: "'h handler_ops \<Rightarrow> (nat \<times> parsed_packet \<times> nat) list \<Rightarrow> 'h \<Rightarrow> 'h" where
  "handled ops rs st = fold (ho_flush ops) (first_seen (map fst rs)) (fold (\<lambda>(h, pkt, b). ho_handle ops h pkt b) rs st)"

section \<open>The average\<close>

definition avg_batch_size :: "batch_processor \<Rightarrow> rat option" where
  "avg_batch_size bp =
     (if bs_batches (bq_stats bp) \<noteq> 0
      then ddiv (double_of (bs_processed (bq_stats bp))) (double_of (bs_batches (bq_stats bp))) else Some 0)"

text \<open>Every batch has between 1 and 32 packets, so the average lies there too, up to the rounding.\<close>

lemma avg_batch_bounds:
  assumes "unat (bs_processed (bq_stats bp)) \<le> 2 ^ 53" "bs_batches (bq_stats bp) \<noteq> 0"
    and "unat (bs_batches (bq_stats bp)) \<le> unat (bs_processed (bq_stats bp))"
    and "unat (bs_processed (bq_stats bp)) \<le> 32 * unat (bs_batches (bq_stats bp))"
  obtains a where "avg_batch_size bp = Some a" "1 - 1 / 2 ^ 53 \<le> a" "a \<le> 32 * (1 + 1 / 2 ^ 53)"
proof -
  define N B where "N = unat (bs_processed (bq_stats bp))" and "B = unat (bs_batches (bq_stats bp))"
  have B: "0 < B" "B \<le> N" "N \<le> 32 * B" "N \<le> 2 ^ 53" using assms unat_gt_0 by (auto simp: N_def B_def)
  have d: "double_of (bs_processed (bq_stats bp)) = of_nat N" "double_of (bs_batches (bq_stats bp)) = of_nat B"
    using B assms(1,3) double_of_small by (auto simp: N_def B_def)
  let ?x = "of_nat N / of_nat B :: rat"
  have "(of_nat N :: rat) \<le> of_nat (32 * B)" "(of_nat B :: rat) \<le> of_nat N" using B(2,3) by (simp_all only: of_nat_le_iff)
  then have x: "1 \<le> ?x" "?x \<le> 32" using B(1) by (simp_all add: field_simps)
  have "avg_batch_size bp = Some (dround ?x)" using assms(2) B(1) by (simp add: avg_batch_size_def ddiv_def d)
  moreover have "1 * (1 - 1 / 2 ^ 53) \<le> dround ?x" "dround ?x \<le> 32 * (1 + 1 / 2 ^ 53)"
    using order_trans [OF mult_right_mono [OF x(1)] dround_bounds(1) [of ?x]]
      order_trans [OF dround_bounds(2) [of ?x] mult_right_mono [OF x(2)]] x(1) by simp_all
  ultimately show ?thesis using that by simp
qed

section \<open>Properties\<close>

text \<open>
  C8. One call of \<^verbatim>\<open>run_once\<close>. It takes the oldest packets of its queue, at most 32; shows every packet
  to the handler registered for its UDP destination port, or to the default handler, in order; flushes
  every handler that was shown a packet, once, in the order of first use; gives every buffer back to
  the pool; and counts. No array or buffer is left, provided the buffers have at least 78 bytes.
\<close>

theorem run_once_batch:
  assumes "pool_ok p" "78 \<le> unat (bp_buffer_size p)" "rss_ok d" "bq_queue_index bp < length (rs_queues d)"
    and "bs = take 32 (spsc_contents (rs_queues d ! bq_queue_index bp))" "distinct bs" "\<forall>b \<in> set bs. held p b"
  shows "\<exists>bp' d' p'. run_once ops bp d p st = Some (bp', d', p', handled ops (routed bp p bs) st) \<and>
    rss_ok d' \<and> spsc_contents (rs_queues d' ! bq_queue_index bp) = drop 32 (spsc_contents (rs_queues d ! bq_queue_index bp)) \<and>
    (\<forall>j. j \<noteq> bq_queue_index bp \<longrightarrow> rs_queues d' ! j = rs_queues d ! j) \<and>
    pool_ok p' \<and> pool_free p' = rev bs @ pool_free p \<and>
    bq_stats bp' = \<lparr>bs_batches = bs_batches (bq_stats bp) + (if bs = [] then 0 else 1),
      bs_processed = bs_processed (bq_stats bp) + of_nat (length bs),
      bs_dispatched = bs_dispatched (bq_stats bp) + of_nat (length (routed bp p bs))\<rparr>"
proof -
  let ?i = "bq_queue_index bp" let ?q = "rs_queues d ! ?i"
  have q: "spsc_ok ?q" "length (rg_slots ?q) = 8192" using assms(3,4) by (auto simp: rss_ok_def list_all_length)
  obtain q' where q': "pop_batch BATCH_SIZE ?q = (bs, q')" "spsc_ok q'" "spsc_contents q' = drop 32 (spsc_contents ?q)"
      "length (rg_slots q') = 8192"
    using pop_batch_take [OF q(1), of 32] q(2) assms(5) by (auto simp: BATCH_SIZE_def)
  let ?d = "d\<lparr>rs_queues := (rs_queues d)[?i := q']\<rparr>"
  have d: "rss_ok ?d" "rs_queues ?d ! ?i = q'" "\<forall>j. j \<noteq> ?i \<longrightarrow> rs_queues ?d ! j = rs_queues d ! j"
    using assms(3,4) q'(2,4) by (auto simp: rss_ok_def list_all_length nth_list_update)
  have sel: "\<forall>b \<in> set bs. \<exists>pkt h. parse_buf p b = Some pkt \<and> select_handler bp (frame_mem p b) pkt = Some h"
    using select_defined [OF assms(1,2)] assms(7) by (simp add: held_def)
  obtain p' where p': "release_bufs p bs = Some p'" "pool_keeps p p' (set bs)" "pool_free p' = rev bs @ pool_free p"
    using release_bufs_frees [OF assms(1,6,7)] by blast
  have parse: "parse_bufs p bs = Some (map (the \<circ> parse_buf p) bs)" using sel by (intro parse_bufs_map) auto
  have len: "length bs \<le> BATCH_SIZE" using assms(5) by (simp add: BATCH_SIZE_def)
  show ?thesis
  proof (cases "bs = []")
    case True
    then show ?thesis
      using q' d p' assms(1,4)
      by (auto simp: run_once_def get_queue_def handled_def routed_def first_seen_def)
  next
    case False
    let ?b = "\<lparr>pb_bufs = bs, pb_packets = map (the \<circ> parse_buf p) bs, pb_count = length bs\<rparr>"
    have "dispatch_batch ops (bp\<lparr>bq_batch := ?b\<rparr>) p ?b st =
        Some (bp\<lparr>bq_batch := ?b, bq_stats := (bq_stats bp)\<lparr>bs_dispatched := bs_dispatched (bq_stats bp) + of_nat (length (routed bp p bs))\<rparr>\<rparr>,
          handled ops (routed bp p bs) st)"
      using dispatch_loop_spec [of bs p "bp\<lparr>bq_batch := ?b\<rparr>" "[]" ops st] sel len
      by (simp add: dispatch_batch_def handled_def first_seen_def)
    then show ?thesis
      using q' d p' parse False assms(4)
      by (cases "bq_stats bp") (simp add: run_once_def get_queue_def pool_keeps_def Let_def)
  qed
qed

text \<open>One packet waits in the queue, and a default handler that keeps a log is registered.\<close>

definition log_ops :: "nat list handler_ops" where
  "log_ops = \<lparr>ho_handle = (\<lambda>h pkt b log. log @ [h]), ho_flush = (\<lambda>h log. log @ [h])\<rparr>"

definition one_waiting :: rss_distributor where
  "one_waiting = (rss_init 1)\<lparr>rs_queues := [snd (spsc_push (spsc_init (replicate 8192 0)) 0)]\<rparr>"

lemma one_waiting_ok: "rss_ok one_waiting" "spsc_contents (rs_queues one_waiting ! 0) = [0]" "length (rs_queues one_waiting) = 1"
proof -
  let ?q = "spsc_init (replicate 8192 (0 :: nat))"
  have q: "spsc_ok ?q" "length (rg_slots ?q) = 8192" "spsc_contents ?q = []"
    using rss_init_ok [of 1] by (simp_all add: rss_ok_def rss_init_def spsc_init_def spsc_contents_def)
  then obtain r where "spsc_push ?q 0 = (True, r)" "spsc_ok r" "spsc_contents r = [0]" "length (rg_slots r) = 8192"
    using spsc_push_room [OF q(1), of 0] by auto
  then show "rss_ok one_waiting" "spsc_contents (rs_queues one_waiting ! 0) = [0]" "length (rs_queues one_waiting) = 1"
    by (simp_all add: one_waiting_def rss_ok_def rss_init_def)
qed

theorem run_once_batch_witness:
  "\<exists>p bp' d' p' log. run_once log_ops (set_default_handler (batch_new 0) (Some 7)) one_waiting p [] = Some (bp', d', p', log) \<and>
     spsc_contents (rs_queues d' ! 0) = [] \<and> pool_free p' = [0] \<and> bs_processed (bq_stats bp') = 1"
proof -
  let ?bp = "set_default_handler (batch_new 0) (Some 7)"
  obtain p0 where p0: "pool_ok p0" "bp_buffer_size p0 = 2048" "length (bp_descs p0) = 1" "pool_free p0 = [0]"
    using bump_pool_exists [of 2048 1] by auto
  obtain p where p: "pool_ok p" "pool_free p = []" "bp_descs p = bp_descs p0" "bp_buffer_size p = bp_buffer_size p0"
    using acquire_Cons [OF p0(1,4)] by blast
  have i: "bq_queue_index ?bp = 0" "bq_stats ?bp = \<lparr>bs_batches = 0, bs_processed = 0, bs_dispatched = 0\<rparr>"
    by (simp_all add: set_default_handler_def batch_new_def)
  obtain bp' d' p' where r: "run_once log_ops ?bp one_waiting p [] = Some (bp', d', p', handled log_ops (routed ?bp p [0]) [])"
      "spsc_contents (rs_queues d' ! 0) = []" "pool_free p' = [0]" "bs_processed (bq_stats bp') = 1"
    using run_once_batch [OF p(1) _ one_waiting_ok(1), of ?bp "[0]" log_ops "[]"] one_waiting_ok(2,3) p p0(2,3) i
    by (auto simp: held_def)
  then show ?thesis
    by (intro exI [of _ p] exI [of _ bp'] exI [of _ d'] exI [of _ p'] exI [of _ "handled log_ops (routed ?bp p [0]) []"]) simp
qed

end
