(* ===== verification/Worker_Pool.thy ===== *)
theory Worker_Pool
  imports Packet_Path
begin

text \<open>
  The worker threads, \<^verbatim>\<open>include/worker_pool.h\<close> and \<^verbatim>\<open>src/worker_pool.cpp\<close>. One pass of the loop of a
  worker is one step; the calls that pin, name and prioritise the thread (\<open>worker_setup\<close>) go to the parameter
  \<open>tos\<close>, and their failures are only reported. The application's callback is a parameter on a state \<open>'c\<close>. \<open>None\<close> is an access outside an
  array or a buffer.
\<close>

record worker_config =
  wc_cpu_core :: int
  wc_numa_node :: int
  wc_queue_index :: nat
  wc_name :: string

record worker_stats =
  ws_processed :: u64
  ws_dropped :: u64
  ws_idle :: u64

record worker_pool =
  wp_configs :: "worker_config list"
  wp_stats :: "worker_stats list"
  wp_stop :: bool

definition no_stats :: worker_stats where
  "no_stats = \<lparr>ws_processed = 0, ws_dropped = 0, ws_idle = 0\<rparr>"

definition worker_pool_new :: "worker_config list \<Rightarrow> worker_pool" where
  "worker_pool_new configs =
     \<lparr>wp_configs = configs, wp_stats = replicate (length configs) no_stats, wp_stop = False\<rparr>"

text \<open>The locals of a running worker: \<^verbatim>\<open>iters\<close>, and whether the loop is still entered.\<close>

record worker_local =
  wl_iters :: u64
  wl_running :: bool

definition worker_start :: worker_local where
  "worker_start = \<lparr>wl_iters = 0, wl_running = True\<rparr>"

definition bump_processed :: "worker_pool \<Rightarrow> nat \<Rightarrow> worker_pool" where
  "bump_processed wp i = wp\<lparr>wp_stats := (wp_stats wp)[i := (wp_stats wp ! i)\<lparr>ws_processed := ws_processed (wp_stats wp ! i) + 1\<rparr>]\<rparr>"

definition bump_dropped :: "worker_pool \<Rightarrow> nat \<Rightarrow> worker_pool" where
  "bump_dropped wp i = wp\<lparr>wp_stats := (wp_stats wp)[i := (wp_stats wp ! i)\<lparr>ws_dropped := ws_dropped (wp_stats wp ! i) + 1\<rparr>]\<rparr>"

definition bump_idle :: "worker_pool \<Rightarrow> nat \<Rightarrow> worker_pool" where
  "bump_idle wp i = wp\<lparr>wp_stats := (wp_stats wp)[i := (wp_stats wp ! i)\<lparr>ws_idle := ws_idle (wp_stats wp ! i) + 1\<rparr>]\<rparr>"

text \<open>The body of the loop: take a packet and process it, or count an idle pass.\<close>

definition worker_body ::
  "(nat \<Rightarrow> nat \<Rightarrow> parsed_packet \<Rightarrow> 'c \<Rightarrow> 'c) \<Rightarrow> nat \<Rightarrow> worker_pool \<Rightarrow> rss_distributor \<Rightarrow> buffer_pool \<Rightarrow> 'c
    \<Rightarrow> (worker_pool \<times> rss_distributor \<times> buffer_pool \<times> 'c) option" where
  "worker_body cb i wp d p c =
     (if i < length (wp_configs wp) then
        (let qi = wc_queue_index (wp_configs wp ! i) in
         do { q \<leftarrow> get_queue d qi;
              let (v, q') = spsc_pop q;
              let d' = d\<lparr>rs_queues := (rs_queues d)[qi := q']\<rparr>;
              case v of
                None \<Rightarrow> Some (bump_idle wp i, d', p, c)
              | Some buf \<Rightarrow>
                  do { parsed \<leftarrow> parse_buf p buf;
                       p' \<leftarrow> release p buf;
                       Some (bump_processed wp i, d', p', cb qi buf parsed c) } })
      else None)"

text \<open>The end of a pass: \<^verbatim>\<open>stop_\<close> is looked at in every thousandth pass.\<close>

definition worker_next :: "bool \<Rightarrow> worker_local \<Rightarrow> worker_local" where
  "worker_next stop l =
     (let iters = wl_iters l + 1 in \<lparr>wl_iters = iters, wl_running = \<not> (iters mod 1000 = 0 \<and> stop)\<rparr>)"

fun drop_at :: "worker_config list \<Rightarrow> nat \<Rightarrow> nat option" where
  "drop_at [] qi = None"
| "drop_at (cfg # cfgs) qi = (if wc_queue_index cfg = qi then Some 0 else map_option Suc (drop_at cfgs qi))"

definition record_drop :: "worker_pool \<Rightarrow> nat \<Rightarrow> worker_pool" where
  "record_drop wp qi = (case drop_at (wp_configs wp) qi of None \<Rightarrow> wp | Some i \<Rightarrow> bump_dropped wp i)"

definition request_stop :: "worker_pool \<Rightarrow> worker_pool" where
  "request_stop wp = wp\<lparr>wp_stop := True\<rparr>"

text \<open>The last line of \<^verbatim>\<open>print_stats\<close>.\<close>

fun stat_totals :: "worker_stats list \<Rightarrow> u64 \<times> u64 \<times> u64 \<Rightarrow> u64 \<times> u64 \<times> u64" where
  "stat_totals [] acc = acc"
| "stat_totals (s # ss) (agg_processed, agg_dropped, agg_idle) =
     stat_totals ss (agg_processed + ws_processed s, agg_dropped + ws_dropped s, agg_idle + ws_idle s)"

definition print_totals :: "worker_pool \<Rightarrow> u64 \<times> u64 \<times> u64" where
  "print_totals wp = stat_totals (wp_stats wp) (0, 0, 0)"

text \<open>All that \<^verbatim>\<open>print_stats\<close> prints: a row per worker and the totals.\<close>

definition worker_rows :: "worker_pool \<Rightarrow> (string \<times> u64 \<times> u64 \<times> u64) list" where
  "worker_rows wp =
     map2 (\<lambda>cfg s. (wc_name cfg, ws_processed s, ws_dropped s, ws_idle s)) (wp_configs wp) (wp_stats wp)"

definition worker_print_stats :: "worker_pool \<Rightarrow> (string \<times> u64 \<times> u64 \<times> u64) list \<times> (u64 \<times> u64 \<times> u64)" where
  "worker_print_stats wp = (worker_rows wp, print_totals wp)"

section \<open>The start of a worker\<close>

text \<open>
  \<open>to_affinity\<close> gets the processors of the mask, \<open>to_name\<close> the name and \<open>to_fifo\<close> the priority;
  \<open>True\<close> is the return value 0. \<^verbatim>\<open>CPU_SET\<close> leaves the mask alone when the processor is not one of the 1024 it holds.
\<close>

record 'k thread_os =
  to_affinity :: "nat list \<Rightarrow> 'k \<Rightarrow> bool \<times> 'k"
  to_name :: "string \<Rightarrow> 'k \<Rightarrow> 'k"
  to_fifo :: "int \<Rightarrow> 'k \<Rightarrow> bool \<times> 'k"

datatype worker_message = Pin_failed string int | Fifo_denied string

definition cpu_mask :: "int \<Rightarrow> nat list" where
  "cpu_mask core = (if 0 \<le> core \<and> core < 1024 then [nat core] else [])"

definition worker_setup :: "'k thread_os \<Rightarrow> worker_config \<Rightarrow> 'k \<Rightarrow> worker_message list \<times> 'k" where
  "worker_setup tos cfg k =
     (let (pinned, k1) = to_affinity tos (cpu_mask (wc_cpu_core cfg)) k;
          k2 = to_name tos (take 15 (wc_name cfg)) k1;
          (fifo, k3) = to_fifo tos 50 k2
      in ((if pinned then [] else [Pin_failed (wc_name cfg) (wc_cpu_core cfg)]) @
          (if fifo then [] else [Fifo_denied (wc_name cfg)]), k3))"

lemma worker_setup_silent:
  assumes "\<And>m k. fst (to_affinity tos m k)" "\<And>n k. fst (to_fifo tos n k)"
  shows "fst (worker_setup tos cfg k) = []"
  using assms(1) [of "cpu_mask (wc_cpu_core cfg)" k] assms(2)
  by (auto simp: worker_setup_def split: prod.splits) (metis fst_conv)+

section \<open>Totals\<close>

definition total_of :: "(worker_stats \<Rightarrow> u64) \<Rightarrow> worker_pool \<Rightarrow> u64" where
  "total_of f wp = sum_list (map f (wp_stats wp))"

lemma stat_totals_sums:
  "stat_totals ss (a, b, c) = (a + sum_list (map ws_processed ss), b + sum_list (map ws_dropped ss), c + sum_list (map ws_idle ss))"
  by (induction ss arbitrary: a b c) (simp_all add: add.assoc)

lemma print_totals_eq: "print_totals wp = (total_of ws_processed wp, total_of ws_dropped wp, total_of ws_idle wp)"
  by (simp add: print_totals_def stat_totals_sums total_of_def)

lemma sum_list_bump:
  fixes f :: "'a \<Rightarrow> 'n :: len word"
  assumes "i < length xs" "f x = f (xs ! i) + k"
  shows "sum_list (map f (xs[i := x])) = sum_list (map f xs) + k"
  using assms
proof (induction xs arbitrary: i)
  case (Cons y ys)
  then show ?case by (cases i) (simp_all add: algebra_simps)
qed simp

lemma bump_totals:
  assumes "i < length (wp_stats wp)"
  shows "total_of ws_processed (bump_processed wp i) = total_of ws_processed wp + 1"
    "total_of ws_dropped (bump_processed wp i) = total_of ws_dropped wp"
    "total_of ws_processed (bump_dropped wp i) = total_of ws_processed wp"
    "total_of ws_dropped (bump_dropped wp i) = total_of ws_dropped wp + 1"
    "total_of ws_processed (bump_idle wp i) = total_of ws_processed wp"
    "total_of ws_dropped (bump_idle wp i) = total_of ws_dropped wp"
  using assms sum_list_bump [of i "wp_stats wp" ws_processed _ 0] sum_list_bump [of i "wp_stats wp" ws_processed _ 1]
    sum_list_bump [of i "wp_stats wp" ws_dropped _ 0] sum_list_bump [of i "wp_stats wp" ws_dropped _ 1]
  by (simp_all add: total_of_def bump_processed_def bump_dropped_def bump_idle_def)

lemma bump_fields [simp]:
  "wp_configs (bump_processed wp i) = wp_configs wp" "wp_configs (bump_dropped wp i) = wp_configs wp"
  "wp_configs (bump_idle wp i) = wp_configs wp" "wp_stop (bump_processed wp i) = wp_stop wp"
  "wp_stop (bump_dropped wp i) = wp_stop wp" "wp_stop (bump_idle wp i) = wp_stop wp"
  "length (wp_stats (bump_processed wp i)) = length (wp_stats wp)"
  "length (wp_stats (bump_dropped wp i)) = length (wp_stats wp)" "length (wp_stats (bump_idle wp i)) = length (wp_stats wp)"
  by (simp_all add: bump_processed_def bump_dropped_def bump_idle_def)

lemma drop_at_Some: "drop_at cfgs qi = Some i \<Longrightarrow> i < length cfgs \<and> wc_queue_index (cfgs ! i) = qi"
  by (induction cfgs arbitrary: i) (auto split: if_splits)

lemma drop_at_None: "drop_at cfgs qi = None \<longleftrightarrow> qi \<notin> wc_queue_index ` set cfgs"
  by (induction cfgs) auto

section \<open>The stop flag is seen within a thousand passes\<close>

lemma next_thousand: "\<exists>k. 0 < k \<and> k \<le> 1000 \<and> 1000 dvd n + (k :: nat)"
proof -
  obtain q r where n: "n = 1000 * q + r" "r < 1000" by (metis mult_div_mod_eq mod_less_divisor zero_less_numeral)
  then have "n + (1000 - r) = 1000 * (q + 1)" by simp
  then have "1000 dvd n + (1000 - r)" by (metis dvd_triv_left)
  then show ?thesis using n(2) by (intro exI [of _ "1000 - r"]) simp
qed

lemma wrap_hits:
  fixes w :: u64
  shows "\<exists>k. 0 < k \<and> k \<le> 1000 \<and> (w + of_nat k) mod 1000 = 0"
proof (cases "unat w + 1000 < 2 ^ 64")
  case True
  obtain k where k: "0 < k" "k \<le> 1000" "1000 dvd unat w + k" using next_thousand by blast
  have w: "w + of_nat k = of_nat (unat w + k)" by simp
  have "unat (w + of_nat k) = unat w + k"
    unfolding w using True k(2) by (intro unat_of_nat_u64) linarith
  then have "unat ((w + of_nat k) mod 1000) = 0" using k(3) by (simp add: unat_mod)
  then show ?thesis using k(1,2) by (intro exI [of _ k]) (simp add: unat_eq_zero)
next
  case False
  define k where "k = 2 ^ 64 - unat w"
  have l: "unat w < 2 ^ 64" using unat_u64_less [of w] by simp
  have k: "0 < k" "k \<le> 1000" using False l by (auto simp: k_def)
  have "w + of_nat k = of_nat (unat w + k)" by simp
  also have "unat w + k = 2 ^ 64" using l by (simp add: k_def)
  also have "(of_nat (2 ^ 64) :: u64) = 0" by simp
  finally show ?thesis using k by (intro exI [of _ k]) simp
qed

fun worker_nexts :: "nat \<Rightarrow> worker_local \<Rightarrow> worker_local" where
  "worker_nexts 0 l = l"
| "worker_nexts (Suc n) l = (if wl_running l then worker_nexts n (worker_next True l) else l)"

lemma worker_nexts_stopped: "\<not> wl_running l \<Longrightarrow> worker_nexts n l = l"
  by (cases n) simp_all

lemma worker_nexts_stop:
  "0 < k \<Longrightarrow> k \<le> n \<Longrightarrow> (wl_iters l + of_nat k) mod 1000 = 0 \<Longrightarrow> \<not> wl_running (worker_nexts n l)"
proof (induction n arbitrary: l k)
  case (Suc n)
  show ?case
  proof (cases "wl_running l \<and> wl_running (worker_next True l)")
    case True
    then have "(wl_iters l + 1) mod 1000 \<noteq> 0" by (simp add: worker_next_def Let_def)
    then have "k \<noteq> 1" using Suc.prems(3) by (metis of_nat_1)
    then obtain k' where k': "k = Suc k'" "0 < k'" using Suc.prems(1) by (cases k) auto
    have "(wl_iters (worker_next True l) + of_nat k') mod 1000 = 0"
      using Suc.prems(3) k'(1) by (simp add: worker_next_def Let_def add.assoc)
    then show ?thesis using Suc.IH [of k' "worker_next True l"] Suc.prems(2) k' True by simp
  next
    case False
    then show ?thesis by (auto simp: worker_nexts_stopped)
  qed
qed simp

lemma worker_nexts_1000: "\<not> wl_running (worker_nexts 1000 l)"
proof -
  obtain k where k: "0 < k" "k \<le> 1000" "(wl_iters l + of_nat k) mod 1000 = 0"
    using wrap_hits [of "wl_iters l"] by (elim exE conjE)
  show ?thesis by (rule worker_nexts_stop [OF k])
qed

end
