(* ===== verification/Capture.thy ===== *)
theory Capture
  imports Worker_Pool "HOL-Library.Multiset"
begin

text \<open>
  The core of \<^verbatim>\<open>src/multiqueue_capture.cpp\<close> on top of the pool, the distributor and the workers: handing a
  frame over to a queue and the passes of the workers. The program is a list of events: a frame is taken
  over by the main loop, a worker makes a pass, the workers are asked to stop. Any interleaving of the main
  loop and the workers is such a list; the steps are atomic, which \<^verbatim>\<open>Spsc_Concurrent\<close> justifies for the queues.
\<close>

section \<open>From the ring to a queue\<close>

definition queue_for :: "bytes \<Rightarrow> rss_distributor \<Rightarrow> parsed_packet \<Rightarrow> u32 option" where
  "queue_for m d p =
     (if pp_has_udp p then
        do { s \<leftarrow> src_ip m (pp_ip p); t \<leftarrow> dst_ip m (pp_ip p);
             sp \<leftarrow> src_port m (pp_udp p); dp \<leftarrow> dst_port m (pp_udp p); hash d s t sp dp }
      else if pp_has_ip p then do { s \<leftarrow> src_ip m (pp_ip p); t \<leftarrow> dst_ip m (pp_ip p); hash d s t 0 0 }
      else Some 0)"

text \<open>Handing a frame over, lines 79 to 92: \<open>mem\<close> is the memory at \<^verbatim>\<open>frame.data\<close>.\<close>

definition enqueue_frame ::
  "bytes \<Rightarrow> u32 \<Rightarrow> rss_distributor \<Rightarrow> worker_pool \<Rightarrow> buffer_pool
    \<Rightarrow> (rss_distributor \<times> worker_pool \<times> buffer_pool) option" where
  "enqueue_frame mem captured_len d wp p =
     do { (b, p1) \<leftarrow> acquire p;
          case b of
            None \<Rightarrow> Some (d, wp, p1)
          | Some buf \<Rightarrow>
              (let cap = bd_capacity (bp_descs p1 ! buf); n = (if captured_len < cap then captured_len else cap) in
               if unat n \<le> length mem then
                 do { p2 \<leftarrow> buf_write p1 buf 0 (take (unat n) mem);
                      p3 \<leftarrow> buf_set_len p2 buf n;
                      parsed \<leftarrow> parse_buf p3 buf;
                      q \<leftarrow> queue_for (frame_mem p3 buf) d parsed;
                      ring \<leftarrow> get_queue d (unat q);
                      let (ok, ring') = spsc_push ring buf;
                      let d' = d\<lparr>rs_queues := (rs_queues d)[unat q := ring']\<rparr>;
                      if ok then Some (d', wp, p3)
                      else do { p4 \<leftarrow> release p3 buf; Some (d', record_drop wp (unat q), p4) } }
               else None) }"

section \<open>The program\<close>

record 'c mq_sys =
  mq_rss :: rss_distributor
  mq_workers :: worker_pool
  mq_pool :: buffer_pool
  mq_locals :: "worker_local list"
  mq_cb :: 'c

datatype mq_event = Arrive bytes u32 | Pass nat | Stop

definition worker_pass ::
  "(nat \<Rightarrow> nat \<Rightarrow> parsed_packet \<Rightarrow> 'c \<Rightarrow> 'c) \<Rightarrow> nat \<Rightarrow> 'c mq_sys \<Rightarrow> 'c mq_sys option" where
  "worker_pass cb i s =
     (if i < length (mq_locals s) \<and> wl_running (mq_locals s ! i) then
        do { (wp, d, p, c) \<leftarrow> worker_body cb i (mq_workers s) (mq_rss s) (mq_pool s) (mq_cb s);
             Some (s\<lparr>mq_rss := d, mq_workers := wp, mq_pool := p, mq_cb := c,
                     mq_locals := (mq_locals s)[i := worker_next (wp_stop wp) (mq_locals s ! i)]\<rparr>) }
      else Some s)"

fun mq_step :: "(nat \<Rightarrow> nat \<Rightarrow> parsed_packet \<Rightarrow> 'c \<Rightarrow> 'c) \<Rightarrow> mq_event \<Rightarrow> 'c mq_sys \<Rightarrow> 'c mq_sys option" where
  "mq_step cb (Arrive mem captured_len) s =
     do { (d, wp, p) \<leftarrow> enqueue_frame mem captured_len (mq_rss s) (mq_workers s) (mq_pool s);
          Some (s\<lparr>mq_rss := d, mq_workers := wp, mq_pool := p\<rparr>) }"
| "mq_step cb (Pass i) s = worker_pass cb i s"
| "mq_step cb Stop s = Some (s\<lparr>mq_workers := request_stop (mq_workers s)\<rparr>)"

fun mq_run :: "(nat \<Rightarrow> nat \<Rightarrow> parsed_packet \<Rightarrow> 'c \<Rightarrow> 'c) \<Rightarrow> mq_event list \<Rightarrow> 'c mq_sys \<Rightarrow> 'c mq_sys option" where
  "mq_run cb [] s = Some s"
| "mq_run cb (ev # evs) s = Option.bind (mq_step cb ev s) (mq_run cb evs)"

text \<open>The set-up of \<^verbatim>\<open>main\<close>: the workers, their callback and the starting state.\<close>

definition kQueues :: nat where "kQueues = 4"

definition mq_configs :: "worker_config list" where
  "mq_configs = map (\<lambda>i. \<lparr>wc_cpu_core = [0, 2, 4, 6] ! i, wc_numa_node = -1, wc_queue_index = i,
     wc_name = ''worker'' @ [char_of (48 + i)]\<rparr>) [0..<kQueues]"

definition count_callback :: "nat \<Rightarrow> nat \<Rightarrow> parsed_packet \<Rightarrow> u64 list \<Rightarrow> u64 list" where
  "count_callback queue_id buf pkt counts = counts[queue_id := counts ! queue_id + 1]"

text \<open>Four is a power of two, so the assertion of the distributor holds (\<open>mq_queues\<close>).\<close>

definition mq_start :: "buffer_pool \<Rightarrow> u64 list mq_sys" where
  "mq_start p = \<lparr>mq_rss = rss_init (of_nat kQueues), mq_workers = worker_pool_new mq_configs, mq_pool = p,
     mq_locals = replicate kQueues worker_start, mq_cb = replicate kQueues 0\<rparr>"

lemma mq_queues: "rss_new (of_nat kQueues) = Some (rss_init (of_nat kQueues))"
  by (simp add: rss_new_def kQueues_def)

fun arrivals :: "mq_event list \<Rightarrow> nat" where
  "arrivals [] = 0"
| "arrivals (ev # evs) = (case ev of Arrive _ _ \<Rightarrow> 1 | _ \<Rightarrow> 0) + arrivals evs"

fun arrival_ok :: "mq_event \<Rightarrow> bool" where
  "arrival_ok (Arrive mem captured_len) = (unat captured_len \<le> length mem)"
| "arrival_ok _ = True"

section \<open>Buffers and counters\<close>

definition queued :: "rss_distributor \<Rightarrow> nat list" where
  "queued d = concat (map spsc_contents (rs_queues d))"

lemma queued_update:
  assumes "i < length (rs_queues d)"
  shows "mset (queued (d\<lparr>rs_queues := (rs_queues d)[i := q]\<rparr>)) + mset (spsc_contents (rs_queues d ! i)) =
    mset (queued d) + mset (spsc_contents q)"
proof -
  have "mset (concat (map spsc_contents (qs[i := q]))) + mset (spsc_contents (qs ! i)) =
      mset (concat (map spsc_contents qs)) + mset (spsc_contents q)" if "i < length qs" for qs :: "nat spsc_ring list"
    using that
  proof (induction qs arbitrary: i)
    case (Cons r rs)
    then show ?case by (cases i) (simp_all add: ac_simps)
  qed simp
  then show ?thesis using assms by (simp add: queued_def)
qed

text \<open>What no operation on buffers changes: the capacities; and what only \<^verbatim>\<open>acquire\<close> on an empty pool changes.\<close>

definition pool_meta :: "buffer_pool \<Rightarrow> u32 list \<times> u64 \<times> u64" where
  "pool_meta p = (map bd_capacity (bp_descs p), bp_exhausted p, bp_buffer_size p)"

lemma map_update_same: "f x = f (xs ! i) \<Longrightarrow> map f (xs[i := x]) = map f xs"
  by (cases "i < length xs") (simp_all add: map_update list_update_same_conv list_update_beyond)

lemma meta_acquire: "acquire p = Some (Some b, p') \<Longrightarrow> pool_meta p' = pool_meta p"
  by (auto simp: acquire_def pool_meta_def split: option.splits prod.splits if_splits)

lemma meta_write: "buf_write p b off bs = Some p' \<Longrightarrow> pool_meta p' = pool_meta p"
  by (auto simp: buf_write_def pool_meta_def Let_def map_update_same split: if_splits)

lemma meta_set_len: "buf_set_len p b n = Some p' \<Longrightarrow> pool_meta p' = pool_meta p"
  by (auto simp: buf_set_len_def pool_meta_def map_update_same split: if_splits)

lemma meta_push: "fs_push fs ds i = Some (fs', ds') \<Longrightarrow> map bd_capacity ds' = map bd_capacity ds"
  by (auto simp: fs_push_def Let_def map_update_same split: if_splits)

lemma meta_release: "release p b = Some p' \<Longrightarrow> pool_meta p' = pool_meta p"
  by (auto simp: release_def pool_meta_def Let_def map_update_same dest!: meta_push split: if_splits option.splits prod.splits)

text \<open>
  The invariant: every buffer is free or in exactly one queue, and every frame taken over is queued,
  processed, dropped at a full queue or lost to an empty pool.
\<close>

definition core_ok :: "rss_distributor \<Rightarrow> worker_pool \<Rightarrow> buffer_pool \<Rightarrow> nat \<Rightarrow> bool" where
  "core_ok d wp p frames \<longleftrightarrow> pool_ok p \<and> 78 \<le> unat (bp_buffer_size p) \<and>
     pool_meta p = (replicate (length (bp_descs p)) (ucast (bp_buffer_size p)), bp_exhausted p, bp_buffer_size p) \<and>
     rss_ok d \<and> mset (pool_free p) + mset (queued d) = mset [0..<length (bp_descs p)] \<and>
     length (wp_stats wp) = length (wp_configs wp) \<and> wc_queue_index ` set (wp_configs wp) = {..<length (rs_queues d)} \<and>
     total_of ws_processed wp + total_of ws_dropped wp + bp_exhausted p + of_nat (length (queued d)) = of_nat frames"

lemma core_okD:
  assumes "core_ok d wp p frames"
  shows "pool_ok p" "78 \<le> unat (bp_buffer_size p)" "rss_ok d" "length (wp_stats wp) = length (wp_configs wp)"
    "b < length (bp_descs p) \<Longrightarrow> bd_capacity (bp_descs p ! b) = ucast (bp_buffer_size p)"
    "wc_queue_index ` set (wp_configs wp) = {..<length (rs_queues d)}"
    "mset (pool_free p) + mset (queued d) = mset [0..<length (bp_descs p)]"
    "distinct (queued d)" "b \<in> set (queued d) \<Longrightarrow> held p b"
proof -
  note ok = assms [unfolded core_ok_def]
  show "pool_ok p" "78 \<le> unat (bp_buffer_size p)" "rss_ok d" "length (wp_stats wp) = length (wp_configs wp)"
    "wc_queue_index ` set (wp_configs wp) = {..<length (rs_queues d)}"
    and m: "mset (pool_free p) + mset (queued d) = mset [0..<length (bp_descs p)]"
    using ok by simp_all
  have "map bd_capacity (bp_descs p) = replicate (length (bp_descs p)) (ucast (bp_buffer_size p))"
    using ok by (simp add: pool_meta_def)
  then show "bd_capacity (bp_descs p ! b) = ucast (bp_buffer_size p)" if "b < length (bp_descs p)"
    using that by (metis nth_map nth_replicate)
  have d: "distinct (pool_free p @ queued d)" "set (pool_free p @ queued d) = {..<length (bp_descs p)}"
    using m mset_eq_imp_distinct_iff [of "pool_free p @ queued d" "[0..<length (bp_descs p)]"]
      mset_eq_setD [of "pool_free p @ queued d" "[0..<length (bp_descs p)]"] by auto
  then show "distinct (queued d)" "b \<in> set (queued d) \<Longrightarrow> held p b" by (auto simp: held_def)
qed

lemma queue_for_range:
  assumes "rss_ok d" "pool_ok p" "b < length (bp_descs p)" "78 \<le> unat (bp_buffer_size p)"
  shows "\<exists>pkt q. parse_buf p b = Some pkt \<and> queue_for (frame_mem p b) d pkt = Some q \<and> unat q < length (rs_queues d)"
proof -
  obtain pkt sp dp s t where r: "parse_buf p b = Some pkt" "src_port (frame_mem p b) (pp_udp pkt) = Some sp"
      "dst_port (frame_mem p b) (pp_udp pkt) = Some dp" "src_ip (frame_mem p b) (pp_ip pkt) = Some s"
      "dst_ip (frame_mem p b) (pp_ip pkt) = Some t"
    using parse_buf_defined [OF assms(2,3,4)] by blast
  have "0 < length (rs_queues d)" using assms(1) by (simp add: rss_ok_def unat_gt_0)
  then show ?thesis
    using r hash_in_range [OF assms(1), of s t sp dp] hash_in_range [OF assms(1), of s t 0 0]
    by (auto simp: queue_for_def)
qed

lemma queue_update_ok:
  assumes "rss_ok d" "i < length (rs_queues d)" "spsc_ok q" "length (rg_slots q) = 8192"
  shows "rss_ok (d\<lparr>rs_queues := (rs_queues d)[i := q]\<rparr>)"
  using assms by (auto simp: rss_ok_def list_all_length nth_list_update)

lemma queue_at: "rss_ok d \<Longrightarrow> i < length (rs_queues d) \<Longrightarrow> spsc_ok (rs_queues d ! i) \<and> length (rg_slots (rs_queues d ! i)) = 8192"
  by (auto simp: rss_ok_def list_all_length)

lemma record_drop_fields [simp]:
  "wp_configs (record_drop wp q) = wp_configs wp" "length (wp_stats (record_drop wp q)) = length (wp_stats wp)"
  "wp_stop (record_drop wp q) = wp_stop wp"
  by (auto simp: record_drop_def split: option.splits)

lemma record_drop_totals:
  assumes "length (wp_stats wp) = length (wp_configs wp)" "q \<in> wc_queue_index ` set (wp_configs wp)"
  shows "total_of ws_processed (record_drop wp q) = total_of ws_processed wp"
    "total_of ws_dropped (record_drop wp q) = total_of ws_dropped wp + 1"
proof -
  obtain i where i: "drop_at (wp_configs wp) q = Some i" using assms(2) drop_at_None by (metis not_Some_eq)
  then have "i < length (wp_stats wp)" using drop_at_Some [OF i] assms(1) by simp
  then show "total_of ws_processed (record_drop wp q) = total_of ws_processed wp"
    "total_of ws_dropped (record_drop wp q) = total_of ws_dropped wp + 1"
    using i bump_totals(3,4) by (simp_all add: record_drop_def)
qed

text \<open>Taking over a frame.\<close>

lemma fill_buffer:
  assumes "core_ok d wp p frames" "pool_free p = b # bs" "unat captured \<le> length mem"
  shows "\<exists>p1 p2 p3 n. acquire p = Some (Some b, p1) \<and>
    n = (if captured < bd_capacity (bp_descs p1 ! b) then captured else bd_capacity (bp_descs p1 ! b)) \<and>
    unat n \<le> length mem \<and> buf_write p1 b 0 (take (unat n) mem) = Some p2 \<and> buf_set_len p2 b n = Some p3 \<and>
    pool_keeps p p3 {b} \<and> pool_free p3 = bs \<and> pool_meta p3 = pool_meta p \<and> b < length (bp_descs p)"
proof -
  note ok = core_okD [OF assms(1)]
  have b: "b < length (bp_descs p)" using pool_free_less [OF ok(1)] assms(2) by simp
  obtain p1 where p1: "acquire p = Some (Some b, p1)" "pool_ok p1" "pool_free p1 = bs" "bp_descs p1 = bp_descs p"
      "bp_buffer_size p1 = bp_buffer_size p"
    using acquire_Cons [OF ok(1) assms(2)] by blast
  define n where "n = (if captured < bd_capacity (bp_descs p1 ! b) then captured else bd_capacity (bp_descs p1 ! b))"
  have "unat (ucast (bp_buffer_size p) :: u32) \<le> unat (bp_buffer_size p)"
    by (simp add: unsigned_ucast_eq take_bit_nat_less_eq_self)
  then have n: "unat n \<le> unat captured" "unat n \<le> unat (bp_buffer_size p1)"
    using ok(5) [OF b] p1(4,5) by (auto simp: n_def word_less_nat_alt)
  have "0 + length (take (unat n) mem) \<le> unat (bp_buffer_size p1)" using n(2) by simp
  then obtain p2 where p2: "buf_write p1 b 0 (take (unat n) mem) = Some p2" "pool_keeps p1 p2 {b}" "pool_free p2 = bs"
    using buf_write_at [OF p1(2), of b 0 "take (unat n) mem"] b p1(3,4) by auto
  obtain p3 where p3: "buf_set_len p2 b n = Some p3" "pool_keeps p2 p3 {b}" "pool_free p3 = bs"
    using buf_set_len_at [of p2 b n] p2(2,3) b p1(4) by (auto simp: pool_keeps_def)
  have "pool_keeps p p3 {b}" using pool_keeps_trans1 [OF p2(2) p3(2)] p1(4,5) by (simp add: pool_keeps_def)
  then show ?thesis
    using p1(1) p2(1) p3(1,3) n(1) assms(3) b meta_acquire [OF p1(1)] meta_write [OF p2(1)] meta_set_len [OF p3(1)]
    by (intro exI [of _ p1] exI [of _ p2] exI [of _ p3] exI [of _ n]) (simp add: n_def)
qed

lemma enqueue_exhausted:
  assumes "core_ok d wp p frames" "pool_free p = []"
  shows "\<exists>p'. enqueue_frame mem captured d wp p = Some (d, wp, p') \<and> core_ok d wp p' (Suc frames) \<and>
    length (bp_descs p') = length (bp_descs p)"
proof -
  note ok = core_okD [OF assms(1)]
  let ?p = "p\<lparr>bp_exhausted := bp_exhausted p + 1\<rparr>"
  have "pool_free ?p = pool_free p" "desc_ok ?p = desc_ok p" by (simp_all add: pool_free_def desc_ok_def fun_eq_iff)
  then have "pool_ok ?p = pool_ok p" by (simp add: pool_ok_def)
  then have "core_ok d wp ?p (Suc frames)"
    using assms(1) \<open>pool_free ?p = pool_free p\<close> by (simp add: core_ok_def pool_meta_def algebra_simps)
  then show ?thesis using acquire_Nil [OF ok(1) assms(2)] by (simp add: enqueue_frame_def)
qed

text \<open>A buffer whose queue is full goes back to the pool, and the drop is counted.\<close>

lemma drop_core:
  assumes "core_ok d wp p frames" "pool_free p = b # bs" "pool_keeps p p3 {b}" "pool_free p3 = bs"
    "pool_meta p3 = pool_meta p" "b < length (bp_descs p)" "rss_ok d'" "length (rs_queues d') = length (rs_queues d)"
    "mset (queued d') = mset (queued d)" "q < length (rs_queues d)"
  shows "\<exists>p4. release p3 b = Some p4 \<and> core_ok d' (record_drop wp q) p4 (Suc frames) \<and>
    length (bp_descs p4) = length (bp_descs p)"
proof -
  note ok = core_okD [OF assms(1)]
  have p3: "pool_ok p3" "length (bp_descs p3) = length (bp_descs p)" "bp_buffer_size p3 = bp_buffer_size p"
    using assms(3) by (simp_all add: pool_keeps_def)
  have "held p3 b" using assms(2,4,6) p3(2) pool_okD(5) [OF ok(1)] by (simp add: held_def)
  then obtain p4 where p4: "release p3 b = Some p4" "pool_keeps p3 p4 {b}" "pool_free p4 = b # bs"
    using release_keeps [OF p3(1)] assms(4) by (auto simp: held_def)
  have e4: "pool_meta p4 = pool_meta p" "bp_exhausted p4 = bp_exhausted p"
    using meta_release [OF p4(1)] assms(5) by (simp_all add: pool_meta_def)
  have k4: "pool_ok p4" "length (bp_descs p4) = length (bp_descs p)" "bp_buffer_size p4 = bp_buffer_size p"
    using p4(2) p3 by (simp_all add: pool_keeps_def)
  have len: "length (queued d') = length (queued d)" using assms(9) by (metis size_mset)
  have "q \<in> wc_queue_index ` set (wp_configs wp)" using ok(6) assms(10) by simp
  note tot = record_drop_totals [OF ok(4) this]
  have "core_ok d' (record_drop wp q) p4 (Suc frames)"
    using assms(1,2,7-9) k4 e4 p4(3) tot len ok(7) by (simp add: core_ok_def algebra_simps)
  then show ?thesis using p4(1) k4(2) by simp
qed

lemma enqueue_core:
  assumes "core_ok d wp p frames" "unat captured \<le> length mem"
  shows "\<exists>d' wp' p'. enqueue_frame mem captured d wp p = Some (d', wp', p') \<and> core_ok d' wp' p' (Suc frames) \<and>
    length (bp_descs p') = length (bp_descs p) \<and> wp_stop wp' = wp_stop wp \<and> wp_configs wp' = wp_configs wp"
proof (cases "pool_free p")
  case Nil
  then show ?thesis using enqueue_exhausted [OF assms(1)] by fastforce
next
  case (Cons b bs)
  note ok = core_okD [OF assms(1)]
  obtain p1 p2 p3 n where f: "acquire p = Some (Some b, p1)"
      "n = (if captured < bd_capacity (bp_descs p1 ! b) then captured else bd_capacity (bp_descs p1 ! b))"
      "unat n \<le> length mem" "buf_write p1 b 0 (take (unat n) mem) = Some p2" "buf_set_len p2 b n = Some p3"
      "pool_keeps p p3 {b}" "pool_free p3 = bs" "pool_meta p3 = pool_meta p" "b < length (bp_descs p)"
    using fill_buffer [OF assms(1) Cons assms(2)] by blast
  have p3: "pool_ok p3" "length (bp_descs p3) = length (bp_descs p)" "bp_buffer_size p3 = bp_buffer_size p"
    using f(6) by (simp_all add: pool_keeps_def)
  obtain pkt q where q: "parse_buf p3 b = Some pkt" "queue_for (frame_mem p3 b) d pkt = Some q" "unat q < length (rs_queues d)"
    using queue_for_range [OF ok(3) p3(1), of b] f(9) p3(2,3) ok(2) by auto
  let ?r = "rs_queues d ! unat q"
  note r = queue_at [OF ok(3) q(3)]
  obtain acc r' where push: "spsc_push ?r b = (acc, r')" by fastforce
  note pr = spsc.push_result [OF _ push]
  let ?d = "d\<lparr>rs_queues := (rs_queues d)[unat q := r']\<rparr>"
  have d: "rss_ok ?d" "length (rs_queues ?d) = length (rs_queues d)"
    using queue_update_ok [OF ok(3) q(3)] r pr by simp_all
  have m: "mset (queued ?d) = mset (queued d) + (if acc then {#b#} else {#})"
    using queued_update [OF q(3), of r'] pr(4) r by (simp split: if_splits)
  have eq: "enqueue_frame mem captured d wp p =
      (if acc then Some (?d, wp, p3) else do { p4 \<leftarrow> release p3 b; Some (?d, record_drop wp (unat q), p4) })"
    using f(1-5) q push by (simp add: enqueue_frame_def get_queue_def Let_def)
  have ex: "bp_exhausted p3 = bp_exhausted p" using f(8) by (simp add: pool_meta_def)
  note mm = core_okD(7) [OF assms(1)]
  show ?thesis
  proof (cases acc)
    case True
    have "length (queued ?d) = Suc (length (queued d))" using m True by (metis size_mset size_add_mset add_mset_add_single)
    then have "core_ok ?d wp p3 (Suc frames)"
      using assms(1) p3 d m True f(7,8) mm Cons ex by (simp add: core_ok_def algebra_simps)
    then show ?thesis using eq True p3(2) by simp
  next
    case False
    then have "\<exists>p4. release p3 b = Some p4 \<and> core_ok ?d (record_drop wp (unat q)) p4 (Suc frames) \<and>
        length (bp_descs p4) = length (bp_descs p)"
      using m d by (intro drop_core [OF assms(1) Cons f(6-9) _ _ _ q(3)]) simp_all
    then show ?thesis using eq False by auto
  qed
qed

text \<open>A pass of a worker.\<close>

lemma worker_core:
  assumes "core_ok d wp p frames" "i < length (wp_configs wp)"
  shows "\<exists>wp' d' p' c'. worker_body cb i wp d p c = Some (wp', d', p', c') \<and> core_ok d' wp' p' frames \<and>
    length (bp_descs p') = length (bp_descs p) \<and> wp_stop wp' = wp_stop wp \<and> wp_configs wp' = wp_configs wp"
proof -
  note ok = core_okD [OF assms(1)]
  let ?q = "wc_queue_index (wp_configs wp ! i)" let ?r = "rs_queues d ! ?q"
  have "?q \<in> wc_queue_index ` set (wp_configs wp)" using assms(2) by simp
  then have q: "?q < length (rs_queues d)" using ok(6) by simp
  note r = queue_at [OF ok(3) q]
  have i: "i < length (wp_stats wp)" using assms(2) ok(4) by simp
  obtain v r' where pop: "spsc_pop ?r = (v, r')" by fastforce
  note po = spsc.pop_result [OF _ pop]
  let ?d = "d\<lparr>rs_queues := (rs_queues d)[?q := r']\<rparr>"
  have d: "rss_ok ?d" "length (rs_queues ?d) = length (rs_queues d)"
    using queue_update_ok [OF ok(3) q] r po by simp_all
  have m: "mset (queued ?d) + mset (case v of None \<Rightarrow> [] | Some x \<Rightarrow> [x]) = mset (queued d)"
    using queued_update [OF q, of r'] po(3) r by (auto simp: ac_simps)
  show ?thesis
  proof (cases v)
    case None
    then have "mset (queued ?d) = mset (queued d)" using m by simp
    moreover from this have "length (queued ?d) = length (queued d)" by (metis size_mset)
    ultimately have "core_ok ?d (bump_idle wp i) p frames"
      using assms(1) d bump_totals(5,6) [OF i] by (simp add: core_ok_def)
    then show ?thesis using pop None q assms(2) by (simp add: worker_body_def get_queue_def)
  next
    case (Some b)
    have mb: "mset (queued d) = add_mset b (mset (queued ?d))" using m Some by simp
    then have "b \<in> set (queued d)" by (metis set_mset_mset union_single_eq_member add_mset_add_single)
    then have h: "held p b" by (rule ok(9))
    obtain p' where p': "release p b = Some p'" "pool_keeps p p' {b}" "pool_free p' = b # pool_free p"
      using release_keeps [OF ok(1)] h by (auto simp: held_def)
    have k: "pool_ok p'" "length (bp_descs p') = length (bp_descs p)" "bp_buffer_size p' = bp_buffer_size p"
      "pool_meta p' = pool_meta p" "bp_exhausted p' = bp_exhausted p"
      using p'(2) meta_release [OF p'(1)] by (simp_all add: pool_keeps_def pool_meta_def)
    have len: "length (queued d) = Suc (length (queued ?d))" using mb by (metis size_mset size_add_mset)
    have "core_ok ?d (bump_processed wp i) p' frames"
      using assms(1) d bump_totals(1,2) [OF i] k mb len p'(3) by (simp add: core_ok_def algebra_simps)
    moreover obtain pkt where "parse_buf p b = Some pkt"
      using parse_buf_defined [OF ok(1) _ ok(2)] h by (auto simp: held_def)
    ultimately show ?thesis using pop Some q p'(1) k(2) assms(2) by (simp add: worker_body_def get_queue_def Let_def)
  qed
qed

definition mq_ok :: "'c mq_sys \<Rightarrow> nat \<Rightarrow> bool" where
  "mq_ok s frames \<longleftrightarrow> core_ok (mq_rss s) (mq_workers s) (mq_pool s) frames \<and>
     length (mq_locals s) = length (wp_configs (mq_workers s))"

lemma mq_step_ok:
  assumes "mq_ok s frames" "arrival_ok ev"
  shows "\<exists>s'. mq_step cb ev s = Some s' \<and> mq_ok s' (frames + arrivals [ev]) \<and>
    length (bp_descs (mq_pool s')) = length (bp_descs (mq_pool s)) \<and> length (mq_locals s') = length (mq_locals s) \<and>
    (wp_stop (mq_workers s) \<longrightarrow> wp_stop (mq_workers s')) \<and>
    (wp_stop (mq_workers s) \<longrightarrow> (\<forall>i < length (mq_locals s).
       mq_locals s' ! i = worker_nexts (if ev = Pass i then 1 else 0) (mq_locals s ! i)))"
proof (cases ev)
  case (Arrive mem captured)
  obtain d' wp' p' where "enqueue_frame mem captured (mq_rss s) (mq_workers s) (mq_pool s) = Some (d', wp', p')"
      "core_ok d' wp' p' (Suc frames)" "length (bp_descs p') = length (bp_descs (mq_pool s))"
      "wp_stop wp' = wp_stop (mq_workers s)" "wp_configs wp' = wp_configs (mq_workers s)"
    using enqueue_core [of "mq_rss s" "mq_workers s" "mq_pool s" frames captured mem] assms Arrive by (auto simp: mq_ok_def)
  then show ?thesis using Arrive assms(1) by (simp add: mq_ok_def)
next
  case (Pass i)
  show ?thesis
  proof (cases "i < length (mq_locals s) \<and> wl_running (mq_locals s ! i)")
    case True
    obtain wp' d' p' c' where "worker_body cb i (mq_workers s) (mq_rss s) (mq_pool s) (mq_cb s) = Some (wp', d', p', c')"
        "core_ok d' wp' p' frames" "length (bp_descs p') = length (bp_descs (mq_pool s))"
        "wp_stop wp' = wp_stop (mq_workers s)" "wp_configs wp' = wp_configs (mq_workers s)"
      using worker_core [of "mq_rss s" "mq_workers s" "mq_pool s" frames i cb "mq_cb s"] assms(1) True
      by (auto simp: mq_ok_def)
    then show ?thesis using Pass True assms(1) by (auto simp: mq_ok_def worker_pass_def nth_list_update)
  next
    case False
    then show ?thesis using Pass assms(1) by (auto simp: worker_pass_def)
  qed
next
  case Stop
  then show ?thesis using assms(1) by (simp add: mq_ok_def core_ok_def request_stop_def total_of_def)
qed

lemma mq_run_append: "mq_run cb (xs @ ys) s = Option.bind (mq_run cb xs s) (mq_run cb ys)"
proof (induction xs arbitrary: s)
  case (Cons x xs)
  then show ?case by (cases "mq_step cb x s") simp_all
qed simp

lemma arrivals_Cons: "arrivals (ev # evs) = arrivals [ev] + arrivals evs"
  by simp

lemma mq_run_ok:
  assumes "mq_ok s frames" "\<forall>ev \<in> set evs. arrival_ok ev"
  shows "\<exists>s'. mq_run cb evs s = Some s' \<and> mq_ok s' (frames + arrivals evs) \<and>
    length (bp_descs (mq_pool s')) = length (bp_descs (mq_pool s)) \<and> length (mq_locals s') = length (mq_locals s)"
  using assms
proof (induction evs arbitrary: s frames)
  case (Cons ev evs)
  obtain s1 where 1: "mq_step cb ev s = Some s1" "mq_ok s1 (frames + arrivals [ev])"
      "length (bp_descs (mq_pool s1)) = length (bp_descs (mq_pool s))" "length (mq_locals s1) = length (mq_locals s)"
    using mq_step_ok [OF Cons.prems(1), of ev cb] Cons.prems(2) by auto
  then show ?case
    using Cons.IH [OF 1(2)] Cons.prems(2) unfolding arrivals_Cons [of ev evs] by (auto simp: add.assoc)
qed simp

lemma worker_nexts_add: "worker_nexts m (worker_nexts n l) = worker_nexts (n + m) l"
proof (induction n arbitrary: l)
  case (Suc n)
  then show ?case by (cases "wl_running l") (simp_all add: worker_nexts_stopped)
qed simp

definition passes :: "nat \<Rightarrow> mq_event list \<Rightarrow> nat" where
  "passes i evs = length (filter (\<lambda>ev. ev = Pass i) evs)"

lemma mq_run_locals:
  assumes "mq_ok s frames" "\<forall>ev \<in> set evs. arrival_ok ev" "wp_stop (mq_workers s)" "i < length (mq_locals s)"
    and "mq_run cb evs s = Some s'"
  shows "mq_locals s' ! i = worker_nexts (passes i evs) (mq_locals s ! i)"
  using assms
proof (induction evs arbitrary: s frames)
  case (Cons ev evs)
  obtain s1 where 1: "mq_step cb ev s = Some s1" "mq_ok s1 (frames + arrivals [ev])" "wp_stop (mq_workers s1)"
      "length (mq_locals s1) = length (mq_locals s)"
      "mq_locals s1 ! i = worker_nexts (if ev = Pass i then 1 else 0) (mq_locals s ! i)"
    using mq_step_ok [OF Cons.prems(1), of ev cb] Cons.prems(2,3,4) by auto
  have "mq_locals s' ! i = worker_nexts (passes i evs) (mq_locals s1 ! i)"
    using Cons.IH [OF 1(2) _ 1(3)] Cons.prems(2,4,5) 1(1,4) by simp
  then show ?case using 1(5) by (simp add: passes_def worker_nexts_add del: worker_nexts.simps)
qed (simp add: passes_def)

lemma queued_new: "queued (rss_init n) = []"
  by (simp add: queued_def rss_init_def spsc_init_def spsc_contents_def)

lemma mq_start_ok:
  assumes "buffer_pool_new k os reg bsize cnt node = Some (Inr p, reg', os')" "unat cnt < 2 ^ 32" "78 \<le> unat bsize"
  shows "mq_ok (mq_start p) 0" "length (bp_descs p) = unat cnt"
proof -
  note c = buffer_pool_new_cases [OF assms(1,2)]
  have ok: "pool_ok p" "pool_free p = rev [0..<unat cnt]" using threaded_pool_ok [of p] c assms(2) by simp_all
  show "length (bp_descs p) = unat cnt" by (rule c)
  have "map bd_capacity (bp_descs p) = replicate (length (bp_descs p)) (ucast (bp_buffer_size p))"
    using c(1,2) by (intro nth_equalityI) (auto simp: threaded_def)
  moreover have "wc_queue_index ` set mq_configs = {..<4}" "length mq_configs = 4"
    by (simp_all add: mq_configs_def kQueues_def image_image atLeast0LessThan)
  moreover have "length (rs_queues (rss_init 4)) = 4" "rss_ok (rss_init 4)"
    using rss_init_ok [of 4] by (simp_all add: rss_init_def)
  ultimately show "mq_ok (mq_start p) 0"
    using ok c(2,4,5) assms(3)
    by (simp add: mq_ok_def core_ok_def mq_start_def kQueues_def worker_pool_new_def pool_meta_def queued_new
        total_of_def no_stats_def sum_list_replicate)
qed

section \<open>Properties\<close>

text \<open>
  C11. The multi-queue program conserves buffers and accounts for frames. However the main loop and the
  workers interleave, no step leaves an array or a buffer, every buffer of the pool is free or in exactly one
  queue, and the frames taken over are those processed, those dropped at a full queue, those lost
  because the pool was empty and those still queued.
\<close>

theorem mq_accounts:
  assumes "buffer_pool_new k os reg bsize cnt node = Some (Inr p, reg', os')" "unat cnt < 2 ^ 32" "78 \<le> unat bsize"
    and "\<forall>ev \<in> set evs. arrival_ok ev"
  shows "\<exists>s. mq_run count_callback evs (mq_start p) = Some s \<and>
    mset (pool_free (mq_pool s)) + mset (queued (mq_rss s)) = mset [0..<unat cnt] \<and>
    (case print_totals (mq_workers s) of (processed, dropped, idle) \<Rightarrow>
       processed + dropped + bp_exhausted (mq_pool s) + of_nat (length (queued (mq_rss s))) = of_nat (arrivals evs))"
proof -
  note st = mq_start_ok [OF assms(1-3)]
  obtain s where s: "mq_run count_callback evs (mq_start p) = Some s" "mq_ok s (arrivals evs)"
      "length (bp_descs (mq_pool s)) = unat cnt"
    using mq_run_ok [OF st(1) assms(4), of count_callback] st(2) by (auto simp: mq_start_def)
  then show ?thesis by (simp add: mq_ok_def core_ok_def print_totals_eq)
qed

theorem mq_accounts_witness:
  "\<exists>p s. mq_run count_callback [Arrive (replicate 60 0) 60, Pass 0, Pass 1, Arrive (replicate 60 0) 60] (mq_start p) = Some s \<and>
     mset (pool_free (mq_pool s)) + mset (queued (mq_rss s)) = mset [0..<3]"
proof -
  obtain p reg os where p: "buffer_pool_new bump_os 4096 [] 2048 3 (-1) = Some (Inr p, reg, os)"
    using bump_pool_new [of 2048 3] by auto
  show ?thesis
    using mq_accounts [OF p, of "[Arrive (replicate 60 0) 60, Pass 0, Pass 1, Arrive (replicate 60 0) 60]"]
    by (auto simp del: mq_run.simps)
qed

text \<open>
  Stopping. Once the stop flag is set, a worker leaves its loop at the latest in its thousandth further
  pass, whatever the other threads do meanwhile and also when its pass counter wraps around.
\<close>

theorem mq_stops:
  assumes "buffer_pool_new k os reg bsize cnt node = Some (Inr p, reg', os')" "unat cnt < 2 ^ 32" "78 \<le> unat bsize"
    and "\<forall>ev \<in> set (evs @ evs'). arrival_ok ev" "i < kQueues" "1000 \<le> passes i evs'"
  shows "\<exists>s. mq_run count_callback (evs @ [Stop] @ evs') (mq_start p) = Some s \<and> \<not> wl_running (mq_locals s ! i)"
proof -
  note st = mq_start_ok [OF assms(1-3)]
  obtain s1 where 1: "mq_run count_callback (evs @ [Stop]) (mq_start p) = Some s1" "mq_ok s1 (arrivals (evs @ [Stop]))"
      "length (mq_locals s1) = kQueues"
    using mq_run_ok [OF st(1), of "evs @ [Stop]" count_callback] assms(4) by (auto simp: mq_start_def)
  have stop: "wp_stop (mq_workers s1)"
    using 1(1) by (auto simp: mq_run_append bind_eq_Some_conv request_stop_def)
  obtain s where s: "mq_run count_callback evs' s1 = Some s" using mq_run_ok [OF 1(2), of evs' count_callback] assms(4) by auto
  have "mq_locals s ! i = worker_nexts (passes i evs') (mq_locals s1 ! i)"
    using mq_run_locals [OF 1(2) _ stop _ s] assms(4,5) 1(3) by simp
  moreover obtain j where "0 < j" "j \<le> 1000" "(wl_iters (mq_locals s1 ! i) + of_nat j) mod 1000 = 0"
    using wrap_hits [of "wl_iters (mq_locals s1 ! i)"] by (elim exE conjE)
  ultimately have "\<not> wl_running (mq_locals s ! i)"
    using worker_nexts_stop [of j "passes i evs'" "mq_locals s1 ! i"] assms(6) by simp
  then show ?thesis using 1(1) s mq_run_append [of count_callback "evs @ [Stop]" evs'] by auto
qed

theorem mq_stops_witness:
  "\<exists>p s. mq_run count_callback ([Arrive (replicate 60 0) 60] @ [Stop] @ replicate 1000 (Pass 2)) (mq_start p) = Some s \<and>
     \<not> wl_running (mq_locals s ! 2)"
proof -
  obtain p reg os where p: "buffer_pool_new bump_os 4096 [] 2048 3 (-1) = Some (Inr p, reg, os)"
    using bump_pool_new [of 2048 3] by auto
  have "1000 \<le> passes 2 (replicate 1000 (Pass 2))" by (simp add: passes_def)
  from mq_stops [OF p _ _ _ _ this, of "[Arrive (replicate 60 0) 60]"] show ?thesis
    by (auto simp: kQueues_def simp del: mq_run.simps)
qed

end
