(* ===== verification/Packet_Ring.thy ===== *)
theory Packet_Ring
  imports Prelude "HOL-Library.Monad_Syntax"
begin

unbundle bit_operations_syntax

text \<open>
  The memory-mapped receive ring, \<^verbatim>\<open>include/packet_ring.h\<close> and \<^verbatim>\<open>src/packet_ring.cpp\<close>. The system calls are
  the parameter \<open>ring_os\<close> on a kernel state \<open>'k\<close>. A slot of the ring is a record of the header fields the
  code uses and the memory of the slot; the kernel shares the slots with the program. Exceptions are the
  left values of a sum, \<open>None\<close> is an access outside \<^verbatim>\<open>frames_\<close>.
\<close>

record tpacket_req =
  tp_block_size :: u32
  tp_block_nr :: u32
  tp_frame_size :: u32
  tp_frame_nr :: u32

record 'k ring_os =
  ro_socket :: "'k \<Rightarrow> int \<times> 'k"
  ro_ifindex :: "'k \<Rightarrow> int \<Rightarrow> string \<Rightarrow> int option \<times> 'k"
  ro_version :: "'k \<Rightarrow> int \<Rightarrow> bool \<times> 'k"
  ro_rx_ring :: "'k \<Rightarrow> int \<Rightarrow> tpacket_req \<Rightarrow> bool \<times> 'k"
  ro_mmap :: "'k \<Rightarrow> int \<Rightarrow> u64 \<Rightarrow> u64 option \<times> 'k"
  ro_bind :: "'k \<Rightarrow> int \<Rightarrow> int \<Rightarrow> bool \<times> 'k"
  ro_munmap :: "'k \<Rightarrow> u64 \<Rightarrow> u64 \<Rightarrow> 'k"
  ro_close :: "'k \<Rightarrow> int \<Rightarrow> 'k"
  ro_busy_poll :: "'k \<Rightarrow> int \<Rightarrow> int \<Rightarrow> bool \<times> 'k"

datatype ring_error =
    Blocks_not_positive
  | Name_too_long string
  | Socket_failed
  | Ifindex_failed
  | Version_failed
  | Rx_ring_failed
  | Ring_mmap_failed
  | Bind_failed
  | Busy_poll_failed

definition kBlockSize :: u32 where "kBlockSize = push_bit 22 1"
definition kFrameSize :: u32 where "kFrameSize = 2048"
definition kFramesPerBlock :: u32 where "kFramesPerBlock = kBlockSize div kFrameSize"
definition IFNAMSIZ :: nat where "IFNAMSIZ = 16"

record packet_ring =
  pr_fd :: int
  pr_ring :: u64
  pr_ring_bytes :: u64
  pr_frames :: "u64 list"
  pr_total_frames :: u64
  pr_current_frame :: u64
  pr_drops :: u64

definition ring_init :: packet_ring where
  "ring_init = \<lparr>pr_fd = -1, pr_ring = 0, pr_ring_bytes = 0, pr_frames = [], pr_total_frames = 0,
     pr_current_frame = 0, pr_drops = 0\<rparr>"

section \<open>Construction\<close>

definition cleanup :: "'k ring_os \<Rightarrow> packet_ring \<Rightarrow> 'k \<Rightarrow> packet_ring \<times> 'k" where
  "cleanup os r k =
     (let (r1, k1) = (if pr_ring r \<noteq> 0 then (r\<lparr>pr_ring := 0\<rparr>, ro_munmap os k (pr_ring r) (pr_ring_bytes r)) else (r, k))
      in if pr_fd r1 \<ge> 0 then (r1\<lparr>pr_fd := -1\<rparr>, ro_close os k1 (pr_fd r1)) else (r1, k1))"

text \<open>The two loops of step 6.\<close>

definition block_frames :: "u64 \<Rightarrow> nat \<Rightarrow> u64 list" where
  "block_frames ring b =
     (let block = ring + of_nat b * ucast kBlockSize
      in map (\<lambda>f. block + ucast (of_nat f * kFrameSize :: u32)) [0..<unat kFramesPerBlock])"

definition ring_frames :: "u64 \<Rightarrow> nat \<Rightarrow> u64 list" where
  "ring_frames ring num_blocks = concat (map (block_frames ring) [0..<num_blocks])"

text \<open>The body of the \<^verbatim>\<open>try\<close> block; the ring built so far is returned also with an error.\<close>

definition ring_open :: "'k ring_os \<Rightarrow> string \<Rightarrow> int \<Rightarrow> 'k \<Rightarrow> ring_error option \<times> packet_ring \<times> 'k" where
  "ring_open os iface num_blocks k =
     (let (fd, k1) = ro_socket os k; r1 = ring_init\<lparr>pr_fd := fd\<rparr> in
      if fd < 0 then (Some Socket_failed, r1, k1)
      else case ro_ifindex os k1 fd iface of
        (None, k2) \<Rightarrow> (Some Ifindex_failed, r1, k2)
      | (Some ifindex, k2) \<Rightarrow>
          (case ro_version os k2 fd of
             (False, k3) \<Rightarrow> (Some Version_failed, r1, k3)
           | (True, k3) \<Rightarrow>
               (let r2 = r1\<lparr>pr_total_frames := of_int num_blocks * ucast kFramesPerBlock\<rparr>;
                    req = \<lparr>tp_block_size = kBlockSize, tp_block_nr = of_int num_blocks,
                           tp_frame_size = kFrameSize, tp_frame_nr = ucast (pr_total_frames r2)\<rparr>
                in case ro_rx_ring os k3 fd req of
                     (False, k4) \<Rightarrow> (Some Rx_ring_failed, r2, k4)
                   | (True, k4) \<Rightarrow>
                       (let r3 = r2\<lparr>pr_ring_bytes := of_int num_blocks * ucast kBlockSize\<rparr>
                        in case ro_mmap os k4 fd (pr_ring_bytes r3) of
                             (None, k5) \<Rightarrow> (Some Ring_mmap_failed, r3, k5)
                           | (Some base, k5) \<Rightarrow>
                               (let r4 = r3\<lparr>pr_ring := base, pr_frames := ring_frames base (nat num_blocks)\<rparr>
                                in case ro_bind os k5 fd ifindex of
                                     (False, k6) \<Rightarrow> (Some Bind_failed, r4, k6)
                                   | (True, k6) \<Rightarrow> (None, r4, k6))))))"

definition ring_new :: "'k ring_os \<Rightarrow> string \<Rightarrow> int \<Rightarrow> 'k \<Rightarrow> (ring_error + packet_ring) \<times> 'k" where
  "ring_new os iface num_blocks k =
     (if num_blocks \<le> 0 then (Inl Blocks_not_positive, k)
      else if length iface \<ge> IFNAMSIZ then (Inl (Name_too_long iface), k)
      else case ring_open os iface num_blocks k of
             (Some e, r, k1) \<Rightarrow> (Inl e, snd (cleanup os r k1))
           | (None, r, k1) \<Rightarrow> (Inr r, k1))"

definition ring_delete :: "'k ring_os \<Rightarrow> packet_ring \<Rightarrow> 'k \<Rightarrow> 'k" where
  "ring_delete os r k = snd (cleanup os r k)"

definition set_busy_poll :: "'k ring_os \<Rightarrow> packet_ring \<Rightarrow> int \<Rightarrow> 'k \<Rightarrow> (ring_error + unit) \<times> 'k" where
  "set_busy_poll os r micros k =
     (case ro_busy_poll os k (pr_fd r) micros of (True, k') \<Rightarrow> (Inr (), k') | (False, k') \<Rightarrow> (Inl Busy_poll_failed, k'))"

section \<open>Receiving\<close>

record ring_slot =
  sl_status :: u32
  sl_len :: u32
  sl_snaplen :: u32
  sl_mac :: u16
  sl_mem :: bytes

record rx_frame =
  rx_data :: bytes
  rx_len :: u32
  rx_captured_len :: u32

definition TP_STATUS_KERNEL :: u32 where "TP_STATUS_KERNEL = 0"
definition TP_STATUS_USER :: u32 where "TP_STATUS_USER = 1"
definition TP_STATUS_LOSING :: u32 where "TP_STATUS_LOSING = 4"

text \<open>The pointer of a frame stands for the memory of the slot from there on.\<close>

definition receive :: "packet_ring \<Rightarrow> ring_slot list \<Rightarrow> (rx_frame option \<times> packet_ring) option" where
  "receive r slots =
     (if unat (pr_current_frame r) < length slots then
        (let hdr = slots ! unat (pr_current_frame r); status = sl_status hdr in
         if status AND TP_STATUS_USER = 0 then Some (None, r)
         else Some (Some \<lparr>rx_data = drop (unat (sl_mac hdr)) (sl_mem hdr), rx_len = sl_len hdr,
                          rx_captured_len = sl_snaplen hdr\<rparr>,
                    if status AND TP_STATUS_LOSING \<noteq> 0 then r\<lparr>pr_drops := pr_drops r + 1\<rparr> else r))
      else None)"

definition ring_release :: "packet_ring \<Rightarrow> ring_slot list \<Rightarrow> (packet_ring \<times> ring_slot list) option" where
  "ring_release r slots =
     (let i = unat (pr_current_frame r) in
      if i < length slots then
        Some (r\<lparr>pr_current_frame := (pr_current_frame r + 1) mod pr_total_frames r\<rparr>,
              slots[i := (slots ! i)\<lparr>sl_status := TP_STATUS_KERNEL\<rparr>])
      else None)"

section \<open>The slots tile the mapping\<close>

lemma ring_constants: "unat kBlockSize = 4194304" "unat kFramesPerBlock = 2048" "unat kFrameSize = 2048"
  "(ucast kBlockSize :: u64) = 4194304" "(ucast kFramesPerBlock :: u64) = 2048"
  by (simp_all add: kBlockSize_def kFrameSize_def kFramesPerBlock_def push_bit_eq_mult)

lemma concat_nth_uniform:
  assumes "\<forall>x \<in> set xs. length x = n" "i < n * length xs"
  shows "concat xs ! i = xs ! (i div n) ! (i mod n)"
  using assms
proof (induction xs arbitrary: i)
  case (Cons x xs)
  show ?case
  proof (cases "i < n")
    case True
    then show ?thesis using Cons.prems(1) by (simp add: nth_append)
  next
    case False
    have n: "0 < n" using Cons.prems(2) by (cases n) simp_all
    have "i div n = Suc ((i - n) div n)" "i mod n = (i - n) mod n"
      using False n by (simp_all add: le_div_geq le_mod_geq)
    then show ?thesis using False Cons by (simp add: nth_append)
  qed
qed simp

lemma block_frame: "f < 2048 \<Longrightarrow> block_frames ring b ! f = ring + of_nat (b * 4194304 + f * 2048)"
proof -
  assume f: "f < 2048"
  have "unat (of_nat f * kFrameSize :: u32) = f * 2048"
    using f unat_of_nat_u32 [of "f * 2048"] by (simp add: kFrameSize_def)
  then have "(ucast (of_nat f * kFrameSize :: u32) :: u64) = of_nat (f * 2048)"
    by (metis of_nat_unat)
  then show ?thesis using f by (simp add: block_frames_def ring_constants Let_def)
qed

lemma length_block_frames [simp]: "length (block_frames ring b) = 2048"
  by (simp add: block_frames_def ring_constants Let_def)

lemma length_ring_frames [simp]: "length (ring_frames ring n) = n * 2048"
  by (simp add: ring_frames_def length_concat comp_def sum_list_triv)

lemma tile_offset: "q * 4194304 + r * 2048 = (q * 2048 + r) * (2048 :: nat)"
  by simp

lemma ring_frame:
  assumes "i < n * 2048"
  shows "ring_frames ring n ! i = ring + of_nat (i * 2048)"
proof -
  have d: "i div 2048 < n" using assms by (simp add: less_mult_imp_div_less)
  have "ring_frames ring n ! i = block_frames ring (i div 2048) ! (i mod 2048)"
    using assms d concat_nth_uniform [of "map (block_frames ring) [0..<n]" 2048 i] by (simp add: ring_frames_def mult.commute)
  also have "\<dots> = ring + of_nat (i div 2048 * 4194304 + i mod 2048 * 2048)" by (rule block_frame) simp
  also have "i div 2048 * 4194304 + i mod 2048 * 2048 = (i div 2048 * 2048 + i mod 2048) * 2048"
    by (rule tile_offset)
  also have "\<dots> = i * 2048" by (simp only: div_mult_mod_eq)
  finally show ?thesis .
qed

lemma ring_open_ok:
  assumes "ring_open os iface nb k = (None, r, k')" "0 < nb"
  shows "pr_frames r = ring_frames (pr_ring r) (nat nb)" "pr_ring_bytes r = of_int nb * 4194304"
    "pr_total_frames r = of_int nb * 2048" "pr_current_frame r = 0" "pr_drops r = 0" "pr_fd r \<ge> 0"
  using assms(1)
  by (auto simp: ring_open_def ring_init_def Let_def ring_constants split: prod.splits if_splits option.splits bool.splits)

section \<open>Resources\<close>

text \<open>Any kernel, with a record of the descriptors and mappings that are open.\<close>

definition traced :: "'k ring_os \<Rightarrow> ('k \<times> int set \<times> (u64 \<times> u64) set) ring_os" where
  "traced os =
     \<lparr>ro_socket = (\<lambda>(k, F, M). let (fd, k') = ro_socket os k in (fd, (k', if fd \<ge> 0 then insert fd F else F, M))),
      ro_ifindex = (\<lambda>(k, F, M) fd n. let (v, k') = ro_ifindex os k fd n in (v, (k', F, M))),
      ro_version = (\<lambda>(k, F, M) fd. let (v, k') = ro_version os k fd in (v, (k', F, M))),
      ro_rx_ring = (\<lambda>(k, F, M) fd q. let (v, k') = ro_rx_ring os k fd q in (v, (k', F, M))),
      ro_mmap = (\<lambda>(k, F, M) fd n. let (v, k') = ro_mmap os k fd n
                  in (v, (k', F, case v of None \<Rightarrow> M | Some p \<Rightarrow> insert (p, n) M))),
      ro_bind = (\<lambda>(k, F, M) fd i. let (v, k') = ro_bind os k fd i in (v, (k', F, M))),
      ro_munmap = (\<lambda>(k, F, M) p n. (ro_munmap os k p n, F, M - {(p, n)})),
      ro_close = (\<lambda>(k, F, M) fd. (ro_close os k fd, F - {fd}, M)),
      ro_busy_poll = (\<lambda>(k, F, M) fd m. let (v, k') = ro_busy_poll os k fd m in (v, (k', F, M)))\<rparr>"

lemma ring_open_mapped:
  assumes "ring_open (traced os) iface nb (k, F, M) = (None, r, st)"
  shows "\<exists>k fd. fst (ro_mmap os k fd (pr_ring_bytes r)) = Some (pr_ring r)"
  using assms
  by (auto simp: ring_open_def traced_def ring_init_def Let_def
      split: prod.splits if_splits option.splits bool.splits) (metis fst_conv)

text \<open>What the constructor holds when it stops, with or without an error.\<close>

definition holds_exactly :: "packet_ring \<Rightarrow> int set \<Rightarrow> (u64 \<times> u64) set \<Rightarrow> int set \<Rightarrow> (u64 \<times> u64) set \<Rightarrow> bool" where
  "holds_exactly r F M F' M' \<longleftrightarrow>
     (if pr_fd r \<ge> 0 then pr_fd r \<notin> F \<and> F' = insert (pr_fd r) F else F' = F) \<and>
     (if pr_ring r \<noteq> 0 then (pr_ring r, pr_ring_bytes r) \<notin> M \<and> M' = insert (pr_ring r, pr_ring_bytes r) M else M' = M)"

lemma cleanup_traced:
  "holds_exactly r F M F' M' \<Longrightarrow> \<exists>k'. snd (cleanup (traced os) r (k, F', M')) = (k', F, M)"
  by (auto simp: holds_exactly_def cleanup_def traced_def Let_def split: if_splits)

lemma ring_open_traced:
  assumes "ring_open (traced os) iface nb (k, F, M) = (e, r, (k', F', M'))"
    and "\<And>k. fst (ro_socket os k) \<notin> F" "\<And>k fd n p. fst (ro_mmap os k fd n) = Some p \<Longrightarrow> p \<noteq> 0 \<and> (p, n) \<notin> M"
  shows "holds_exactly r F M F' M'"
proof -
  obtain fd k1 where 1: "ro_socket os k = (fd, k1)" by fastforce
  then have fd: "fd \<notin> F" using assms(2) [of k] by simp
  obtain vi k2 where 2: "ro_ifindex os k1 fd iface = (vi, k2)" by fastforce
  obtain vv k3 where 3: "ro_version os k2 fd = (vv, k3)" by fastforce
  let ?req = "\<lparr>tp_block_size = kBlockSize, tp_block_nr = of_int nb, tp_frame_size = kFrameSize,
    tp_frame_nr = ucast (of_int nb * ucast kFramesPerBlock :: u64)\<rparr>"
  obtain vr k4 where 4: "ro_rx_ring os k3 fd ?req = (vr, k4)" by fastforce
  let ?n = "of_int nb * ucast kBlockSize :: u64"
  obtain vm k5 where 5: "ro_mmap os k4 fd ?n = (vm, k5)" by fastforce
  have m: "p \<noteq> 0 \<and> (p, ?n) \<notin> M" if "vm = Some p" for p using assms(3) [of k4 fd ?n p] 5 that by simp
  obtain vb k6 where 6: "ro_bind os k5 fd (the vi) = (vb, k6)" by fastforce
  show ?thesis
    using assms(1) 1 2 3 4 5 6 fd m
    by (auto simp: ring_open_def traced_def ring_init_def holds_exactly_def Let_def
        split: if_splits option.splits bool.splits)
qed

section \<open>Going round\<close>

definition ring_ok :: "packet_ring \<Rightarrow> ring_slot list \<Rightarrow> bool" where
  "ring_ok r slots \<longleftrightarrow> slots \<noteq> [] \<and> length slots < 2 ^ 63 \<and> pr_total_frames r = of_nat (length slots) \<and>
     unat (pr_current_frame r) < length slots"

lemma release_step:
  assumes "ring_ok r slots"
  shows "\<exists>r' slots'. ring_release r slots = Some (r', slots') \<and> ring_ok r' slots' \<and>
    slots' = slots[unat (pr_current_frame r) := (slots ! unat (pr_current_frame r))\<lparr>sl_status := TP_STATUS_KERNEL\<rparr>] \<and>
    unat (pr_current_frame r') = (unat (pr_current_frame r) + 1) mod length slots"
proof -
  let ?n = "length slots" let ?c = "pr_current_frame r"
  have ok: "0 < ?n" "?n < 2 ^ 63" "pr_total_frames r = of_nat ?n" "unat ?c < ?n" using assms by (auto simp: ring_ok_def)
  have e: "?c + 1 = of_nat (unat ?c + 1)" by simp
  have "unat (?c + 1) = unat ?c + 1" unfolding e using ok by (intro unat_of_nat_u64) simp
  moreover have "unat (of_nat ?n :: u64) = ?n" using ok(2) by (intro unat_of_nat_u64) simp
  ultimately have "unat ((?c + 1) mod pr_total_frames r) = (unat ?c + 1) mod ?n" using ok(3) by (simp add: unat_mod)
  then show ?thesis using ok assms by (auto simp: ring_release_def ring_ok_def Let_def)
qed

text \<open>The constructor and the destructor, on any kernel that hands out fresh descriptors and mappings.\<close>

lemma ring_new_holds:
  assumes "\<And>k. fst (ro_socket os k) \<notin> F"
    and "\<And>k fd n p. fst (ro_mmap os k fd n) = Some p \<Longrightarrow> p \<noteq> 0 \<and> (p, n) \<notin> M"
  shows "\<exists>res k' F' M'. ring_new (traced os) iface num_blocks (k, F, M) = (res, k', F', M') \<and>
    (case res of
       Inl e \<Rightarrow> F' = F \<and> M' = M
     | Inr r \<Rightarrow> F' = insert (pr_fd r) F \<and> M' = insert (pr_ring r, pr_ring_bytes r) M \<and> pr_fd r \<notin> F \<and>
         (pr_ring r, pr_ring_bytes r) \<notin> M \<and> (\<exists>k2. ring_delete (traced os) r (k', F', M') = (k2, F, M)))"
proof (cases "num_blocks \<le> 0 \<or> IFNAMSIZ \<le> length iface")
  case True
  then show ?thesis by (auto simp: ring_new_def)
next
  case False
  obtain e r k1 F1 M1 where o: "ring_open (traced os) iface num_blocks (k, F, M) = (e, r, (k1, F1, M1))"
    by (metis prod_cases3)
  have h: "holds_exactly r F M F1 M1" by (rule ring_open_traced [OF o assms])
  obtain k2 where c: "snd (cleanup (traced os) r (k1, F1, M1)) = (k2, F, M)" using cleanup_traced [OF h, of os k1] by blast
  show ?thesis
  proof (cases e)
    case (Some err)
    then show ?thesis using False o c by (auto simp: ring_new_def)
  next
    case None
    then have n: "ring_new (traced os) iface num_blocks (k, F, M) = (Inr r, k1, F1, M1)"
      using False o by (simp add: ring_new_def)
    have "pr_fd r \<ge> 0" using ring_open_ok(6) [of "traced os" iface num_blocks] o None False by auto
    moreover have "pr_ring r \<noteq> 0" using ring_open_mapped [OF o [unfolded None]] assms(2) by blast
    ultimately show ?thesis using n h c by (auto simp: holds_exactly_def ring_delete_def)
  qed
qed

section \<open>Properties\<close>

text \<open>
  C15. The constructor either fails and has given back every descriptor and mapping it had obtained, or
  it returns a ring that holds exactly one descriptor and one mapping, which the destructor gives back. This
  assumes that the kernel hands out descriptors and mappings that are not in use, and never the null page.
\<close>

theorem ring_new_no_leak:
  assumes "\<And>k. fst (ro_socket os k) \<notin> F"
    and "\<And>k fd n p. fst (ro_mmap os k fd n) = Some p \<Longrightarrow> p \<noteq> 0 \<and> (p, n) \<notin> M"
  shows "\<exists>res k' F' M'. ring_new (traced os) iface num_blocks (k, F, M) = (res, k', F', M') \<and>
    (case res of
       Inl e \<Rightarrow> F' = F \<and> M' = M
     | Inr r \<Rightarrow> F' = insert (pr_fd r) F \<and> M' = insert (pr_ring r, pr_ring_bytes r) M \<and> pr_fd r \<notin> F \<and>
         (pr_ring r, pr_ring_bytes r) \<notin> M \<and> (\<exists>k2. ring_delete (traced os) r (k', F', M') = (k2, F, M)))"
  by (rule ring_new_holds [OF assms])

text \<open>
  C27. The slots of the ring. When the mapping does not run past the end of the address space, slot \<open>i\<close>
  starts at \<open>base + 2048 i\<close>: the slots are disjoint, lie in the mapping and fill it.
\<close>

theorem ring_slots:
  assumes "ring_new os iface num_blocks k = (Inr r, k')" "num_blocks < 2 ^ 31"
    and "unat (pr_ring r) + unat (pr_ring_bytes r) \<le> 2 ^ 64" "i < unat (pr_total_frames r)"
  shows "unat (pr_frames r ! i) = unat (pr_ring r) + 2048 * i \<and>
    unat (pr_frames r ! i) + 2048 \<le> unat (pr_ring r) + unat (pr_ring_bytes r) \<and>
    length (pr_frames r) = unat (pr_total_frames r) \<and> unat (pr_ring_bytes r) = 2048 * unat (pr_total_frames r)"
proof -
  have nb: "0 < num_blocks" "ring_open os iface num_blocks k = (None, r, k')"
    using assms(1) by (auto simp: ring_new_def split: if_splits prod.splits option.splits)
  note ok = ring_open_ok [OF nb(2,1)]
  define n where "n = nat num_blocks"
  have n: "num_blocks = int n" "n < 2 ^ 31" "0 < n" using nb(1) assms(2) by (auto simp: n_def)
  have tot: "unat (pr_total_frames r) = n * 2048" "unat (pr_ring_bytes r) = n * 4194304"
    using ok(2,3) n(1,2) unat_of_nat_u64 [of "n * 2048"] unat_of_nat_u64 [of "n * 4194304"] by simp_all
  have i: "i < n * 2048" using assms(4) tot(1) by simp
  have f: "pr_frames r ! i = pr_ring r + of_nat (i * 2048)" using ok(1) ring_frame [OF i] by (simp add: n_def)
  have lim: "i * 2048 + 2048 \<le> n * 4194304" using i by simp
  have "unat (pr_ring r + of_nat (i * 2048)) = unat (pr_ring r) + i * 2048"
  proof -
    have "pr_ring r + of_nat (i * 2048) = of_nat (unat (pr_ring r) + i * 2048)" by simp
    then show ?thesis using unat_of_nat_u64 [of "unat (pr_ring r) + i * 2048"] assms(3) tot(2) lim by simp
  qed
  then show ?thesis using f tot ok(1) assms(3) lim by (simp add: n_def)
qed

text \<open>A kernel that grants the first descriptor and the first mapping, and refuses or accepts \<^verbatim>\<open>bind\<close>.\<close>

definition one_ring_os :: "bool \<Rightarrow> unit ring_os" where
  "one_ring_os ok = \<lparr>ro_socket = (\<lambda>k. (3, k)), ro_ifindex = (\<lambda>k fd n. (Some 2, k)), ro_version = (\<lambda>k fd. (True, k)),
     ro_rx_ring = (\<lambda>k fd q. (True, k)), ro_mmap = (\<lambda>k fd n. (Some 4096, k)), ro_bind = (\<lambda>k fd i. (ok, k)),
     ro_munmap = (\<lambda>k p n. k), ro_close = (\<lambda>k fd. k), ro_busy_poll = (\<lambda>k fd m. (True, k))\<rparr>"

theorem ring_new_no_leak_witness:
  "\<exists>k'. ring_new (traced (one_ring_os False)) ''lo'' 1 ((), {}, {}) = (Inl Bind_failed, k', {}, {})"
proof -
  have e: "fst (ring_new (traced (one_ring_os False)) ''lo'' 1 ((), {}, {})) = Inl Bind_failed"
    by (simp add: ring_new_def ring_open_def traced_def one_ring_os_def IFNAMSIZ_def Let_def)
  show ?thesis
    using ring_new_no_leak [of "one_ring_os False" "{}" "{}" "''lo''" 1 "()"] e by (auto simp: one_ring_os_def)
qed

lemma one_ring: "\<exists>r k'. ring_new (one_ring_os True) ''lo'' 1 () = (Inr r, k') \<and> pr_ring r = 4096 \<and>
    pr_ring_bytes r = 4194304 \<and> pr_total_frames r = 2048"
  by (simp add: ring_new_def ring_open_def one_ring_os_def IFNAMSIZ_def ring_init_def ring_constants Let_def)

theorem ring_slots_witness:
  "\<exists>r k'. ring_new (one_ring_os True) ''lo'' 1 () = (Inr r, k') \<and> unat (pr_frames r ! 2047) + 2048 = 4096 + 4194304"
proof -
  obtain r k' where r: "ring_new (one_ring_os True) ''lo'' 1 () = (Inr r, k')" "pr_ring r = 4096"
      "pr_ring_bytes r = 4194304" "pr_total_frames r = 2048"
    using one_ring by blast
  have "unat (pr_frames r ! 2047) = unat (pr_ring r) + 2048 * 2047"
    using ring_slots [OF r(1), of 2047] r(2-4) by simp
  then show ?thesis using r by (intro exI [of _ r] exI [of _ k']) simp
qed

end
