(* ===== verification/Ring_Fifo.thy ===== *)
theory Ring_Fifo
  imports Packet_Ring
begin

text \<open>
  The receive ring together with the machine around it, as the two capture programs use it. The rest of
  the machine is the parameter \<open>os\<close> on a state \<open>'w\<close>: the system calls of the ring, the clocks, the signal
  flag, and what the kernel does to the shared slots while the program makes one pass of its loop. The
  documented behaviour of the kernel is the contract \<open>tpacket_kernel\<close>: it fills the slots in ring order and
  touches only slots that belong to it. The lemmas show that \<^verbatim>\<open>receive\<close> and \<^verbatim>\<open>release\<close> then read what the kernel
  has put into the ring in order, nothing twice and nothing skipped: the ring is a bounded queue.
\<close>

datatype clockid = CLOCK_MONOTONIC | CLOCK_REALTIME

record 'w machine =
  co_ring :: "'w ring_os"
  co_gettime :: "clockid \<Rightarrow> 'w \<Rightarrow> u64 \<times> u64"
  co_stop :: "'w \<Rightarrow> bool"
  co_next :: "'w \<Rightarrow> ring_slot list \<Rightarrow> ring_slot list \<times> 'w"

definition now_ns :: "'w machine \<Rightarrow> clockid \<Rightarrow> 'w \<Rightarrow> u64" where
  "now_ns os clk w = (case co_gettime os clk w of (sec, nsec) \<Rightarrow> sec * 1000000000 + nsec)"

text \<open>The memory the kernel maps is zero: every slot belongs to the kernel.\<close>

definition zero_slot :: ring_slot where
  "zero_slot = \<lparr>sl_status = 0, sl_len = 0, sl_snaplen = 0, sl_mac = 0, sl_mem = replicate (unat kFrameSize) 0\<rparr>"

definition mapped_slots :: "packet_ring \<Rightarrow> ring_slot list" where
  "mapped_slots r = replicate (unat (pr_total_frames r)) zero_slot"

definition slot_data :: "ring_slot \<Rightarrow> bytes" where
  "slot_data sl = drop (unat (sl_mac sl)) (sl_mem sl)"

section \<open>The contract of the kernel\<close>

text \<open>
  A slot that is handed over has a frame in it and the room a slot of 2048 bytes leaves behind the
  kernel's header; \<open>ring_fill\<close> puts slots at consecutive positions, if they belong to the kernel.
\<close>

definition user_slot :: "ring_slot \<Rightarrow> bool" where
  "user_slot sl \<longleftrightarrow> sl_status sl AND TP_STATUS_USER \<noteq> 0"

definition slot_ready :: "ring_slot \<Rightarrow> bool" where
  "slot_ready sl \<longleftrightarrow> user_slot sl \<and> unat (sl_snaplen sl) \<le> length (slot_data sl) \<and> 80 \<le> length (slot_data sl)"

fun ring_fill :: "nat \<Rightarrow> ring_slot list \<Rightarrow> ring_slot list \<Rightarrow> ring_slot list option" where
  "ring_fill pos [] ss = Some ss"
| "ring_fill pos (f # fs) ss =
     (if ss \<noteq> [] \<and> \<not> user_slot (ss ! (pos mod length ss)) then ring_fill (Suc pos) fs (ss[pos mod length ss := f])
      else None)"

text \<open>\<open>sent w\<close> are all the slots the kernel has handed over so far.\<close>

definition tpacket_kernel :: "'w machine \<Rightarrow> ('w \<Rightarrow> ring_slot list) \<Rightarrow> bool" where
  "tpacket_kernel os sent \<longleftrightarrow>
     (\<forall>w ss. \<exists>fs. ring_fill (length (sent w)) fs ss = Some (fst (co_next os w ss)) \<and>
        sent (snd (co_next os w ss)) = sent w @ fs \<and> (\<forall>f \<in> set fs. slot_ready f))"

text \<open>
  The monotonic clock, as \<open>tm\<close> counts it without wrapping around, never goes back and advances by less than a
  century in a pass. It may stand still for a number of passes, but not for ever (the last clause).
\<close>

definition machine_clock :: "'w machine \<Rightarrow> ('w \<Rightarrow> nat) \<Rightarrow> bool" where
  "machine_clock os tm \<longleftrightarrow>
     (\<forall>w ss. now_ns os CLOCK_MONOTONIC w = of_nat (tm w) \<and> tm w \<le> tm (snd (co_next os w ss)) \<and>
        tm (snd (co_next os w ss)) \<le> tm w + 2 ^ 61) \<and>
     wf {(w', w). tm w' = tm w \<and> (\<exists>ss. w' = snd (co_next os w ss))}"

section \<open>Reading in order\<close>

text \<open>\<open>ring_at r ss fs k\<close>: of the frames \<open>fs\<close> handed over, \<open>k\<close> have been released and the others are in the ring.\<close>

definition ring_at :: "packet_ring \<Rightarrow> ring_slot list \<Rightarrow> ring_slot list \<Rightarrow> nat \<Rightarrow> bool" where
  "ring_at r ss fs k \<longleftrightarrow> ring_ok r ss \<and> unat (pr_current_frame r) = k mod length ss \<and>
     k \<le> length fs \<and> length fs \<le> k + length ss \<and> (\<forall>f \<in> set fs. slot_ready f) \<and>
     (\<forall>j. k \<le> j \<longrightarrow> j < length fs \<longrightarrow> ss ! (j mod length ss) = fs ! j) \<and>
     (\<forall>i < length ss. user_slot (ss ! i) \<longrightarrow> (\<exists>j. k \<le> j \<and> j < length fs \<and> i = j mod length ss))"

lemma ring_atD:
  assumes "ring_at r ss fs k"
  shows "ring_ok r ss" "unat (pr_current_frame r) = k mod length ss" "k \<le> length fs" "length fs \<le> k + length ss"
    "f \<in> set fs \<Longrightarrow> slot_ready f" "k \<le> j \<Longrightarrow> j < length fs \<Longrightarrow> ss ! (j mod length ss) = fs ! j"
    "i < length ss \<Longrightarrow> user_slot (ss ! i) \<Longrightarrow> \<exists>j. k \<le> j \<and> j < length fs \<and> i = j mod length ss" "0 < length ss"
  using assms by (auto simp: ring_at_def ring_ok_def)

lemma mod_close: "i mod n = j mod n \<Longrightarrow> i \<le> j \<Longrightarrow> j < i + (n :: nat) \<Longrightarrow> i = j"
proof -
  assume a: "i mod n = j mod n" "i \<le> j" "j < i + n"
  then have "n dvd j - i" using mod_eq_dvd_iff_nat [of i j n] by simp
  then show "i = j" using a by (auto dest: dvd_imp_le)
qed

lemma ring_at_fill1:
  assumes "ring_at r ss fs k" "\<not> user_slot (ss ! (length fs mod length ss))" "slot_ready f"
  shows "ring_at r (ss[length fs mod length ss := f]) (fs @ [f]) k"
proof -
  note a = ring_atD [OF assms(1)]
  let ?n = "length ss" and ?m = "length fs"
  have room: "?m < k + ?n"
  proof (rule ccontr)
    assume "\<not> ?m < k + ?n"
    then have e: "?m = k + ?n" using a(4) by simp
    then have "ss ! (k mod ?n) = fs ! k" using a(6) [of k] a(8) by simp
    moreover have "slot_ready (fs ! k)" using a(5) [of "fs ! k"] e a(8) by simp
    ultimately show False using assms(2) e by (simp add: slot_ready_def)
  qed
  have ne: "?m mod ?n \<noteq> j mod ?n" if "k \<le> j" "j < ?m" for j using mod_close [of j ?n ?m] that room by auto
  have "ss[?m mod ?n := f] ! (j mod ?n) = (fs @ [f]) ! j" if j: "k \<le> j" "j < Suc ?m" for j
  proof (cases "j = ?m")
    case False
    then show ?thesis using ne [of j] a(6) [of j] j by (simp add: nth_append)
  qed (use a(8) in simp)
  moreover have "\<exists>j. k \<le> j \<and> j < Suc ?m \<and> i = j mod ?n" if "i < ?n" "user_slot (ss[?m mod ?n := f] ! i)" for i
  proof (cases "i = ?m mod ?n")
    case True
    then show ?thesis using a(3) by auto
  next
    case False
    then show ?thesis using a(7) [of i] that by (auto simp: less_Suc_eq)
  qed
  moreover have "ring_ok r (ss[?m mod ?n := f])" using a(1) by (simp add: ring_ok_def)
  ultimately show ?thesis
    using a(2,3,5) room assms(3) unfolding ring_at_def by (auto simp: list_update_nonempty)
qed

lemma ring_at_fill:
  assumes "ring_at r ss fs k" "ring_fill (length fs) gs ss = Some ss'" "\<forall>g \<in> set gs. slot_ready g"
  shows "ring_at r ss' (fs @ gs) k \<and> length ss' = length ss"
  using assms
proof (induction gs arbitrary: fs ss)
  case (Cons g gs)
  have "\<not> user_slot (ss ! (length fs mod length ss))"
    and r: "ring_fill (Suc (length fs)) gs (ss[length fs mod length ss := g]) = Some ss'"
    using Cons.prems(2) by (simp_all split: if_splits)
  then have "ring_at r (ss[length fs mod length ss := g]) (fs @ [g]) k"
    using ring_at_fill1 [OF Cons.prems(1)] Cons.prems(3) by simp
  then show ?case using Cons.IH [of "ss[length fs mod length ss := g]" "fs @ [g]"] r Cons.prems(3) by simp
qed simp

lemma ring_at_kernel:
  assumes "tpacket_kernel os sent" "ring_at r ss (sent w) k" "co_next os w ss = (ss', w')"
  shows "\<exists>gs. sent w' = sent w @ gs \<and> ring_at r ss' (sent w') k"
proof -
  obtain gs where "ring_fill (length (sent w)) gs ss = Some ss'" "sent w' = sent w @ gs" "\<forall>g \<in> set gs. slot_ready g"
    using assms(1) [unfolded tpacket_kernel_def, rule_format, of w ss] assms(3) by auto
  then show ?thesis using ring_at_fill [OF assms(2)] by auto
qed

text \<open>What \<^verbatim>\<open>receive\<close> returns is the next frame; \<^verbatim>\<open>release\<close> moves past it.\<close>

definition slot_frame :: "ring_slot \<Rightarrow> rx_frame" where
  "slot_frame sl = \<lparr>rx_data = slot_data sl, rx_len = sl_len sl, rx_captured_len = sl_snaplen sl\<rparr>"

lemma ring_at_drops: "ring_at (r\<lparr>pr_drops := d\<rparr>) ss fs k \<longleftrightarrow> ring_at r ss fs k"
  by (simp add: ring_at_def ring_ok_def)

lemma ring_at_receive:
  assumes "ring_at r ss fs k"
  shows "receive r ss = (if k < length fs
    then Some (Some (slot_frame (fs ! k)), r\<lparr>pr_drops := pr_drops r + (if sl_status (fs ! k) AND TP_STATUS_LOSING \<noteq> 0 then 1 else 0)\<rparr>)
    else Some (None, r))"
proof -
  note a = ring_atD [OF assms]
  let ?c = "k mod length ss"
  have c: "?c < length ss" using a(8) by simp
  show ?thesis
  proof (cases "k < length fs")
    case True
    then have s: "ss ! ?c = fs ! k" "user_slot (fs ! k)" using a(6) [of k] a(5) [of "fs ! k"] by (auto simp: slot_ready_def)
    then show ?thesis
      using True a(2) c by (simp add: receive_def Let_def user_slot_def slot_frame_def slot_data_def)
  next
    case False
    have "\<not> user_slot (ss ! ?c)" using a(7) [OF c] False by force
    then show ?thesis using False a(2) c by (simp add: receive_def Let_def user_slot_def)
  qed
qed

lemma ring_at_release:
  assumes "ring_at r ss fs k" "k < length fs"
  shows "\<exists>r' ss'. ring_release r ss = Some (r', ss') \<and> ring_at r' ss' fs (Suc k) \<and> length ss' = length ss \<and>
    pr_fd r' = pr_fd r \<and> pr_ring r' = pr_ring r \<and> pr_ring_bytes r' = pr_ring_bytes r \<and> pr_drops r' = pr_drops r"
proof -
  note a = ring_atD [OF assms(1)]
  let ?n = "length ss"
  obtain r' ss' where r: "ring_release r ss = Some (r', ss')" "ring_ok r' ss'"
      "ss' = ss[k mod ?n := (ss ! (k mod ?n))\<lparr>sl_status := TP_STATUS_KERNEL\<rparr>]" "unat (pr_current_frame r') = (k mod ?n + 1) mod ?n"
    using release_step [OF a(1)] a(2) by auto
  have "ss' ! (j mod ?n) = fs ! j" if j: "Suc k \<le> j" "j < length fs" for j
  proof -
    have "k mod ?n \<noteq> j mod ?n" using mod_close [of k ?n j] a(4) j by auto
    then show ?thesis using a(6) [of j] j r(3) by simp
  qed
  moreover have "\<exists>j. Suc k \<le> j \<and> j < length fs \<and> i = j mod ?n" if i: "i < ?n" "user_slot (ss' ! i)" for i
  proof -
    have ne: "i \<noteq> k mod ?n" using i r(3) by (auto simp: user_slot_def TP_STATUS_KERNEL_def)
    then obtain j where "k \<le> j" "j < length fs" "i = j mod ?n" using a(7) [of i] i r(3) by auto
    then show ?thesis using ne by (intro exI [of _ j]) (auto simp: Suc_le_eq le_less)
  qed
  ultimately have "ring_at r' ss' fs (Suc k)"
    unfolding ring_at_def using r a(4,5) assms(2) by (auto simp: mod_Suc_eq)
  moreover have "pr_fd r' = pr_fd r" "pr_ring r' = pr_ring r" "pr_ring_bytes r' = pr_ring_bytes r" "pr_drops r' = pr_drops r"
    using r(1) by (auto simp: ring_release_def Let_def split: if_splits)
  ultimately show ?thesis using r(1,3) by simp
qed

text \<open>A ring that has just been opened.\<close>

lemma ring_at_new:
  assumes "ring_new os iface nb w = (Inr r, w')" "0 < nb" "nb < 2 ^ 31"
  shows "ring_at r (mapped_slots r) [] 0"
proof -
  have o: "ring_open os iface nb w = (None, r, w')"
    using assms(1,2) by (auto simp: ring_new_def split: if_splits prod.splits option.splits)
  have t: "pr_total_frames r = of_int nb * 2048" "pr_current_frame r = 0" using ring_open_ok [OF o assms(2)] by simp_all
  have "(of_int nb :: u64) = of_nat (nat nb)" using assms(2) by simp
  then have "pr_total_frames r = of_nat (nat nb * 2048)" using t(1) by simp
  then have "unat (pr_total_frames r) = nat nb * 2048" using assms(3) unat_of_nat_u64 [of "nat nb * 2048"] by simp
  then show ?thesis
    using assms(2,3) t by (simp add: nat_less_iff ring_at_def ring_ok_def mapped_slots_def user_slot_def zero_slot_def)
qed

section \<open>A bounded queue\<close>

text \<open>
  The kernel and the program take turns in any order. The kernel hands over a frame when the next slot in ring order
  is its own, and drops it otherwise. The program calls \<^verbatim>\<open>receive\<close>, also repeatedly, and calls \<^verbatim>\<open>release\<close> only when it
  has received a frame that it has not released yet.
\<close>

datatype ring_event = Hand ring_slot | Receive | Release

datatype ring_reply = Handed bool | Received "rx_frame option" | Released | Nothing_held

fun ring_ev :: "ring_event \<Rightarrow> packet_ring \<times> ring_slot list \<times> nat \<times> bool
    \<Rightarrow> (ring_reply \<times> packet_ring \<times> ring_slot list \<times> nat \<times> bool) option" where
  "ring_ev (Hand f) (r, ss, pos, got) =
     Some (if ss \<noteq> [] \<and> \<not> user_slot (ss ! (pos mod length ss))
           then (Handed True, r, ss[pos mod length ss := f], Suc pos, got) else (Handed False, r, ss, pos, got))"
| "ring_ev Receive (r, ss, pos, got) =
     do { (f, r1) \<leftarrow> receive r ss; Some (Received f, r1, ss, pos, f \<noteq> None) }"
| "ring_ev Release (r, ss, pos, got) =
     (if got then do { (r1, ss1) \<leftarrow> ring_release r ss; Some (Released, r1, ss1, pos, False) }
      else Some (Nothing_held, r, ss, pos, got))"

fun ring_evs :: "ring_event list \<Rightarrow> packet_ring \<times> ring_slot list \<times> nat \<times> bool \<Rightarrow> ring_reply list option" where
  "ring_evs [] st = Some []"
| "ring_evs (e # es) st = do { (x, st1) \<leftarrow> ring_ev e st; xs \<leftarrow> ring_evs es st1; Some (x # xs) }"

text \<open>The same operations on a queue with room for \<open>n\<close> frames.\<close>

fun queue_ev :: "nat \<Rightarrow> ring_event \<Rightarrow> ring_slot list \<times> bool \<Rightarrow> ring_reply \<times> ring_slot list \<times> bool" where
  "queue_ev n (Hand f) (q, got) = (if length q < n then (Handed True, q @ [f], got) else (Handed False, q, got))"
| "queue_ev n Receive (q, got) =
     (Received (case q of [] \<Rightarrow> None | f # _ \<Rightarrow> Some (slot_frame f)), q, q \<noteq> [])"
| "queue_ev n Release (q, got) = (if got then (Released, tl q, False) else (Nothing_held, q, got))"

fun queue_evs :: "nat \<Rightarrow> ring_event list \<Rightarrow> ring_slot list \<times> bool \<Rightarrow> ring_reply list" where
  "queue_evs n [] st = []"
| "queue_evs n (e # es) st = (let (x, st1) = queue_ev n e st in x # queue_evs n es st1)"

text \<open>The next slot belongs to the kernel exactly when there is room.\<close>

lemma ring_at_room:
  assumes "ring_at r ss fs k"
  shows "\<not> user_slot (ss ! (length fs mod length ss)) \<longleftrightarrow> length fs - k < length ss"
proof -
  note a = ring_atD [OF assms]
  have "\<not> user_slot (ss ! (length fs mod length ss))" if "length fs < k + length ss"
    using a(7) [of "length fs mod length ss"] a(8) that mod_close [of _ "length ss" "length fs"] by fastforce
  moreover have "user_slot (ss ! (length fs mod length ss))" if "length fs = k + length ss"
    using a(6) [of k] a(5) [of "fs ! k"] a(8) that by (simp add: slot_ready_def)
  ultimately show ?thesis using a(3,4) by linarith
qed

lemma ring_ev_refines:
  assumes "ring_at r ss fs k" "got \<longrightarrow> k < length fs" "\<And>f. e = Hand f \<Longrightarrow> slot_ready f"
  shows "\<exists>x r' ss' fs' k' got'. ring_ev e (r, ss, length fs, got) = Some (x, r', ss', length fs', got') \<and>
    queue_ev (length ss) e (drop k fs, got) = (x, drop k' fs', got') \<and> ring_at r' ss' fs' k' \<and>
    length ss' = length ss \<and> (got' \<longrightarrow> k' < length fs')"
proof (cases e)
  case (Hand f)
  note a = ring_atD [OF assms(1)] and room = ring_at_room [OF assms(1)]
  show ?thesis
  proof (cases "length fs - k < length ss")
    case True
    then have "ring_at r (ss[length fs mod length ss := f]) (fs @ [f]) k"
      using ring_at_fill1 [OF assms(1)] room assms(3) [OF Hand] by simp
    then show ?thesis
      using True room Hand a(3,8) assms(2)
      by (intro exI [of _ "Handed True"] exI [of _ r] exI [of _ "ss[length fs mod length ss := f]"] exI [of _ "fs @ [f]"] exI [of _ k] exI [of _ got]) auto
  next
    case False
    then show ?thesis
      using room Hand assms(1,2)
      by (intro exI [of _ "Handed False"] exI [of _ r] exI [of _ ss] exI [of _ fs] exI [of _ k] exI [of _ got]) simp
  qed
next
  case Receive
  note rc = ring_at_receive [OF assms(1)]
  show ?thesis
  proof (cases "k < length fs")
    case True
    then obtain r1 where r1: "receive r ss = Some (Some (slot_frame (fs ! k)), r1)" "ring_at r1 ss fs k"
      using rc assms(1) by (auto simp: ring_at_drops)
    have "drop k fs = fs ! k # drop (Suc k) fs" using True by (rule Cons_nth_drop_Suc [symmetric])
    then show ?thesis
      using Receive True r1
      by (intro exI [of _ "Received (Some (slot_frame (fs ! k)))"] exI [of _ r1] exI [of _ ss] exI [of _ fs] exI [of _ k] exI [of _ True]) simp
  next
    case False
    then show ?thesis
      using Receive rc assms(1)
      by (intro exI [of _ "Received None"] exI [of _ r] exI [of _ ss] exI [of _ fs] exI [of _ k] exI [of _ False]) simp
  qed
next
  case Release
  show ?thesis
  proof (cases got)
    case True
    then obtain r' ss' where r: "ring_release r ss = Some (r', ss')" "ring_at r' ss' fs (Suc k)" "length ss' = length ss"
      using ring_at_release [OF assms(1)] assms(2) by blast
    then show ?thesis
      using Release True
      by (intro exI [of _ Released] exI [of _ r'] exI [of _ ss'] exI [of _ fs] exI [of _ "Suc k"] exI [of _ False]) (simp add: drop_Suc tl_drop)
  next
    case False
    then show ?thesis
      using Release assms(1)
      by (intro exI [of _ Nothing_held] exI [of _ r] exI [of _ ss] exI [of _ fs] exI [of _ k] exI [of _ False]) simp
  qed
qed

lemma ring_evs_refine:
  assumes "ring_at r ss fs k" "got \<longrightarrow> k < length fs" "\<forall>f. Hand f \<in> set es \<longrightarrow> slot_ready f"
  shows "ring_evs es (r, ss, length fs, got) = Some (queue_evs (length ss) es (drop k fs, got))"
  using assms
proof (induction es arbitrary: r ss fs k got)
  case (Cons e es)
  obtain x r' ss' fs' k' got' where s: "ring_ev e (r, ss, length fs, got) = Some (x, r', ss', length fs', got')"
      "queue_ev (length ss) e (drop k fs, got) = (x, drop k' fs', got')" "ring_at r' ss' fs' k'"
      "length ss' = length ss" "got' \<longrightarrow> k' < length fs'"
    using ring_ev_refines [OF Cons.prems(1,2), of e] Cons.prems(3) by auto
  then show ?case using Cons.IH [OF s(3,5)] Cons.prems(3) by simp
qed simp

section \<open>The time limit\<close>

definition limit_ns :: "int \<Rightarrow> nat" where
  "limit_ns duration = unat (of_int duration * 1000000000 :: u64)"

lemma limit_ns_eq: "n < 2 ^ 31 \<Longrightarrow> limit_ns (int n) = n * 1000000000"
  using unat_of_nat_u64 [of "n * 1000000000"] by (simp add: limit_ns_def)

lemma machine_clockD:
  assumes "machine_clock os tm"
  shows "now_ns os CLOCK_MONOTONIC w = of_nat (tm w)"
    and "co_next os w ss = (ss', w') \<Longrightarrow> tm w \<le> tm w' \<and> tm w' \<le> tm w + 2 ^ 61"
  using assms by (simp_all add: machine_clock_def) (metis snd_conv)

text \<open>There is no endless sequence of passes up to a point in time.\<close>

lemma pass_wf:
  assumes "machine_clock os tm"
  shows "wf {(w', w). (\<exists>ss. w' = snd (co_next os w ss)) \<and> tm w' \<le> T}"
proof (rule wf_subset)
  let ?S = "{(w', w). tm w' = tm w \<and> (\<exists>ss. w' = snd (co_next os w ss))}"
  show "wf (inv_image (less_than <*lex*> ?S) (\<lambda>w. (T - tm w, w)))"
    using assms by (intro wf_inv_image wf_lex_prod) (simp_all add: machine_clock_def)
  show "{(w', w). (\<exists>ss. w' = snd (co_next os w ss)) \<and> tm w' \<le> T} \<subseteq> inv_image (less_than <*lex*> ?S) (\<lambda>w. (T - tm w, w))"
  proof clarify
    fix w ss assume "tm (snd (co_next os w ss)) \<le> T"
    moreover have "tm w \<le> tm (snd (co_next os w ss))" using assms by (simp add: machine_clock_def)
    ultimately show "(snd (co_next os w ss), w) \<in> inv_image (less_than <*lex*> ?S) (\<lambda>w. (T - tm w, w))"
      by (cases "tm w = tm (snd (co_next os w ss))") auto
  qed
qed

lemma elapsed:
  assumes "machine_clock os tm" "t0 \<le> tm w" "tm w < t0 + 2 ^ 64"
  shows "unat (now_ns os CLOCK_MONOTONIC w - of_nat t0) = tm w - t0"
proof -
  have "now_ns os CLOCK_MONOTONIC w = of_nat (tm w)" using assms(1) by (simp add: machine_clock_def)
  then have "now_ns os CLOCK_MONOTONIC w - of_nat t0 = of_nat (tm w - t0)" using assms(2) by simp
  then show ?thesis using unat_of_nat_u64 [of "tm w - t0"] assms(3) by simp
qed

section \<open>Properties\<close>

text \<open>
  C16. The ring is a first-in first-out queue. The kernel hands over frames and the program receives and
  releases them, in any order of these calls; the frames are ready when they are handed over. From a ring
  that has just been opened, all replies are those of a queue with room for as many frames as the ring has slots:
  the frames come out in the order in which they went in, each until it is released and then never again,
  and the kernel finds no room exactly when as many frames as there are slots have not been released.
\<close>

theorem ring_fifo:
  assumes "ring_new os iface num_blocks w = (Inr r, w')" "num_blocks < 2 ^ 31"
    and "\<forall>f. Hand f \<in> set es \<longrightarrow> slot_ready f"
  shows "ring_evs es (r, mapped_slots r, 0, False) = Some (queue_evs (unat (pr_total_frames r)) es ([], False))"
proof -
  have "0 < num_blocks" using assms(1) by (auto simp: ring_new_def split: if_splits)
  then have "ring_at r (mapped_slots r) [] 0" using ring_at_new [OF assms(1) _ assms(2)] by blast
  then show ?thesis using ring_evs_refine [of r "mapped_slots r" "[]" 0 False es] assms(3) by (simp add: mapped_slots_def)
qed

text \<open>A slot as the kernel fills it: the frame 82 bytes behind the start of the 2048 bytes.\<close>

definition demo_slot :: "bytes \<Rightarrow> ring_slot" where
  "demo_slot fr = \<lparr>sl_status = 1, sl_len = of_nat (length fr), sl_snaplen = of_nat (length fr), sl_mac = 82,
     sl_mem = replicate 82 0 @ fr @ replicate (1966 - length fr) 0\<rparr>"

lemma demo_slot_ready: "length fr \<le> 1966 \<Longrightarrow> slot_ready (demo_slot fr)"
  using unat_of_nat_u32 [of "length fr"]
  by (simp add: slot_ready_def demo_slot_def user_slot_def TP_STATUS_USER_def slot_data_def)

theorem ring_fifo_witness:
  "\<exists>r k'. ring_new (one_ring_os True) ''lo'' 1 () = (Inr r, k') \<and>
    ring_evs [Hand (demo_slot [1]), Hand (demo_slot [2]), Receive, Receive, Release, Release, Receive, Release, Receive]
      (r, mapped_slots r, 0, False) =
    Some [Handed True, Handed True, Received (Some (slot_frame (demo_slot [1]))), Received (Some (slot_frame (demo_slot [1]))),
      Released, Nothing_held, Received (Some (slot_frame (demo_slot [2]))), Released, Received None]"
proof -
  obtain r k' where r: "ring_new (one_ring_os True) ''lo'' 1 () = (Inr r, k')" "pr_total_frames r = 2048"
    using one_ring by blast
  let ?es = "[Hand (demo_slot [1]), Hand (demo_slot [2]), Receive, Receive, Release, Release, Receive, Release, Receive]"
  have "\<forall>f. Hand f \<in> set ?es \<longrightarrow> slot_ready f" by (auto intro: demo_slot_ready)
  then have "ring_evs ?es (r, mapped_slots r, 0, False) = Some (queue_evs (unat (pr_total_frames r)) ?es ([], False))"
    by (intro ring_fifo [OF r(1)]) simp_all
  then show ?thesis using r by (intro exI [of _ r] exI [of _ k']) simp
qed

end
