(* ===== verification/Inet_Text.thy ===== *)
theory Inet_Text
  imports C_Text "HOL-Library.Monad_Syntax"
begin

text \<open>
  IPv4 addresses as text, as \<^verbatim>\<open>inet_ntop\<close> prints and \<^verbatim>\<open>inet_pton\<close> reads them: \<open>ip_str\<close> is the helper of
  \<^verbatim>\<open>src/capture.cpp\<close>, \<open>inet_pton\<close> what \<^verbatim>\<open>tools/pkt_gen.cpp\<close> calls. Addresses are in host order. Reading gives back what was
  printed.
\<close>

text \<open>\<^verbatim>\<open>inet_ntop\<close> prints the bytes of the address in network order.\<close>

definition ip_str :: "u32 \<Rightarrow> string" where
  "ip_str host_ip =
     show_base 10 (unat (drop_bit 24 host_ip)) @ ''.'' @ show_base 10 (unat (take_bit 8 (drop_bit 16 host_ip))) @ ''.'' @
     show_base 10 (unat (take_bit 8 (drop_bit 8 host_ip))) @ ''.'' @ show_base 10 (unat (take_bit 8 host_ip))"

text \<open>One number of an address: up to 255, without leading zeros.\<close>

definition octet :: "string \<Rightarrow> (nat \<times> string) option" where
  "octet s =
     (let ds = base_digits 10 s; v = base_val 10 ds in
      if ds = [] \<or> 1 < length ds \<and> hd ds = CHR ''0'' \<or> 255 < v then None else Some (v, drop (length ds) s))"

fun skip_dot :: "string \<Rightarrow> string option" where
  "skip_dot (c # s) = (if c = CHR ''.'' then Some s else None)"
| "skip_dot [] = None"

definition inet_pton :: "string \<Rightarrow> u32 option" where
  "inet_pton s =
     do { (a, s1) \<leftarrow> octet s; s2 \<leftarrow> skip_dot s1; (b, s3) \<leftarrow> octet s2; s4 \<leftarrow> skip_dot s3;
          (c, s5) \<leftarrow> octet s4; s6 \<leftarrow> skip_dot s5; (d, s7) \<leftarrow> octet s6;
          if s7 = [] then Some (of_nat (((a * 256 + b) * 256 + c) * 256 + d)) else None }"

section \<open>Reading back what is printed\<close>

lemma show_base_split:
  assumes "show_base 10 m @ c # xs = show_base 10 n @ d # ys" "10 \<le> digit_val c" "10 \<le> digit_val d"
  shows "m = n \<and> c # xs = d # ys"
proof -
  have "show_base 10 m = show_base 10 n"
    using assms base_digits_show [of 10 "c # xs" m] base_digits_show [of 10 "d # ys" n] by simp
  then show ?thesis using assms(1) show_base_inj by simp
qed

lemma digit_val_sep: "digit_val CHR ''.'' = 99" "digit_val CHR '':'' = 99" "digit_val CHR 0x0A = 99"
  by (simp_all add: digit_val_def)

lemma bytes_of_word:
  fixes a b :: u32
  assumes "drop_bit 24 a = drop_bit 24 b" "take_bit 8 (drop_bit 16 a) = take_bit 8 (drop_bit 16 b)"
    "take_bit 8 (drop_bit 8 a) = take_bit 8 (drop_bit 8 b)" "take_bit 8 a = take_bit 8 b"
  shows "a = b"
proof (rule bit_word_eqI)
  fix n assume "n < LENGTH(32)"
  have e: "bit (take_bit 8 (drop_bit j a)) i = bit (take_bit 8 (drop_bit j b)) i" if "j \<in> {0, 8, 16}" for i j
    using assms that by auto
  consider "n < 8" | "8 \<le> n" "n < 16" | "16 \<le> n" "n < 24" | "24 \<le> n" by linarith
  then show "bit a n = bit b n"
  proof cases
    case 1
    then show ?thesis using e [of 0 n] by (simp add: bit_take_bit_iff)
  next
    case 2
    then show ?thesis using e [of 8 "n - 8"] by (simp add: bit_take_bit_iff bit_drop_bit_eq less_diff_conv2)
  next
    case 3
    then show ?thesis using e [of 16 "n - 16"] by (simp add: bit_take_bit_iff bit_drop_bit_eq less_diff_conv2)
  next
    case 4
    have "bit (drop_bit 24 a) (n - 24) = bit (drop_bit 24 b) (n - 24)" using assms(1) by simp
    then show ?thesis using 4 by (simp add: bit_drop_bit_eq)
  qed
qed

lemma ip_str_split:
  assumes "ip_str a @ c # xs = ip_str b @ d # ys" "10 \<le> digit_val c" "10 \<le> digit_val d"
  shows "a = b \<and> c # xs = d # ys"
proof -
  note eq = assms(1) [unfolded ip_str_def append_assoc append_Cons append_Nil]
  have 1: "unat (drop_bit 24 a) = unat (drop_bit 24 b)"
    and r1: "show_base 10 (unat (take_bit 8 (drop_bit 16 a))) @ CHR ''.'' # show_base 10 (unat (take_bit 8 (drop_bit 8 a))) @ CHR ''.'' #
        show_base 10 (unat (take_bit 8 a)) @ c # xs =
      show_base 10 (unat (take_bit 8 (drop_bit 16 b))) @ CHR ''.'' # show_base 10 (unat (take_bit 8 (drop_bit 8 b))) @ CHR ''.'' #
        show_base 10 (unat (take_bit 8 b)) @ d # ys"
    using show_base_split [OF eq] by (simp_all add: digit_val_sep)
  have 2: "unat (take_bit 8 (drop_bit 16 a)) = unat (take_bit 8 (drop_bit 16 b))"
    and r2: "show_base 10 (unat (take_bit 8 (drop_bit 8 a))) @ CHR ''.'' # show_base 10 (unat (take_bit 8 a)) @ c # xs =
      show_base 10 (unat (take_bit 8 (drop_bit 8 b))) @ CHR ''.'' # show_base 10 (unat (take_bit 8 b)) @ d # ys"
    using show_base_split [OF r1] by (simp_all add: digit_val_sep)
  have 3: "unat (take_bit 8 (drop_bit 8 a)) = unat (take_bit 8 (drop_bit 8 b))"
    and r3: "show_base 10 (unat (take_bit 8 a)) @ c # xs = show_base 10 (unat (take_bit 8 b)) @ d # ys"
    using show_base_split [OF r2] by (simp_all add: digit_val_sep)
  note 4 = show_base_split [OF r3 assms(2,3)]
  show ?thesis using bytes_of_word [of a b] 1 2 3 4 by (simp add: word_unat_eq_iff)
qed

lemma show_base_no_zero: "0 < n \<Longrightarrow> hd (show_base 10 n) \<noteq> CHR ''0''"
proof (induction n rule: show_base_induct [where b = 10, consumes 0, case_names base digit step])
  case base
  show ?case by simp
next
  case (digit n)
  then have "digit_char n \<noteq> CHR ''0''" using digit_val_char [of n] digit_val_char [of 0] by (auto simp: digit_val_def)
  then show ?case using digit by (simp add: show_base_step)
next
  case (step n)
  then show ?case by (simp add: show_base_step)
qed

lemma octet_show:
  assumes "n < 256" "rest = [] \<or> 10 \<le> digit_val (hd rest)"
  shows "octet (show_base 10 n @ rest) = Some (n, rest)"
proof -
  have d: "base_digits 10 (show_base 10 n @ rest) = show_base 10 n" using assms(2) by (intro base_digits_show) simp_all
  have v: "base_val 10 (show_base 10 n) = n" by (rule base_val_show) simp_all
  have "\<not> (1 < length (show_base 10 n) \<and> hd (show_base 10 n) = CHR ''0'')"
    using show_base_no_zero [of n] by (cases "n = 0") (auto simp: show_base_step)
  then show ?thesis using assms(1) by (simp add: octet_def d v Let_def)
qed

lemma word_of_bytes:
  fixes a :: u32
  shows "((unat (drop_bit 24 a) * 256 + unat (take_bit 8 (drop_bit 16 a))) * 256 + unat (take_bit 8 (drop_bit 8 a))) * 256 +
    unat (take_bit 8 a) = unat a"
proof -
  have h: "n div 16777216 * 16777216 + n div 65536 mod 256 * 65536 + n div 256 mod 256 * 256 + n mod 256 = n" for n :: nat
  proof -
    have "n = n div 256 * 256 + n mod 256" "n div 256 = n div 65536 * 256 + n div 256 mod 256"
      "n div 65536 = n div 16777216 * 256 + n div 65536 mod 256"
      using div_mult_mod_eq [of n 256] div_mult_mod_eq [of "n div 256" 256] div_mult_mod_eq [of "n div 65536" 256]
      by (simp_all add: div_mult2_eq [symmetric])
    then show ?thesis by linarith
  qed
  have e: "unat (drop_bit 24 a) = unat a div 16777216" "unat (take_bit 8 (drop_bit 16 a)) = unat a div 65536 mod 256"
    "unat (take_bit 8 (drop_bit 8 a)) = unat a div 256 mod 256" "unat (take_bit 8 a) = unat a mod 256"
    by (simp_all add: drop_bit_eq_div take_bit_eq_mod unat_div unat_mod)
  have "((x * 256 + y) * 256 + z) * 256 + w = x * 16777216 + y * 65536 + z * 256 + w" for x y z w :: nat by simp
  then show ?thesis unfolding e by (simp only: h)
qed

lemma inet_round_trip: "inet_pton (ip_str a) = Some a"
proof -
  have b: "unat (take_bit 8 x) < 256" for x :: u32 by (simp add: take_bit_eq_mod unat_mod)
  have "unat (drop_bit 24 a) = unat a div 16777216" by (simp add: drop_bit_eq_div unat_div)
  moreover have "unat a < 4294967296" using unsigned_less [of a, where 'a = nat] by simp
  ultimately have t: "unat (drop_bit 24 a) < 256" by (simp add: less_mult_imp_div_less)
  have dot: "octet (show_base 10 n @ CHR ''.'' # xs) = Some (n, CHR ''.'' # xs)" if "n < 256" for n xs
    using that by (intro octet_show) (simp_all add: digit_val_sep)
  have last: "octet (show_base 10 n) = Some (n, [])" if "n < 256" for n using octet_show [OF that, of "[]"] by simp
  have "(of_nat (((unat (drop_bit 24 a) * 256 + unat (take_bit 8 (drop_bit 16 a))) * 256 + unat (take_bit 8 (drop_bit 8 a))) * 256 +
      unat (take_bit 8 a)) :: u32) = a" by (simp only: word_of_bytes of_nat_unat) simp
  then show ?thesis
    unfolding inet_pton_def ip_str_def append_assoc append_Cons append_Nil
    using t b by (simp add: dot last del: of_nat_add of_nat_mult)
qed

end
