(* ===== verification/Capture_Main.thy ===== *)
theory Capture_Main
  imports Ring_Fifo Packet_Path Inet_Text
begin

text \<open>
  The program \<^verbatim>\<open>src/capture.cpp\<close> from its arguments to its exit status: opening the ring, the loop that prints a
  line for every UDP packet and a rate every second, the summary, and the destructor of the ring. What it
  prints is a list of outputs; \<open>cap_text\<close> is the text of a packet line. The machine is the parameter \<open>os\<close> of
  \<^verbatim>\<open>Ring_Fifo\<close>. The loop is a partial function: \<open>None\<close> stands for a loop that never ends, or for an
  access outside the memory of a slot.
\<close>

section \<open>Output\<close>

record cap_line =
  cl_time :: u64
  cl_src_ip :: u32
  cl_src_port :: u16
  cl_dst_ip :: u32
  cl_dst_port :: u16
  cl_payload_len :: u64

datatype cap_output =
    Usage_line string
  | Error_line ring_error
  | Packet_line cap_line
  | Rate_line u64 u64 u64
  | Summary_lines u64 u64

definition cap_text :: "cap_line \<Rightarrow> string" where
  "cap_text l =
     show_base 10 (unat (cl_time l)) @ '' '' @ ip_str (cl_src_ip l) @ '':'' @ show_base 10 (unat (cl_src_port l)) @
     '' -> '' @ ip_str (cl_dst_ip l) @ '':'' @ show_base 10 (unat (cl_dst_port l)) @
     '' len='' @ show_base 10 (unat (cl_payload_len l)) @ [CHR 0x0A]"

definition packet_line :: "u64 \<Rightarrow> bytes \<Rightarrow> u32 \<Rightarrow> cap_output list option" where
  "packet_line real mem captured_len =
     do { p \<leftarrow> parse mem (ucast captured_len);
          if pp_valid p \<and> pp_has_udp p then
            do { s \<leftarrow> src_ip mem (pp_ip p); t \<leftarrow> dst_ip mem (pp_ip p);
                 sp \<leftarrow> src_port mem (pp_udp p); dp \<leftarrow> dst_port mem (pp_udp p);
                 n \<leftarrow> udp_payload_len mem (pp_udp p);
                 Some [Packet_line \<lparr>cl_time = real, cl_src_ip = s, cl_src_port = sp, cl_dst_ip = t, cl_dst_port = dp,
                                    cl_payload_len = n\<rparr>] }
          else Some [] }"

section \<open>The loop\<close>

record cap_main =
  cm_ring :: packet_ring
  cm_slots :: "ring_slot list"
  cm_last_tick :: u64
  cm_total :: u64
  cm_last_total :: u64

text \<open>One pass; \<open>False\<close> leaves the loop.\<close>

definition cap_pass ::
  "bool \<Rightarrow> u64 \<Rightarrow> u64 \<Rightarrow> u64 \<Rightarrow> int \<Rightarrow> cap_main \<Rightarrow> (bool \<times> cap_output list \<times> cap_main) option" where
  "cap_pass stop start now real duration s =
     (if stop then Some (False, [], s)
      else if now - start \<ge> of_int duration * 1000000000 then Some (False, [], s)
      else do {
        (frame, r1) \<leftarrow> receive (cm_ring s) (cm_slots s);
        (out, s1) \<leftarrow> (case frame of
                None \<Rightarrow> Some ([], s\<lparr>cm_ring := r1\<rparr>)
              | Some f \<Rightarrow>
                  do { line \<leftarrow> packet_line real (rx_data f) (rx_captured_len f);
                       (r2, slots2) \<leftarrow> ring_release r1 (cm_slots s);
                       Some (line, s\<lparr>cm_ring := r2, cm_slots := slots2, cm_total := cm_total s + 1\<rparr>) });
        Some (if now - cm_last_tick s1 \<ge> 1000000000
              then (True, out @ [Rate_line (cm_total s1 - cm_last_total s1) (cm_total s1) (pr_drops (cm_ring s1))],
                    s1\<lparr>cm_last_tick := now, cm_last_total := cm_total s1\<rparr>)
              else (True, out, s1)) })"

partial_function (option) cap_loop ::
  "'w machine \<Rightarrow> u64 \<Rightarrow> int \<Rightarrow> cap_output list \<Rightarrow> cap_main \<Rightarrow> 'w \<Rightarrow> (cap_output list \<times> cap_main \<times> 'w) option" where
  [code]: "cap_loop os start duration log s w =
     (let (slots, w1) = co_next os w (cm_slots s) in
      case cap_pass (co_stop os w1) start (now_ns os CLOCK_MONOTONIC w1) (now_ns os CLOCK_REALTIME w1) duration
             (s\<lparr>cm_slots := slots\<rparr>) of
        None \<Rightarrow> None
      | Some (again, out, s1) \<Rightarrow>
          if again then cap_loop os start duration (log @ out) s1 w1 else Some (log @ out, s1, w1))"

section \<open>The program\<close>

definition cap_start :: "packet_ring \<Rightarrow> u64 \<Rightarrow> cap_main" where
  "cap_start r start =
     \<lparr>cm_ring = r, cm_slots = mapped_slots r, cm_last_tick = start, cm_total = 0, cm_last_total = 0\<rparr>"

text \<open>The duration, by default ten seconds.\<close>

definition arg_duration :: "string list \<Rightarrow> int option" where
  "arg_duration argv = (if length argv \<ge> 3 then atoi (argv ! 2) else Some 10)"

text \<open>The body of \<^verbatim>\<open>main\<close>: the exit status, the output and the machine.\<close>

definition capture_main :: "'w machine \<Rightarrow> string list \<Rightarrow> 'w \<Rightarrow> (int \<times> cap_output list \<times> 'w) option" where
  "capture_main os argv w =
     (if length argv < 2 then Some (1, [Usage_line (concat (take 1 argv))], w)
      else case arg_duration argv of
        None \<Rightarrow> None
      | Some duration \<Rightarrow>
          (case ring_new (co_ring os) (argv ! 1) 128 w of
             (Inl e, w1) \<Rightarrow> Some (1, [Error_line e], w1)
           | (Inr r, w1) \<Rightarrow>
               (case set_busy_poll (co_ring os) r 50 w1 of
                  (Inl e, w2) \<Rightarrow> Some (1, [Error_line e], ring_delete (co_ring os) r w2)
                | (Inr _, w2) \<Rightarrow>
                    (let start = now_ns os CLOCK_MONOTONIC w2 in
                     case cap_loop os start duration [] (cap_start r start) w2 of
                       None \<Rightarrow> None
                     | Some (log, s, w3) \<Rightarrow>
                         Some (0, log @ [Summary_lines (cm_total s) (pr_drops (cm_ring s))],
                               ring_delete (co_ring os) (cm_ring s) w3)))))"

section \<open>What is printed\<close>

text \<open>The text of a packet line determines its fields.\<close>

lemma cap_text_inj:
  assumes "cap_text l = cap_text l'"
  shows "l = l'"
proof -
  note eq = assms [unfolded cap_text_def append_assoc append_Cons append_Nil]
  let ?tail = "\<lambda>l. show_base 10 (unat (cl_payload_len l)) @ [CHR 0x0A]"
  let ?dst = "\<lambda>l. ip_str (cl_dst_ip l) @ CHR '':'' # show_base 10 (unat (cl_dst_port l)) @ CHR '' '' # ''len='' @ ?tail l"
  have 1: "unat (cl_time l) = unat (cl_time l')"
    and r1: "ip_str (cl_src_ip l) @ CHR '':'' # show_base 10 (unat (cl_src_port l)) @ CHR '' '' # ''-> '' @ ?dst l =
      ip_str (cl_src_ip l') @ CHR '':'' # show_base 10 (unat (cl_src_port l')) @ CHR '' '' # ''-> '' @ ?dst l'"
    using show_base_split [OF eq] by simp_all
  have 2: "cl_src_ip l = cl_src_ip l'"
    and r2: "show_base 10 (unat (cl_src_port l)) @ CHR '' '' # ''-> '' @ ?dst l =
      show_base 10 (unat (cl_src_port l')) @ CHR '' '' # ''-> '' @ ?dst l'"
    using ip_str_split [OF r1] by (simp_all add: digit_val_sep)
  have 3: "unat (cl_src_port l) = unat (cl_src_port l')" and r3: "?dst l = ?dst l'"
    using show_base_split [OF r2] by simp_all
  have 4: "cl_dst_ip l = cl_dst_ip l'"
    and r4: "show_base 10 (unat (cl_dst_port l)) @ CHR '' '' # ''len='' @ ?tail l =
      show_base 10 (unat (cl_dst_port l')) @ CHR '' '' # ''len='' @ ?tail l'"
    using ip_str_split [OF r3] by (simp_all add: digit_val_sep)
  have 5: "unat (cl_dst_port l) = unat (cl_dst_port l')" and r5: "?tail l = ?tail l'"
    using show_base_split [OF r4] by simp_all
  have 6: "unat (cl_payload_len l) = unat (cl_payload_len l')"
    using show_base_split [OF r5] by (simp_all add: digit_val_sep)
  show ?thesis using 1 2 3 4 5 6 by (simp add: word_unat_eq_iff)
qed

text \<open>The packet lines of an output, without the time of day, and those of a slot.\<close>

fun packets :: "cap_output list \<Rightarrow> cap_line list" where
  "packets [] = []"
| "packets (Packet_line l # out) = l\<lparr>cl_time := 0\<rparr> # packets out"
| "packets (_ # out) = packets out"

lemma packets_append [simp]: "packets (xs @ ys) = packets xs @ packets ys"
  by (induction xs rule: packets.induct) simp_all

definition slot_packets :: "ring_slot \<Rightarrow> cap_line list" where
  "slot_packets sl = packets (the (packet_line 0 (slot_data sl) (sl_snaplen sl)))"

lemma packet_line_slot:
  assumes "slot_ready sl"
  shows "\<exists>out. packet_line real (slot_data sl) (sl_snaplen sl) = Some out \<and> packets out = slot_packets sl"
proof -
  let ?m = "slot_data sl"
  have m: "80 \<le> length ?m" using assms by (simp add: slot_ready_def)
  note pe = parse_eq [OF parse_reads_roomy, of ?m "ucast (sl_snaplen sl)"]
  let ?u = "14 + ihl (?m ! 14)"
  have rd: "\<exists>w. rd16 ?m i = Some w" if "i \<le> 78" for i using that m by (simp add: rd16_eq)
  have rd': "\<exists>w. rd32 ?m i = Some w" if "i \<le> 74" for i using that m by (simp add: rd32_eq)
  have u: "?u \<le> 74" using ihl_le [of "?m ! 14"] by simp
  obtain a b c d e where "rd32 ?m (14 + 12) = Some a" "rd32 ?m (14 + 16) = Some b" "rd16 ?m ?u = Some c"
      "rd16 ?m (?u + 2) = Some d" "rd16 ?m (?u + 4) = Some e"
    using rd' [of "14 + 12"] rd' [of "14 + 16"] rd [of ?u] rd [of "?u + 2"] rd [of "?u + 4"] u by auto
  then show ?thesis
    using m pe
    by (auto simp: packet_line_def slot_packets_def src_port_def dst_port_def src_ip_def dst_ip_def
        udp_payload_len_def udp_length_def)
qed

section \<open>The loop reads the ring in order\<close>

definition same_ring :: "packet_ring \<Rightarrow> packet_ring \<Rightarrow> bool" where
  "same_ring r r' \<longleftrightarrow> pr_fd r' = pr_fd r \<and> pr_ring r' = pr_ring r \<and> pr_ring_bytes r' = pr_ring_bytes r"

lemma cap_pass_step:
  assumes "ring_at (cm_ring s) (cm_slots s) fs k" "\<not> stop" "\<not> of_int duration * 1000000000 \<le> now - start"
  shows "\<exists>out s'. cap_pass stop start now real duration s = Some (True, out, s') \<and>
    ring_at (cm_ring s') (cm_slots s') fs (if k < length fs then Suc k else k) \<and>
    cm_total s' = cm_total s + (if k < length fs then 1 else 0) \<and>
    packets out = (if k < length fs then slot_packets (fs ! k) else [])"
proof (cases "k < length fs")
  case True
  note rc = ring_at_receive [OF assms(1)]
  obtain r1 where r1: "receive (cm_ring s) (cm_slots s) = Some (Some (slot_frame (fs ! k)), r1)" "ring_at r1 (cm_slots s) fs k"
    using rc True assms(1) by (auto simp: ring_at_drops)
  obtain line where line: "packet_line real (slot_data (fs ! k)) (sl_snaplen (fs ! k)) = Some line" "packets line = slot_packets (fs ! k)"
    using packet_line_slot [of "fs ! k" real] ring_atD(5) [OF assms(1)] True by auto
  obtain r2 slots2 where r2: "ring_release r1 (cm_slots s) = Some (r2, slots2)" "ring_at r2 slots2 fs (Suc k)"
    using ring_at_release [OF r1(2) True] by blast
  show ?thesis using True assms(2,3) r1(1) line r2 by (simp add: cap_pass_def slot_frame_def)
next
  case False
  then have "receive (cm_ring s) (cm_slots s) = Some (None, cm_ring s)" using ring_at_receive [OF assms(1)] by simp
  then show ?thesis using False assms by (simp add: cap_pass_def)
qed

lemma cap_loop_runs:
  assumes "tpacket_kernel os sent" "machine_clock os tm" "limit_ns duration < 2 ^ 63"
    and "ring_at (cm_ring s) (cm_slots s) (sent w) k" "t0 \<le> tm w" "tm w \<le> t0 + limit_ns duration" "cm_total s = of_nat k"
    and "packets log = concat (map slot_packets (take k (sent w)))"
  shows "\<exists>log' s' w' k'. cap_loop os (of_nat t0) duration log s w = Some (log', s', w') \<and> k' \<le> length (sent w') \<and>
    cm_total s' = of_nat k' \<and> packets log' = concat (map slot_packets (take k' (sent w'))) \<and>
    (co_stop os w' \<or> t0 + limit_ns duration \<le> tm w') \<and>
    (\<exists>v ss. w' = snd (co_next os v ss) \<and> (v = w \<or> \<not> co_stop os v \<and> tm v < t0 + limit_ns duration))"
  using assms(4-8)
proof (induction w arbitrary: log s k rule: wf_induct_rule [OF pass_wf [OF assms(2), of "t0 + limit_ns duration"]])
  case (1 w)
  obtain slots w1 where n: "co_next os w (cm_slots s) = (slots, w1)" by fastforce
  obtain gs where gs: "sent w1 = sent w @ gs" "ring_at (cm_ring s) slots (sent w1) k"
    using ring_at_kernel [OF assms(1) "1.prems"(1) n] by blast
  have t: "tm w \<le> tm w1" "tm w1 \<le> tm w + 2 ^ 61"
    using machine_clockD(2) [OF assms(2) n] by simp_all
  have k: "k \<le> length (sent w)" using ring_atD(3) [OF "1.prems"(1)] .
  have log: "packets log = concat (map slot_packets (take k (sent w1)))" using "1.prems"(5) gs(1) k by simp
  let ?s = "s\<lparr>cm_slots := slots\<rparr>" and ?now = "now_ns os CLOCK_MONOTONIC w1" and ?real = "now_ns os CLOCK_REALTIME w1"
  have "unat (?now - of_nat t0) = tm w1 - t0"
    using elapsed [OF assms(2), of t0 w1] t "1.prems"(2,3) assms(3) by simp
  then have late: "of_int duration * 1000000000 \<le> ?now - of_nat t0 \<longleftrightarrow> t0 + limit_ns duration \<le> tm w1"
    using t(1) "1.prems"(2) by (auto simp: word_le_nat_alt limit_ns_def)
  show ?case
  proof (cases "co_stop os w1 \<or> t0 + limit_ns duration \<le> tm w1")
    case True
    then have "cap_pass (co_stop os w1) (of_nat t0) ?now ?real duration ?s = Some (False, [], ?s)"
      using late by (auto simp: cap_pass_def)
    then have "cap_loop os (of_nat t0) duration log s w = Some (log, ?s, w1)" using n by (subst cap_loop.simps) simp
    moreover have "k \<le> length (sent w1)" "w1 = snd (co_next os w (cm_slots s))" using k gs(1) n by simp_all
    ultimately show ?thesis
      using "1.prems"(4) log True by (intro exI [of _ log] exI [of _ ?s] exI [of _ w1] exI [of _ k]) auto
  next
    case False
    then obtain out s1 where p: "cap_pass (co_stop os w1) (of_nat t0) ?now ?real duration ?s = Some (True, out, s1)"
        "ring_at (cm_ring s1) (cm_slots s1) (sent w1) (if k < length (sent w1) then Suc k else k)"
        "cm_total s1 = cm_total s + (if k < length (sent w1) then 1 else 0)"
        "packets out = (if k < length (sent w1) then slot_packets (sent w1 ! k) else [])"
      using cap_pass_step [of ?s "sent w1" k "co_stop os w1" duration ?now "of_nat t0" ?real] gs(2) late by auto
    have step: "cap_loop os (of_nat t0) duration log s w = cap_loop os (of_nat t0) duration (log @ out) s1 w1"
      using n p(1) by (subst cap_loop.simps) simp
    have "(w1, w) \<in> {(w', w). (\<exists>ss. w' = snd (co_next os w ss)) \<and> tm w' \<le> t0 + limit_ns duration}"
      using n False by (auto intro: exI [of _ "cm_slots s"])
    note IH = "1.IH" [OF this p(2), of "log @ out"]
    have "packets (log @ out) = concat (map slot_packets (take (if k < length (sent w1) then Suc k else k) (sent w1)))"
      using log p(4) by (simp add: take_Suc_conv_app_nth)
    moreover have "t0 \<le> tm w1" "tm w1 \<le> t0 + limit_ns duration" using t(1) "1.prems"(2) False by simp_all
    moreover have "cm_total s1 = of_nat (if k < length (sent w1) then Suc k else k)" using p(3) "1.prems"(4) by simp
    ultimately obtain log' s' w' k' v ss where r: "cap_loop os (of_nat t0) duration (log @ out) s1 w1 = Some (log', s', w')"
        "k' \<le> length (sent w')" "cm_total s' = of_nat k'" "packets log' = concat (map slot_packets (take k' (sent w')))"
        "co_stop os w' \<or> t0 + limit_ns duration \<le> tm w'" "w' = snd (co_next os v ss)"
        "v = w1 \<or> \<not> co_stop os v \<and> tm v < t0 + limit_ns duration"
      using IH by blast
    have "\<not> co_stop os v \<and> tm v < t0 + limit_ns duration" using r(7) False by auto
    then show ?thesis
      using r(1-6) unfolding step by (intro exI [of _ log'] exI [of _ s'] exI [of _ w'] exI [of _ k']) blast
  qed
qed

section \<open>The ring is given back\<close>

text \<open>Any machine, with a record of the descriptors and mappings that are open.\<close>

definition traced_machine :: "'w machine \<Rightarrow> ('w \<times> int set \<times> (u64 \<times> u64) set) machine" where
  "traced_machine os =
     \<lparr>co_ring = traced (co_ring os), co_gettime = (\<lambda>clk (w, F, M). co_gettime os clk w),
      co_stop = (\<lambda>(w, F, M). co_stop os w),
      co_next = (\<lambda>(w, F, M) ss. let (ss', w') = co_next os w ss in (ss', (w', F, M)))\<rparr>"

lemma cap_pass_same_ring:
  "cap_pass stop start now real duration s = Some (b, out, s') \<Longrightarrow> same_ring (cm_ring s) (cm_ring s')"
  by (auto simp: cap_pass_def receive_def ring_release_def same_ring_def Let_def bind_eq_Some_conv
      split: if_splits option.splits)

lemma same_ring_delete: "same_ring r r' \<Longrightarrow> ring_delete os r' k = ring_delete os r k"
  by (simp add: same_ring_def ring_delete_def cleanup_def Let_def)

lemma cap_loop_traced:
  assumes "cap_loop (traced_machine os) start duration log s (w, F, M) = Some (log', s', st)"
  shows "same_ring (cm_ring s) (cm_ring s') \<and> snd st = (F, M)"
proof -
  define P where "P = (\<lambda>(os' :: ('a \<times> int set \<times> (u64 \<times> u64) set) machine) (start :: u64) (duration :: int) (log :: cap_output list)
      (s :: cap_main) (st0 :: 'a \<times> int set \<times> (u64 \<times> u64) set) (y :: cap_output list \<times> cap_main \<times> 'a \<times> int set \<times> (u64 \<times> u64) set). os' = traced_machine os \<longrightarrow>
      (\<forall>w. st0 = (w, F, M) \<longrightarrow> same_ring (cm_ring s) (cm_ring (fst (snd y))) \<and> snd (snd (snd y)) = (F, M)))"
  have "P (traced_machine os) start duration log s (w, F, M) (log', s', st)"
  proof (rule cap_loop.raw_induct [where P = P, OF _ assms], unfold P_def, intro impI allI)
    fix cap_loop and os' :: "('a \<times> int set \<times> (u64 \<times> u64) set) machine" and start duration log s st0 y w
    assume IH: "\<And>os' start duration log s st0 y. cap_loop os' start duration log s st0 = Some y \<Longrightarrow> os' = traced_machine os \<longrightarrow>
        (\<forall>w. st0 = (w, F, M) \<longrightarrow> same_ring (cm_ring s) (cm_ring (fst (snd y))) \<and> snd (snd (snd y)) = (F, M))"
      and eq: "(let (slots, w1) = co_next os' st0 (cm_slots s)
        in case cap_pass (co_stop os' w1) start (now_ns os' CLOCK_MONOTONIC w1) (now_ns os' CLOCK_REALTIME w1) duration
             (s\<lparr>cm_slots := slots\<rparr>) of
           None \<Rightarrow> None
         | Some (again, out, s1) \<Rightarrow>
             if again then cap_loop os' start duration (log @ out) s1 w1 else Some (log @ out, s1, w1)) = Some y"
      and os': "os' = traced_machine os" "st0 = (w, F, M)"
    obtain slots w1 where n: "co_next os w (cm_slots s) = (slots, w1)" by fastforce
    then have n': "co_next os' st0 (cm_slots s) = (slots, w1, F, M)" using os' by (simp add: traced_machine_def)
    obtain again out s1 where p: "cap_pass (co_stop os' (w1, F, M)) start (now_ns os' CLOCK_MONOTONIC (w1, F, M))
        (now_ns os' CLOCK_REALTIME (w1, F, M)) duration (s\<lparr>cm_slots := slots\<rparr>) = Some (again, out, s1)"
      using eq n' by (auto split: option.splits)
    have r: "same_ring (cm_ring s) (cm_ring s1)" using cap_pass_same_ring [OF p] by simp
    show "same_ring (cm_ring s) (cm_ring (fst (snd y))) \<and> snd (snd (snd y)) = (F, M)"
      using eq n' p r IH [of os' start duration "log @ out" s1 "(w1, F, M)" y] os'
      by (auto simp: same_ring_def split: if_splits)
  qed
  then show ?thesis by (simp add: P_def)
qed

section \<open>Properties\<close>

lemma slot_packets_udp:
  assumes "length dmac = 6" "length smac = 6" "length payload \<le> 65507"
    and "fr = udp_frame dmac smac f sport dport ucsum payload"
    and "slot_data sl = fr @ rest" "sl_snaplen sl = of_nat (length fr)"
  shows "slot_packets sl = [\<lparr>cl_time = 0, cl_src_ip = f_src f, cl_src_port = sport,
    cl_dst_ip = f_dst f, cl_dst_port = dport, cl_payload_len = of_nat (length payload)\<rparr>]"
proof -
  have "length fr = 42 + length payload"
    unfolding assms(4) using assms(1,2) by (simp add: udp_frame_def ip_header_def be16_def be32_def Let_def)
  then have "unat (of_nat (length fr) :: u32) = length fr" using assms(3) by (intro unat_of_nat_u32) simp
  then have "(ucast (of_nat (length fr) :: u32) :: u64) = of_nat (length fr)" by (metis of_nat_unat)
  then show ?thesis
    using udp_frame_parses [OF assms(1-4), of "fr @ rest" rest] assms(5,6) by (auto simp: packet_line_def slot_packets_def)
qed

text \<open>
  C9. The program \<^verbatim>\<open>capture\<close>, once it has opened the ring, ends with status 0. It prints the packet lines of
  the first \<open>k\<close> frames the kernel has put into the ring, in order, nothing twice and nothing skipped, and \<open>k\<close> is the
  total of the summary. It ends in time: in the pass that ends at \<open>w3\<close> the stop flag is set or \<open>n\<close> seconds have gone by
  since the start, and this is the first such pass, since the pass before, at \<open>v\<close>, was not stopped and was within the \<open>n\<close>
  seconds, unless there was no pass before. This assumes that the kernel fills the ring as documented, and that the
  monotonic clock never goes back and does not stand still for ever.
\<close>

theorem capture_run:
  assumes "ring_new (co_ring os) iface 128 w = (Inr r, w1)" "set_busy_poll (co_ring os) r 50 w1 = (Inr (), w2)"
    and "tpacket_kernel os sent" "sent w2 = []" "machine_clock os tm" "n < 2 ^ 31"
  shows "\<exists>k log r' w3 v ss. capture_main os [prog, iface, show_base 10 n] w =
      Some (0, log @ [Summary_lines (of_nat k) (pr_drops r')], ring_delete (co_ring os) r' w3) \<and>
    k \<le> length (sent w3) \<and> packets log = concat (map slot_packets (take k (sent w3))) \<and>
    (co_stop os w3 \<or> tm w2 + n * 1000000000 \<le> tm w3) \<and> w3 = snd (co_next os v ss) \<and>
    (v = w2 \<or> \<not> co_stop os v \<and> tm v < tm w2 + n * 1000000000)"
proof -
  define start where "start = now_ns os CLOCK_MONOTONIC w2"
  have start: "start = of_nat (tm w2)" using machine_clockD(1) [OF assms(5)] by (simp add: start_def)
  have lim: "limit_ns (int n) = n * 1000000000" "n * 1000000000 < 2 ^ 63" using limit_ns_eq [OF assms(6)] assms(6) by simp_all
  have "ring_at (cm_ring (cap_start r start)) (cm_slots (cap_start r start)) (sent w2) 0"
    using ring_at_new [OF assms(1)] assms(4) by (simp add: cap_start_def)
  then have "\<exists>log s w3 k. cap_loop os start (int n) [] (cap_start r start) w2 = Some (log, s, w3) \<and>
      k \<le> length (sent w3) \<and> cm_total s = of_nat k \<and> packets log = concat (map slot_packets (take k (sent w3))) \<and>
      (co_stop os w3 \<or> tm w2 + limit_ns (int n) \<le> tm w3) \<and>
      (\<exists>v ss. w3 = snd (co_next os v ss) \<and> (v = w2 \<or> \<not> co_stop os v \<and> tm v < tm w2 + limit_ns (int n)))"
    unfolding start using lim by (intro cap_loop_runs [OF assms(3,5), where k = 0]) (simp_all add: cap_start_def)
  then obtain log s w3 k v ss where l: "cap_loop os start (int n) [] (cap_start r start) w2 = Some (log, s, w3)"
      "k \<le> length (sent w3)" "cm_total s = of_nat k" "packets log = concat (map slot_packets (take k (sent w3)))"
      "co_stop os w3 \<or> tm w2 + n * 1000000000 \<le> tm w3" "w3 = snd (co_next os v ss)"
      "v = w2 \<or> \<not> co_stop os v \<and> tm v < tm w2 + n * 1000000000"
    unfolding lim by blast
  have "arg_duration [prog, iface, show_base 10 n] = Some (int n)" using atoi_show [OF assms(6)] by (simp add: arg_duration_def)
  then have "capture_main os [prog, iface, show_base 10 n] w =
      Some (0, log @ [Summary_lines (of_nat k) (pr_drops (cm_ring s))], ring_delete (co_ring os) (cm_ring s) w3)"
    using assms(1,2) l(1,3) by (simp add: capture_main_def start_def)
  with l(2,4-7) show ?thesis by blast
qed

text \<open>A machine that hands over one frame of a list per second.\<close>

definition demo_ring_os :: "'w ring_os" where
  "demo_ring_os = \<lparr>ro_socket = (\<lambda>k. (3, k)), ro_ifindex = (\<lambda>k fd n. (Some 2, k)), ro_version = (\<lambda>k fd. (True, k)),
     ro_rx_ring = (\<lambda>k fd q. (True, k)), ro_mmap = (\<lambda>k fd n. (Some 4096, k)), ro_bind = (\<lambda>k fd i. (True, k)),
     ro_munmap = (\<lambda>k p n. k), ro_close = (\<lambda>k fd. k), ro_busy_poll = (\<lambda>k fd m. (True, k))\<rparr>"

fun demo_next :: "nat \<times> ring_slot list \<times> ring_slot list \<Rightarrow> ring_slot list
    \<Rightarrow> ring_slot list \<times> nat \<times> ring_slot list \<times> ring_slot list" where
  "demo_next (t, [], past) ss = (ss, t + 1000000000, [], past)"
| "demo_next (t, f # fs, past) ss =
     (if slot_ready f \<and> ss \<noteq> [] \<and> \<not> user_slot (ss ! (length past mod length ss))
      then (ss[length past mod length ss := f], t + 1000000000, fs, past @ [f])
      else (ss, t + 1000000000, f # fs, past))"

definition demo_machine :: "(nat \<times> ring_slot list \<times> ring_slot list) machine" where
  "demo_machine = \<lparr>co_ring = demo_ring_os, co_gettime = (\<lambda>clk w. (0, of_nat (fst w))), co_stop = (\<lambda>w. False),
     co_next = demo_next\<rparr>"

lemma demo_ring:
  "\<exists>r. ring_new demo_ring_os ''eth0'' 128 w = (Inr r, w) \<and> set_busy_poll demo_ring_os r 50 w = (Inr (), w)"
  by (simp add: ring_new_def ring_open_def demo_ring_os_def IFNAMSIZ_def Let_def set_busy_poll_def)

lemma demo_delete: "ring_delete demo_ring_os r w = w"
  by (simp add: ring_delete_def cleanup_def demo_ring_os_def Let_def)

lemma demo_kernel: "tpacket_kernel demo_machine (\<lambda>w. snd (snd w))"
  unfolding tpacket_kernel_def
proof (intro allI)
  fix w :: "nat \<times> ring_slot list \<times> ring_slot list" and ss
  obtain t todo past where w: "w = (t, todo, past)" by (cases w)
  show "\<exists>fs. ring_fill (length (snd (snd w))) fs ss = Some (fst (co_next demo_machine w ss)) \<and>
      snd (snd (snd (co_next demo_machine w ss))) = snd (snd w) @ fs \<and> (\<forall>f \<in> set fs. slot_ready f)"
  proof (cases "todo \<noteq> [] \<and> slot_ready (hd todo) \<and> ss \<noteq> [] \<and> \<not> user_slot (ss ! (length past mod length ss))")
    case True
    then show ?thesis using w by (intro exI [of _ "[hd todo]"]) (cases todo; simp add: demo_machine_def)
  next
    case False
    then show ?thesis using w by (intro exI [of _ "[]"]) (cases todo; auto simp: demo_machine_def)
  qed
qed

lemma demo_clock: "machine_clock demo_machine fst"
proof -
  have t: "fst (snd (demo_next w ss)) = fst w + 1000000000" for w ss by (cases "(w, ss)" rule: demo_next.cases) auto
  have "fst w' \<noteq> fst w" if "w' = snd (demo_next w ss)" for w' w ss using t [of w ss] that by simp
  then have "{(w', w). fst w' = fst w \<and> (\<exists>ss. w' = snd (demo_next w ss))} = {}" by blast
  then have "wf {(w', w). fst w' = fst w \<and> (\<exists>ss. w' = snd (demo_next w ss))}" by (metis wf_on_bot)
  then show ?thesis using t by (simp add: machine_clock_def demo_machine_def now_ns_def)
qed

text \<open>For two seconds, with one frame to come: the frame is read in the first pass, and the second pass is the last.\<close>

definition demo_frame :: bytes where
  "demo_frame = udp_frame [1, 2, 3, 4, 5, 6] [7, 8, 9, 10, 11, 12]
     \<lparr>f_tos = 0, f_id = 1, f_frag = 0, f_ttl = 64, f_src = 0x0A000001, f_dst = 0x0A000002\<rparr> 5000 5001 0 [1, 2, 3]"

lemma demo_frame_length: "length demo_frame = 45"
  by (simp add: demo_frame_def udp_frame_def ip_header_def be16_def be32_def Let_def)

lemma demo_loop:
  assumes "ring_at r (mapped_slots r) [] 0" "slot_ready f"
  shows "\<exists>log s. cap_loop demo_machine 0 2 [] (cap_start r 0) (0, [f], []) = Some (log, s, 2000000000, [], [f]) \<and> cm_total s = 1"
proof -
  let ?ss = "mapped_slots r"
  have ne: "?ss \<noteq> []" "\<not> user_slot (?ss ! 0)" using ring_at_room [OF assms(1)] ring_atD(8) [OF assms(1)] by auto
  let ?s = "(cap_start r 0)\<lparr>cm_slots := ?ss[0 := f]\<rparr>"
  have "ring_at (cm_ring ?s) (cm_slots ?s) [f] 0"
    using ring_at_fill1 [OF assms(1) _ assms(2)] ne by (simp add: cap_start_def)
  then obtain out s where p: "cap_pass False 0 1000000000 1000000000 2 ?s = Some (True, out, s)" "cm_total s = 1"
    using cap_pass_step [of ?s "[f]" 0 False 2 1000000000 0 1000000000] by (auto simp: cap_start_def)
  have 1: "cap_loop demo_machine 0 2 [] (cap_start r 0) (0, [f], []) = cap_loop demo_machine 0 2 out s (1000000000, [], [f])"
    by (subst cap_loop.simps) (use ne assms(2) p(1) in \<open>simp add: demo_machine_def now_ns_def cap_start_def\<close>)
  have "cap_loop demo_machine 0 2 out s (1000000000, [], [f]) = Some (out, s\<lparr>cm_slots := cm_slots s\<rparr>, 2000000000, [], [f])"
    by (subst cap_loop.simps) (simp add: demo_machine_def now_ns_def cap_pass_def)
  then show ?thesis using 1 p(2) by auto
qed

theorem capture_run_witness:
  "\<exists>log r' w3. capture_main demo_machine [''capture'', ''eth0'', show_base 10 2] (0, [demo_slot demo_frame], []) =
      Some (0, log @ [Summary_lines 1 (pr_drops r')], ring_delete demo_ring_os r' w3) \<and> fst w3 = 2000000000 \<and>
    packets log = [\<lparr>cl_time = 0, cl_src_ip = 0x0A000001, cl_src_port = 5000, cl_dst_ip = 0x0A000002, cl_dst_port = 5001,
      cl_payload_len = 3\<rparr>]"
proof -
  let ?f = "demo_slot demo_frame"
  let ?w = "(0, [?f], []) :: nat \<times> ring_slot list \<times> ring_slot list"
  have f: "slot_ready ?f" by (rule demo_slot_ready) (simp add: demo_frame_length)
  obtain r where r: "ring_new (co_ring demo_machine) ''eth0'' 128 ?w = (Inr r, ?w)"
      "set_busy_poll (co_ring demo_machine) r 50 ?w = (Inr (), ?w)"
    using demo_ring [of ?w] by (auto simp: demo_machine_def)
  have ring: "co_ring demo_machine = demo_ring_os" by (simp add: demo_machine_def)
  have "snd (snd ?w) = []" "(2 :: nat) < 2 ^ 31" by simp_all
  from capture_run [OF r demo_kernel this(1) demo_clock this(2), of "''capture''", unfolded ring]
  obtain k log r' w3 where c: "capture_main demo_machine [''capture'', ''eth0'', show_base 10 2] ?w =
      Some (0, log @ [Summary_lines (of_nat k) (pr_drops r')], ring_delete demo_ring_os r' w3)"
      "k \<le> length (snd (snd w3))" "packets log = concat (map slot_packets (take k (snd (snd w3))))"
    by blast
  obtain log2 s where l: "cap_loop demo_machine 0 2 [] (cap_start r 0) ?w = Some (log2, s, 2000000000, [], [?f])" "cm_total s = 1"
    using demo_loop [OF ring_at_new [OF r(1)] f] by auto
  have "atoi (show_base 10 2) = Some 2" using atoi_show [of 2] by simp
  then have "capture_main demo_machine [''capture'', ''eth0'', show_base 10 2] ?w =
      Some (0, log2 @ [Summary_lines 1 (pr_drops (cm_ring s))], 2000000000, [], [?f])"
    using r l by (simp add: capture_main_def arg_duration_def now_ns_def demo_delete) (simp add: demo_machine_def demo_delete)
  then have e: "w3 = (2000000000, [], [?f])" "(of_nat k :: u64) = 1" using c(1) by (auto simp: demo_delete)
  then have "k = 1" using c(2) by (cases k) auto
  moreover have "slot_packets ?f = [\<lparr>cl_time = 0, cl_src_ip = 0x0A000001, cl_src_port = 5000, cl_dst_ip = 0x0A000002,
      cl_dst_port = 5001, cl_payload_len = 3\<rparr>]"
    using slot_packets_udp [OF _ _ _ demo_frame_def, of ?f "replicate 1921 0"]
    by (simp add: demo_slot_def slot_data_def demo_frame_length)
  ultimately show ?thesis using c e by (intro exI [of _ log] exI [of _ r'] exI [of _ w3]) simp
qed

text \<open>
  C30. Whatever the arguments and wherever the program fails, when it returns it has given back the
  descriptor and the mapping of the ring; it fails with status 1 and one line of output, before any packet is printed.
\<close>

theorem capture_releases:
  assumes "\<And>k. fst (ro_socket (co_ring os) k) \<notin> F"
    and "\<And>k fd n p. fst (ro_mmap (co_ring os) k fd n) = Some p \<Longrightarrow> p \<noteq> 0 \<and> (p, n) \<notin> M"
    and "capture_main (traced_machine os) argv (w, F, M) = Some (status, out, w', F', M')"
  shows "F' = F \<and> M' = M \<and> (status = 0 \<or> status = 1 \<and> length out = 1 \<and> packets out = [])"
proof (cases "length argv < 2")
  case True
  then show ?thesis using assms(3) by (auto simp: capture_main_def)
next
  case False
  have ring: "co_ring (traced_machine os) = traced (co_ring os)" by (simp add: traced_machine_def)
  obtain d where d: "arg_duration argv = Some d" using assms(3) False by (auto simp: capture_main_def split: option.splits)
  have "\<exists>res k1 F1 M1. ring_new (traced (co_ring os)) (argv ! 1) 128 (w, F, M) = (res, k1, F1, M1) \<and>
     (case res of Inl e \<Rightarrow> F1 = F \<and> M1 = M
      | Inr r \<Rightarrow> F1 = insert (pr_fd r) F \<and> M1 = insert (pr_ring r, pr_ring_bytes r) M \<and> pr_fd r \<notin> F \<and>
          (pr_ring r, pr_ring_bytes r) \<notin> M \<and> (\<exists>k2. ring_delete (traced (co_ring os)) r (k1, F1, M1) = (k2, F, M)))"
    by (rule ring_new_holds [OF assms(1)]) (rule assms(2))
  then obtain res k1 F1 M1 where n: "ring_new (traced (co_ring os)) (argv ! 1) 128 (w, F, M) = (res, k1, F1, M1)"
      "case res of Inl e \<Rightarrow> F1 = F \<and> M1 = M
       | Inr r \<Rightarrow> F1 = insert (pr_fd r) F \<and> M1 = insert (pr_ring r, pr_ring_bytes r) M \<and> pr_fd r \<notin> F \<and>
           (pr_ring r, pr_ring_bytes r) \<notin> M \<and> (\<exists>k2. ring_delete (traced (co_ring os)) r (k1, F1, M1) = (k2, F, M))"
    by (elim exE conjE)
  show ?thesis
  proof (cases res)
    case (Inl e)
    then show ?thesis using assms(3) False d n by (auto simp: capture_main_def ring)
  next
    case (Inr r)
    have del: "\<exists>k3. ring_delete (traced (co_ring os)) r (k2, F1, M1) = (k3, F, M)" for k2
      using n(2) Inr by (auto simp: ring_delete_def cleanup_def traced_def Let_def split: if_splits)
    obtain b k2 where bp: "set_busy_poll (traced (co_ring os)) r 50 (k1, F1, M1) = (b, k2, F1, M1)"
    proof (cases "ro_busy_poll (co_ring os) k1 (pr_fd r) 50")
      case (Pair ok k2)
      then show ?thesis using that by (cases ok) (auto simp: set_busy_poll_def traced_def)
    qed
    show ?thesis
    proof (cases b)
      case (Inl e)
      then show ?thesis using assms(3) False d n(1) Inr bp del [of k2] by (auto simp: capture_main_def ring)
    next
      case (Inr u)
      let ?start = "now_ns (traced_machine os) CLOCK_MONOTONIC (k2, F1, M1)"
      obtain log s w3 F3 M3 where l: "cap_loop (traced_machine os) ?start d [] (cap_start r ?start) (k2, F1, M1) = Some (log, s, w3, F3, M3)"
          "status = 0" "ring_delete (traced (co_ring os)) (cm_ring s) (w3, F3, M3) = (w', F', M')"
        using assms(3) False d n(1) \<open>res = Inr r\<close> bp Inr by (auto simp: capture_main_def ring Let_def split: option.splits prod.splits)
      have "same_ring r (cm_ring s)" "F3 = F1" "M3 = M1"
        using cap_loop_traced [OF l(1)] by (auto simp: cap_start_def)
      then have "ring_delete (traced (co_ring os)) r (w3, F1, M1) = (w', F', M')"
        using l(3) same_ring_delete [of r "cm_ring s"] by metis
      then show ?thesis using l(2) del [of w3] by auto
    qed
  qed
qed

theorem capture_releases_witness:
  "\<exists>w'. capture_main (traced_machine (demo_machine\<lparr>co_ring := demo_ring_os\<lparr>ro_bind := (\<lambda>k fd i. (False, k))\<rparr>\<rparr>))
     [''capture'', ''eth0''] ((0, [], []), {}, {}) = Some (1, [Error_line Bind_failed], w', {}, {})"
proof -
  let ?os = "demo_machine\<lparr>co_ring := demo_ring_os\<lparr>ro_bind := (\<lambda>k fd i. (False, k))\<rparr>\<rparr>"
  obtain w' F' M' where m: "capture_main (traced_machine ?os) [''capture'', ''eth0''] ((0, [], []), {}, {}) =
      Some (1, [Error_line Bind_failed], w', F', M')"
    by (simp add: capture_main_def arg_duration_def ring_new_def ring_open_def traced_machine_def traced_def
        demo_machine_def demo_ring_os_def IFNAMSIZ_def Let_def cleanup_def ring_init_def)
  have "F' = {} \<and> M' = {} \<and> (1 = (0 :: int) \<or> 1 = (1 :: int) \<and> length [Error_line Bind_failed] = 1 \<and> packets [Error_line Bind_failed] = [])"
    by (rule capture_releases [OF _ _ m]) (simp_all add: demo_machine_def demo_ring_os_def)
  then show ?thesis using m by (intro exI [of _ w']) simp
qed

end
