(* ===== verification/Pool_Lifecycle.thy ===== *)
theory Pool_Lifecycle
  imports Buffer_Pool
begin

text \<open>
  The life of a buffer pool as a whole: the constructor takes two blocks, from the huge-page allocator or, for a
  NUMA node, straight from the kernel; no operation on buffers changes which blocks the pool owns (\<open>pool_blocks\<close>); and
  the destructor hands both back. \<open>map_traced\<close> adds to any kernel a record of the mappings and the rule of
  \<^verbatim>\<open>munmap\<close> for huge pages, so that it can be seen when a block stays mapped.
\<close>

definition pool_blocks :: "buffer_pool \<Rightarrow> u64 \<times> u64 \<times> u64 \<times> u64 \<times> int" where
  "pool_blocks p = (bp_backing p, bp_backing_bytes p, bp_descriptors p, bp_descriptor_bytes p, bp_numa_node p)"

section \<open>The blocks of a pool do not change\<close>

named_theorems blocks

lemma blocks_acquire [blocks]: "acquire p = Some (b, p') \<Longrightarrow> pool_blocks p' = pool_blocks p"
  by (auto simp: acquire_def pool_blocks_def split: option.splits prod.splits if_splits)

lemma blocks_release [blocks]: "release p b = Some p' \<Longrightarrow> pool_blocks p' = pool_blocks p"
  by (auto simp: release_def pool_blocks_def Let_def split: option.splits prod.splits if_splits)

lemma blocks_write [blocks]: "buf_write p b off bs = Some p' \<Longrightarrow> pool_blocks p' = pool_blocks p"
  by (auto simp: buf_write_def pool_blocks_def Let_def split: if_splits)

lemma blocks_set_len [blocks]: "buf_set_len p b n = Some p' \<Longrightarrow> pool_blocks p' = pool_blocks p"
  by (auto simp: buf_set_len_def pool_blocks_def split: if_splits)

lemma blocks_init_slots: "pool_init_slots p is = Some p' \<Longrightarrow> pool_blocks p' = pool_blocks p"
proof (induction "is" arbitrary: p)
  case (Cons i "is")
  then obtain p1 where p1: "pool_init_slot p i = Some p1" "pool_init_slots p1 is = Some p'" by (auto split: option.splits)
  have "pool_blocks p1 = pool_blocks p"
    using p1(1) by (auto simp: pool_init_slot_def pool_blocks_def Let_def split: option.splits prod.splits)
  then show ?case using Cons.IH [OF p1(2)] by simp
qed simp

lemma blocks_store_run:
  "store_run acquire release p held ops = Some (p', held') \<Longrightarrow> pool_blocks p' = pool_blocks p"
proof (induction acquire release p held ops rule: store_run.induct)
qed (auto split: option.splits prod.splits if_splits dest: blocks)

section \<open>Construction and destruction\<close>

lemma allocate_registers:
  assumes "allocate k os reg bytes False = (Inr a, reg1, os1)"
  obtains huge where "reg1 = AList.update a \<lparr>ai_bytes = round_up bytes HUGE_PAGE_SIZE, ai_huge = huge\<rparr> reg"
  using assms by (auto simp: allocate_def Let_def split: prod.splits option.splits if_splits)

lemma new_blocks:
  assumes "buffer_pool_new k os reg bsize cnt (-1) = Some (Inr p, reg1, os1)"
  obtains h1 h2 where "reg1 = AList.update (bp_descriptors p) \<lparr>ai_bytes = round_up (cnt * 64) HUGE_PAGE_SIZE, ai_huge = h2\<rparr>
      (AList.update (bp_backing p) \<lparr>ai_bytes = round_up (bsize * cnt) HUGE_PAGE_SIZE, ai_huge = h1\<rparr> reg)"
    "bp_numa_node p = -1"
proof -
  obtain a b r1 o1 p0 where al: "allocate k os reg (bsize * cnt) False = (Inr a, r1, o1)"
      "allocate k o1 r1 (cnt * 64) False = (Inr b, reg1, os1)" "pool_init_slots p0 [0..<unat cnt] = Some p"
      "bp_backing p0 = a" "bp_descriptors p0 = b" "bp_numa_node p0 = -1"
    using assms by (auto simp: buffer_pool_new_def alloc_region_def Let_def split: if_splits option.splits sum.splits prod.splits)
  have "pool_blocks p = pool_blocks p0" by (rule blocks_init_slots [OF al(3)])
  then have "bp_backing p = a" "bp_descriptors p = b" "bp_numa_node p = -1" using al(4-6) by (simp_all add: pool_blocks_def)
  moreover obtain h1 where "r1 = AList.update a \<lparr>ai_bytes = round_up (bsize * cnt) HUGE_PAGE_SIZE, ai_huge = h1\<rparr> reg"
    using allocate_registers [OF al(1)] by blast
  moreover obtain h2 where "reg1 = AList.update b \<lparr>ai_bytes = round_up (cnt * 64) HUGE_PAGE_SIZE, ai_huge = h2\<rparr> r1"
    using allocate_registers [OF al(2)] by blast
  ultimately show ?thesis using that by simp
qed

lemma delete_update_other: "p \<noteq> q \<Longrightarrow> AList.delete p (AList.update q v xs) = AList.update q v (AList.delete p xs)"
proof (induction xs)
  case (Cons a xs)
  then show ?case by (cases a) (auto simp: AList.delete_eq)
qed (simp add: AList.delete_eq)

lemma pool_delete_returns:
  assumes "buffer_pool_new k os reg bsize cnt (-1) = Some (Inr p, reg1, os1)" "pool_blocks p' = pool_blocks p"
    and "bp_backing p \<noteq> 0" "bp_descriptors p \<noteq> 0" "bp_backing p \<noteq> bp_descriptors p"
    and "map_of reg (bp_backing p) = None" "map_of reg (bp_descriptors p) = None"
    and "os_munmap k os2 (bp_backing p) (round_up (bsize * cnt) HUGE_PAGE_SIZE) = (True, os3)"
    and "os_munmap k os3 (bp_descriptors p) (round_up (cnt * 64) HUGE_PAGE_SIZE) = (True, os4)"
  shows "buffer_pool_delete k os2 reg1 p' = (Inr (), reg, os4)"
proof -
  obtain h1 h2 where r: "reg1 = AList.update (bp_descriptors p) \<lparr>ai_bytes = round_up (cnt * 64) HUGE_PAGE_SIZE, ai_huge = h2\<rparr>
      (AList.update (bp_backing p) \<lparr>ai_bytes = round_up (bsize * cnt) HUGE_PAGE_SIZE, ai_huge = h1\<rparr> reg)"
      and node: "bp_numa_node p = -1"
    using new_blocks [OF assms(1)] by blast
  let ?b = "\<lparr>ai_bytes = round_up (cnt * 64) HUGE_PAGE_SIZE, ai_huge = h2\<rparr>"
  have "deallocate k os2 reg1 (bp_backing p) = (Inr (), AList.update (bp_descriptors p) ?b reg, os3)"
    using assms(3,5,6,8) by (simp add: deallocate_def r update_conv delete_update_other delete_update_fresh)
  moreover have "deallocate k os3 (AList.update (bp_descriptors p) ?b reg) (bp_descriptors p) = (Inr (), reg, os4)"
    using assms(4,7,9) by (simp add: deallocate_def update_conv delete_update_fresh)
  ultimately show ?thesis
    using assms(2-4) node by (simp add: buffer_pool_delete_def free_region_def pool_blocks_def)
qed

lemma bump_blocks:
  assumes "buffer_pool_new bump_os a [] bsize cnt (-1) = Some (Inr p, reg1, mem1)"
  shows "bp_backing p = a \<and> bp_descriptors p = a + round_up (bsize * cnt) HUGE_PAGE_SIZE"
proof -
  obtain p1 where "pool_init_slots p1 [0..<unat cnt] = Some p" "bp_backing p1 = a"
      "bp_descriptors p1 = a + round_up (bsize * cnt) HUGE_PAGE_SIZE"
    using assms
    by (auto simp: buffer_pool_new_def alloc_region_def allocate_def bump_os_def Let_def split: option.splits if_splits)
  then show ?thesis using blocks_init_slots [of p1 "[0..<unat cnt]" p] by (simp add: pool_blocks_def)
qed

section \<open>The mappings of a process\<close>

text \<open>
  A mapping is its address, the length asked for and whether it has huge pages. \<^verbatim>\<open>munmap\<close> is documented to refuse
  a length that is not a multiple of the huge page size on a mapping with huge pages, which then stays.
\<close>

type_synonym mapping = "u64 \<times> u64 \<times> bool"

definition unmap_refused :: "mapping \<Rightarrow> bool" where
  "unmap_refused m = (case m of (p, len, huge) \<Rightarrow> huge \<and> len mod HUGE_PAGE_SIZE \<noteq> 0)"

definition map_traced :: "'os os_calls \<Rightarrow> ('os \<times> mapping set) os_calls" where
  "map_traced k =
     \<lparr>os_mmap = (\<lambda>(os, M) huge len.
        let (r, os1) = os_mmap k os huge len
        in (r, os1, case r of None \<Rightarrow> M | Some p \<Rightarrow> insert (p, len, huge) M)),
      os_munmap = (\<lambda>(os, M) p len.
        if (p, len, True) \<in> M \<and> unmap_refused (p, len, True) then (False, os, M)
        else (True, snd (os_munmap k os p len), M - {(p, len, True), (p, len, False)})),
      os_mbind = (\<lambda>(os, M) p len mask. (os_mbind k os p len mask, M))\<rparr>"

text \<open>The length a block of a pool is mapped with.\<close>

definition region_len :: "int \<Rightarrow> u64 \<Rightarrow> u64" where
  "region_len node bytes = (if node = -1 then round_up bytes HUGE_PAGE_SIZE else bytes)"

lemma round_up_mod: "round_up bytes HUGE_PAGE_SIZE mod HUGE_PAGE_SIZE = 0"
proof -
  have "unat (w div HUGE_PAGE_SIZE * HUGE_PAGE_SIZE) = unat w div unat HUGE_PAGE_SIZE * unat HUGE_PAGE_SIZE" for w
  proof -
    have "unat (w div HUGE_PAGE_SIZE) * unat HUGE_PAGE_SIZE \<le> unat w" by (simp add: unat_div)
    also have "unat w < 2 ^ 64" using unsigned_less [of w, where 'a = nat] by simp
    finally show ?thesis using unat_mult_exact [of "w div HUGE_PAGE_SIZE" HUGE_PAGE_SIZE] by (simp add: unat_div)
  qed
  then have "w div HUGE_PAGE_SIZE * HUGE_PAGE_SIZE mod HUGE_PAGE_SIZE = 0" for w
    by (simp add: word_unat_eq_iff unat_mod)
  then show ?thesis by (simp add: round_up_def)
qed

lemma alloc_region_traced:
  assumes "alloc_region (map_traced k) (os, M) reg bytes node = Some (Inr a, reg1, os1, M1)"
  shows "\<exists>h. M1 = insert (a, region_len node bytes, h) M \<and>
    reg1 = (if node = -1 then AList.update a \<lparr>ai_bytes = region_len node bytes, ai_huge = h\<rparr> reg else reg)"
  using assms
  by (auto simp: alloc_region_def allocate_def allocate_on_node_def map_traced_def region_len_def Let_def
      split: if_splits option.splits prod.splits)

lemma free_region_traced:
  assumes "a \<noteq> 0" "\<And>n h. (a, n, h) \<notin> M"
    and "node = -1 \<Longrightarrow> map_of reg a = Some \<lparr>ai_bytes = region_len node bytes, ai_huge = h\<rparr>"
  shows "\<exists>os1. free_region (map_traced k) (os, insert (a, region_len node bytes, h) M) reg a bytes node =
    (Inr (), if node = -1 then AList.delete a reg else reg,
     os1, if node \<noteq> -1 \<and> unmap_refused (a, bytes, h) then insert (a, bytes, h) M else M)"
  using assms round_up_mod [of bytes]
  by (cases h) (auto simp: free_region_def deallocate_def map_traced_def region_len_def unmap_refused_def)

lemma new_traced:
  assumes "buffer_pool_new (map_traced k) (os, M) reg bsize cnt node = Some (Inr p, reg1, os1, M1)"
  shows "\<exists>h1 h2. M1 = insert (bp_descriptors p, region_len node (cnt * 64), h2)
        (insert (bp_backing p, region_len node (bsize * cnt), h1) M) \<and>
      reg1 = (if node = -1 then AList.update (bp_descriptors p) \<lparr>ai_bytes = region_len node (cnt * 64), ai_huge = h2\<rparr>
        (AList.update (bp_backing p) \<lparr>ai_bytes = region_len node (bsize * cnt), ai_huge = h1\<rparr> reg) else reg)"
    and "bp_numa_node p = node" "bp_backing_bytes p = bsize * cnt" "bp_descriptor_bytes p = cnt * 64"
proof -
  obtain a b r o1 N p0 where al: "alloc_region (map_traced k) (os, M) reg (bsize * cnt) node = Some (Inr a, r, o1, N)"
      "alloc_region (map_traced k) (o1, N) r (cnt * 64) node = Some (Inr b, reg1, os1, M1)"
      "pool_init_slots p0 [0..<unat cnt] = Some p" "bp_backing p0 = a" "bp_descriptors p0 = b" "bp_numa_node p0 = node"
      "bp_backing_bytes p0 = bsize * cnt" "bp_descriptor_bytes p0 = cnt * 64"
    using assms by (auto simp: buffer_pool_new_def Let_def split: if_splits option.splits sum.splits prod.splits)
  have "pool_blocks p = (a, bsize * cnt, b, cnt * 64, node)"
    using blocks_init_slots [OF al(3)] al(4-8) by (simp add: pool_blocks_def)
  then have p: "a = bp_backing p" "b = bp_descriptors p" "bp_numa_node p = node" "bp_backing_bytes p = bsize * cnt"
      "bp_descriptor_bytes p = cnt * 64"
    by (simp_all add: pool_blocks_def)
  obtain h1 where 1: "N = insert (a, region_len node (bsize * cnt), h1) M"
      "r = (if node = -1 then AList.update a \<lparr>ai_bytes = region_len node (bsize * cnt), ai_huge = h1\<rparr> reg else reg)"
    using alloc_region_traced [OF al(1)] by blast
  obtain h2 where 2: "M1 = insert (b, region_len node (cnt * 64), h2) N"
      "reg1 = (if node = -1 then AList.update b \<lparr>ai_bytes = region_len node (cnt * 64), ai_huge = h2\<rparr> r else r)"
    using alloc_region_traced [OF al(2)] by blast
  show "\<exists>h1 h2. M1 = insert (bp_descriptors p, region_len node (cnt * 64), h2)
        (insert (bp_backing p, region_len node (bsize * cnt), h1) M) \<and>
      reg1 = (if node = -1 then AList.update (bp_descriptors p) \<lparr>ai_bytes = region_len node (cnt * 64), ai_huge = h2\<rparr>
        (AList.update (bp_backing p) \<lparr>ai_bytes = region_len node (bsize * cnt), ai_huge = h1\<rparr> reg) else reg)"
    unfolding 1 2 p by (intro exI [of _ h1] exI [of _ h2]) simp
  show "bp_numa_node p = node" "bp_backing_bytes p = bsize * cnt" "bp_descriptor_bytes p = cnt * 64" by (rule p)+
qed

lemma delete_traced:
  assumes "buffer_pool_new (map_traced k) (os, M) reg bsize cnt node = Some (Inr p, reg1, os1, M1)"
    and "pool_blocks p' = pool_blocks p" "bp_backing p \<noteq> 0" "bp_descriptors p \<noteq> 0" "bp_backing p \<noteq> bp_descriptors p"
    and "\<And>n h. (bp_backing p, n, h) \<notin> M" "\<And>n h. (bp_descriptors p, n, h) \<notin> M"
    and "map_of reg (bp_backing p) = None" "map_of reg (bp_descriptors p) = None"
  shows "\<exists>os3. buffer_pool_delete (map_traced k) (os2, M1) reg1 p' =
    (Inr (), reg, os3, {m \<in> M1. m \<in> M \<or> node \<noteq> -1 \<and> unmap_refused m})"
proof -
  let ?a = "bp_backing p" and ?b = "bp_descriptors p" and ?A = "bsize * cnt" and ?B = "cnt * 64"
  obtain h1 h2 where n: "M1 = insert (?b, region_len node ?B, h2) (insert (?a, region_len node ?A, h1) M)"
      "reg1 = (if node = -1 then AList.update ?b \<lparr>ai_bytes = region_len node ?B, ai_huge = h2\<rparr>
        (AList.update ?a \<lparr>ai_bytes = region_len node ?A, ai_huge = h1\<rparr> reg) else reg)"
    using new_traced(1) [OF assms(1)] by blast
  note p = new_traced(2-4) [OF assms(1)]
  let ?r = "if node = -1 then AList.delete ?a reg1 else reg1"
  let ?N = "if node \<noteq> -1 \<and> unmap_refused (?a, ?A, h1) then insert (?a, ?A, h1) M else M"
  have ne: "\<And>n h. (?a, n, h) \<notin> insert (?b, region_len node ?B, h2) M" "\<And>n h. (?b, n, h) \<notin> ?N"
    using assms(5-7) by auto
  have ra: "node = -1 \<Longrightarrow> map_of reg1 ?a = Some \<lparr>ai_bytes = region_len node ?A, ai_huge = h1\<rparr>"
    using n(2) assms(5) by (simp add: update_conv')
  obtain os4 where f1: "free_region (map_traced k) (os2, M1) reg1 ?a ?A node =
      (Inr (), ?r, os4, insert (?b, region_len node ?B, h2) ?N)"
    using free_region_traced [OF assms(3) ne(1), of node reg1 ?A h1 k os2] ra unfolding n(1)
    by (auto simp: insert_commute)
  have r: "node = -1 \<Longrightarrow> ?r = AList.update ?b \<lparr>ai_bytes = region_len node ?B, ai_huge = h2\<rparr> reg"
    using n(2) assms(5,8) by (simp add: delete_update_other delete_update_fresh)
  then obtain os5 where f2: "free_region (map_traced k) (os4, insert (?b, region_len node ?B, h2) ?N) ?r ?b ?B node =
      (Inr (), reg, os5, if node \<noteq> -1 \<and> unmap_refused (?b, ?B, h2) then insert (?b, ?B, h2) ?N else ?N)"
    using free_region_traced [OF assms(4) ne(2), of node ?r ?B h2 k os4] n(2) assms(9)
    by (auto simp: update_conv' delete_update_fresh split: if_splits)
  have "(if node \<noteq> -1 \<and> unmap_refused (?b, ?B, h2) then insert (?b, ?B, h2) ?N else ?N) =
      {m \<in> M1. m \<in> M \<or> node \<noteq> -1 \<and> unmap_refused m}"
    unfolding n(1) using assms(6,7) by (auto simp: region_len_def)
  then show ?thesis
    using f1 f2 assms(2) p by (auto simp: buffer_pool_delete_def pool_blocks_def)
qed

section \<open>Properties\<close>

text \<open>
  C24. The life of a pool, on any kernel whose mappings are new and not the null page. The constructor maps two
  blocks; after any sequence of acquisitions and releases the destructor returns without an error, and the
  allocator's registry is as it was. A pool without a NUMA node gives both blocks back. A pool with one asks to
  unmap the length it asked to map, which is not rounded: a block that was granted huge pages and whose
  length is not a multiple of 2 MiB is refused, the refusal is ignored, and the block stays mapped for ever.
  Nothing else stays.
\<close>

theorem pool_lifecycle:
  assumes "buffer_pool_new (map_traced k) (os, M) reg bsize cnt node = Some (Inr p, reg1, os1, M1)" "unat cnt < 2 ^ 32"
    and "bp_backing p \<noteq> 0" "bp_descriptors p \<noteq> 0" "bp_backing p \<noteq> bp_descriptors p"
    and "\<And>n h. (bp_backing p, n, h) \<notin> M" "\<And>n h. (bp_descriptors p, n, h) \<notin> M"
    and "map_of reg (bp_backing p) = None" "map_of reg (bp_descriptors p) = None"
  shows "\<exists>h1 h2 p' held os3.
    M1 = M \<union> {(bp_backing p, region_len node (bsize * cnt), h1), (bp_descriptors p, region_len node (cnt * 64), h2)} \<and>
    store_run acquire release p [] ops = Some (p', held) \<and>
    buffer_pool_delete (map_traced k) (os2, M1) reg1 p' =
      (Inr (), reg, os3, {m \<in> M1. m \<in> M \<or> node \<noteq> -1 \<and> unmap_refused m})"
proof -
  note new = buffer_pool_new_cases [OF assms(1,2)]
  have "pool.conserved p []" using threaded_pool_ok [of p] new assms(2) by (simp add: pool.conserved_def)
  then obtain p' held where run: "store_run acquire release p [] ops = Some (p', held)"
    using pool.run_conserved [of p "[]" ops] by auto
  obtain os3 where "buffer_pool_delete (map_traced k) (os2, M1) reg1 p' =
      (Inr (), reg, os3, {m \<in> M1. m \<in> M \<or> node \<noteq> -1 \<and> unmap_refused m})"
    using delete_traced [OF assms(1) blocks_store_run [OF run] assms(3-9)] by blast
  moreover obtain h1 h2 where "M1 = insert (bp_descriptors p, region_len node (cnt * 64), h2)
      (insert (bp_backing p, region_len node (bsize * cnt), h1) M)"
    using new_traced(1) [OF assms(1)] by (elim exE conjE)
  then have "M1 = M \<union> {(bp_backing p, region_len node (bsize * cnt), h1), (bp_descriptors p, region_len node (cnt * 64), h2)}"
    by auto
  ultimately show ?thesis using run by (intro exI conjI)
qed

text \<open>On a kernel with huge pages: a pool of two buffers of two bytes on node 0 leaves both blocks behind, one without a node none.\<close>

theorem pool_lifecycle_witness:
  "\<exists>p reg1 os1 p' held os3. buffer_pool_new (map_traced bump_os) (4096, {}) [] 2 2 0 =
       Some (Inr p, reg1, os1, {(4096, 4, True), (4100, 128, True)}) \<and>
     store_run acquire release p [] [Take, Take, Give 1] = Some (p', held) \<and>
     buffer_pool_delete (map_traced bump_os) (os1, {(4096, 4, True), (4100, 128, True)}) reg1 p' =
       (Inr (), [], os3, {(4096, 4, True), (4100, 128, True)}) \<and>
   (\<exists>p reg1 os1 M1 os3. buffer_pool_new (map_traced bump_os) (4096, {}) [] 2 2 (-1) = Some (Inr p, reg1, os1, M1) \<and>
     buffer_pool_delete (map_traced bump_os) (os1, M1) reg1 p = (Inr (), [], os3, {}))"
proof -
  let ?M = "{(4096, 4, True), (4100, 128, True)} :: mapping set"
  define q where "q = tiny_pool\<lparr>bp_numa_node := 0, bp_descriptors := 4100\<rparr>"
  have new: "buffer_pool_new (map_traced bump_os) (4096, {}) [] 2 2 0 = Some (Inr q, [], 4228, ?M)"
    by (simp add: buffer_pool_new_def alloc_region_def allocate_on_node_def map_traced_def bump_os_def q_def
        zero_descriptor_def pool_init_slot_def fs_push_def fs_init_def tiny_pool_def Let_def upt_0_2 replicate_2 insert_commute)
  have q: "bp_backing q = 4096" "bp_descriptors q = 4100" by (simp_all add: q_def tiny_pool_def)
  have refused: "unmap_refused (4096, 4, True)" "unmap_refused (4100, 128, True)" by code_simp+
  have keep: "{m \<in> ?M. m \<in> {} \<or> (0 :: int) \<noteq> -1 \<and> unmap_refused m} = ?M"
    using refused by auto
  obtain p' held os3 where 1: "store_run acquire release q [] [Take, Take, Give 1] = Some (p', held)"
      "buffer_pool_delete (map_traced bump_os) (4228, ?M) [] p' = (Inr (), [], os3, ?M)"
    using pool_lifecycle [OF new, of "[Take, Take, Give 1]" 4228] q unfolding keep by (auto simp del: store_run.simps)
  obtain reg1 os1 M1 where new2: "buffer_pool_new (map_traced bump_os) (4096, {}) [] 2 2 (-1) = Some (Inr tiny_pool, reg1, os1, M1)"
    by (simp add: buffer_pool_new_def alloc_region_def allocate_def map_traced_def bump_os_def round_up_def
      HUGE_PAGE_SIZE_def zero_descriptor_def pool_init_slot_def fs_push_def fs_init_def tiny_pool_def
      Let_def upt_0_2 replicate_2)
  have "\<exists>os3. buffer_pool_delete (map_traced bump_os) (os1, M1) reg1 tiny_pool = (Inr (), [], os3, {})"
    using pool_lifecycle [OF new2, of "[]" os1] by (auto simp: tiny_pool_def)
  then show ?thesis using new 1 new2 by blast
qed

end
