(* ===== verification/Multiqueue_Main.thy ===== *)
theory Multiqueue_Main
  imports Capture Capture_Main Pool_Lifecycle
begin

text \<open>
  The program \<^verbatim>\<open>src/multiqueue_capture.cpp\<close> from its arguments to its end: the pool, the ring, the distributor and the
  workers are set up, the main thread moves frames from the ring into the queues until the time is over or
  the signal comes, stops and joins the workers, prints the statistics, and the destructors run. A schedule
  is a list of events: a pass of the main loop, a pass of a worker, the return of the join. The memory
  calls are the parameter \<open>mk\<close>, the rest of the machine the parameter \<open>os\<close> of \<^verbatim>\<open>Ring_Fifo\<close>. \<open>None\<close> is an access
  outside an array or a buffer, or an exception that leaves a destructor. The theorem composes the ring, the
  queues, the pool and the workers.
\<close>

section \<open>The program\<close>

datatype mq_error = Pool_failed alloc_error | Ring_failed ring_error

datatype mq_output =
    Mq_usage string
  | Mq_error mq_error
  | Counts_line "u64 list"
  | Mq_summary "(string \<times> u64 \<times> u64 \<times> u64) list" "u64 \<times> u64 \<times> u64"

datatype mq_phase = Looping | Joining | Finished

record ('w, 'm) mq_prog =
  mg_ring :: packet_ring
  mg_slots :: "ring_slot list"
  mg_sys :: "u64 list mq_sys"
  mg_start :: u64
  mg_duration :: int
  mg_last_tick :: u64
  mg_phase :: mq_phase
  mg_out :: "mq_output list"
  mg_world :: 'w
  mg_mem :: 'm
  mg_reg :: registry

text \<open>The declarations of \<^verbatim>\<open>main\<close>, up to the first reading of the clock; what was built is destroyed on an error.\<close>

definition mq_open ::
  "'m os_calls \<Rightarrow> 'w machine \<Rightarrow> string \<Rightarrow> int \<Rightarrow> 'm \<Rightarrow> registry \<Rightarrow> 'w
    \<Rightarrow> ((mq_error + ('w, 'm) mq_prog) \<times> 'm \<times> registry \<times> 'w) option" where
  "mq_open mk os iface duration mem reg w =
     (case buffer_pool_new mk mem reg 2048 8192 (-1) of
        None \<Rightarrow> None
      | Some (Inl e, reg1, mem1) \<Rightarrow> Some (Inl (Pool_failed e), mem1, reg1, w)
      | Some (Inr p, reg1, mem1) \<Rightarrow>
          (let failed = (\<lambda>e w'. case buffer_pool_delete mk mem1 reg1 p of
                            (Inl _, _) \<Rightarrow> None
                          | (Inr _, reg2, mem2) \<Rightarrow> Some (Inl (Ring_failed e), mem2, reg2, w'))
           in case ring_new (co_ring os) iface 128 w of
                (Inl e, w1) \<Rightarrow> failed e w1
              | (Inr r, w1) \<Rightarrow>
                  (case set_busy_poll (co_ring os) r 50 w1 of
                     (Inl e, w2) \<Rightarrow> failed e (ring_delete (co_ring os) r w2)
                   | (Inr _, w2) \<Rightarrow>
                       (let start = now_ns os CLOCK_MONOTONIC w2 in
                        Some (Inr \<lparr>mg_ring = r, mg_slots = mapped_slots r, mg_sys = mq_start p, mg_start = start,
                                mg_duration = duration, mg_last_tick = start, mg_phase = Looping, mg_out = [],
                                mg_world = w2, mg_mem = mem1, mg_reg = reg1\<rparr>, mem1, reg1, w2)))))"

text \<open>Taking a frame from the ring, lines 78 to 94, and the line printed every second.\<close>

definition mq_frame :: "('w, 'm) mq_prog \<Rightarrow> ('w, 'm) mq_prog option" where
  "mq_frame s =
     do { (frame, r1) \<leftarrow> receive (mg_ring s) (mg_slots s);
          case frame of
            None \<Rightarrow> Some (s\<lparr>mg_ring := r1\<rparr>)
          | Some f \<Rightarrow>
              do { (d, wp, p) \<leftarrow> enqueue_frame (rx_data f) (rx_captured_len f) (mq_rss (mg_sys s))
                                   (mq_workers (mg_sys s)) (mq_pool (mg_sys s));
                   (r2, slots2) \<leftarrow> ring_release r1 (mg_slots s);
                   Some (s\<lparr>mg_ring := r2, mg_slots := slots2,
                           mg_sys := (mg_sys s)\<lparr>mq_rss := d, mq_workers := wp, mq_pool := p\<rparr>\<rparr>) } }"

definition mq_tick :: "u64 \<Rightarrow> ('w, 'm) mq_prog \<Rightarrow> ('w, 'm) mq_prog" where
  "mq_tick now s =
     (if now - mg_last_tick s \<ge> 1000000000
      then s\<lparr>mg_last_tick := now, mg_out := mg_out s @ [Counts_line (mq_cb (mg_sys s))]\<rparr> else s)"

text \<open>One pass of the main loop; when it is left, \<^verbatim>\<open>workers.stop()\<close> sets the flag and waits.\<close>

definition mq_pass :: "'w machine \<Rightarrow> ('w, 'm) mq_prog \<Rightarrow> ('w, 'm) mq_prog option" where
  "mq_pass os s =
     (let (slots, w) = co_next os (mg_world s) (mg_slots s);
          now = now_ns os CLOCK_MONOTONIC w;
          s0 = s\<lparr>mg_slots := slots, mg_world := w\<rparr>
      in if co_stop os w \<or> now - mg_start s \<ge> of_int (mg_duration s) * 1000000000
         then Some (s0\<lparr>mg_phase := Joining, mg_sys := (mg_sys s)\<lparr>mq_workers := request_stop (mq_workers (mg_sys s))\<rparr>\<rparr>)
         else do { s1 \<leftarrow> mq_frame s0; Some (mq_tick now s1) })"

text \<open>The end of \<^verbatim>\<open>main\<close>, once every worker has left its loop.\<close>

definition mq_finish :: "'m os_calls \<Rightarrow> 'w machine \<Rightarrow> ('w, 'm) mq_prog \<Rightarrow> ('w, 'm) mq_prog option" where
  "mq_finish mk os s =
     (case worker_print_stats (mq_workers (mg_sys s)) of (rows, totals) \<Rightarrow>
        (case buffer_pool_delete mk (mg_mem s) (mg_reg s) (mq_pool (mg_sys s)) of
           (Inl _, _) \<Rightarrow> None
         | (Inr _, reg, mem) \<Rightarrow>
             Some (s\<lparr>mg_phase := Finished, mg_out := mg_out s @ [Mq_summary rows totals],
                     mg_world := ring_delete (co_ring os) (mg_ring s) (mg_world s), mg_mem := mem, mg_reg := reg\<rparr>)))"

datatype prog_event = Main_pass | Worker_pass nat | Join

fun mq_prog_step :: "'m os_calls \<Rightarrow> 'w machine \<Rightarrow> prog_event \<Rightarrow> ('w, 'm) mq_prog \<Rightarrow> ('w, 'm) mq_prog option" where
  "mq_prog_step mk os Main_pass s = (if mg_phase s = Looping then mq_pass os s else Some s)"
| "mq_prog_step mk os (Worker_pass i) s = do { sys \<leftarrow> worker_pass count_callback i (mg_sys s); Some (s\<lparr>mg_sys := sys\<rparr>) }"
| "mq_prog_step mk os Join s =
     (if mg_phase s = Joining \<and> (\<forall>l \<in> set (mq_locals (mg_sys s)). \<not> wl_running l) then mq_finish mk os s else Some s)"

fun mq_prog_run :: "'m os_calls \<Rightarrow> 'w machine \<Rightarrow> prog_event list \<Rightarrow> ('w, 'm) mq_prog \<Rightarrow> ('w, 'm) mq_prog option" where
  "mq_prog_run mk os [] s = Some s"
| "mq_prog_run mk os (ev # evs) s = do { s' \<leftarrow> mq_prog_step mk os ev s; mq_prog_run mk os evs s' }"

text \<open>\<^verbatim>\<open>main\<close>: the exit status (\<open>None\<close> while the program runs) and the output.\<close>

definition multiqueue_main ::
  "'m os_calls \<Rightarrow> 'w machine \<Rightarrow> string list \<Rightarrow> prog_event list \<Rightarrow> 'm \<Rightarrow> registry \<Rightarrow> 'w
    \<Rightarrow> (int option \<times> mq_output list \<times> 'm \<times> registry \<times> 'w) option" where
  "multiqueue_main mk os argv evs mem reg w =
     (if length argv < 2 then Some (Some 1, [Mq_usage (concat (take 1 argv))], mem, reg, w)
      else do {
        duration \<leftarrow> arg_duration argv;
        (res, mem1, reg1, w1) \<leftarrow> mq_open mk os (argv ! 1) duration mem reg w;
        case res of
          Inl e \<Rightarrow> Some (Some 1, [Mq_error e], mem1, reg1, w1)
        | Inr s \<Rightarrow>
            do { s' \<leftarrow> mq_prog_run mk os evs s;
                 Some (if mg_phase s' = Finished then Some 0 else None, mg_out s', mg_mem s', mg_reg s', mg_world s') } })"

section \<open>Each step is a run of the core\<close>

lemma blocks_enqueue:
  assumes "enqueue_frame mem n d wp p = Some (d', wp', p')"
  shows "pool_blocks p' = pool_blocks p"
proof -
  obtain b p1 where 1: "acquire p = Some (b, p1)" using assms by (auto simp: enqueue_frame_def bind_eq_Some_conv)
  note b1 = blocks_acquire [OF 1]
  show ?thesis
  proof (cases b)
    case None
    then show ?thesis using assms 1 b1 by (simp add: enqueue_frame_def)
  next
    case (Some buf)
    let ?cap = "bd_capacity (bp_descs p1 ! buf)"
    define len where "len = (if n < ?cap then n else ?cap)"
    obtain p2 p3 where 2: "buf_write p1 buf 0 (take (unat len) mem) = Some p2" "buf_set_len p2 buf len = Some p3"
      and 3: "p' = p3 \<or> release p3 buf = Some p'"
      using assms 1 Some
      by (auto simp: enqueue_frame_def Let_def bind_eq_Some_conv case_prod_unfold simp flip: len_def split: if_splits)
    show ?thesis using 3 blocks_write [OF 2(1)] blocks_set_len [OF 2(2)] blocks_release [of p3 buf p'] b1 by auto
  qed
qed

lemma blocks_worker:
  assumes "worker_body cb i wp d p c = Some (wp', d', p', c')"
  shows "pool_blocks p' = pool_blocks p"
  using assms blocks_release [of p _ p']
  by (auto simp: worker_body_def Let_def bind_eq_Some_conv case_prod_unfold split: if_splits option.splits)

lemma blocks_step:
  assumes "mq_step cb ev s = Some s'"
  shows "pool_blocks (mq_pool s') = pool_blocks (mq_pool s)"
proof (cases ev)
  case (Arrive mem n)
  then show ?thesis using assms blocks_enqueue by (auto simp: bind_eq_Some_conv)
next
  case (Pass i)
  then show ?thesis using assms blocks_worker by (auto simp: worker_pass_def bind_eq_Some_conv split: if_splits)
next
  case Stop
  then show ?thesis using assms by auto
qed

lemma blocks_run: "mq_run cb evs s = Some s' \<Longrightarrow> pool_blocks (mq_pool s') = pool_blocks (mq_pool s)"
proof (induction evs arbitrary: s)
  case (Cons ev evs)
  then obtain s1 where "mq_step cb ev s = Some s1" "mq_run cb evs s1 = Some s'" by (auto simp: bind_eq_Some_conv)
  then show ?case using Cons.IH blocks_step by metis
qed simp

text \<open>The frames that a run of the core was given, and that a state of the core is the result of such a run.\<close>

fun arrived :: "mq_event list \<Rightarrow> (bytes \<times> u32) list" where
  "arrived [] = []"
| "arrived (Arrive mem n # evs) = (mem, n) # arrived evs"
| "arrived (_ # evs) = arrived evs"

lemma arrived_append [simp]: "arrived (xs @ ys) = arrived xs @ arrived ys"
  by (induction xs rule: arrived.induct) simp_all

lemma length_arrived: "length (arrived evs) = arrivals evs"
  by (induction evs rule: arrived.induct) simp_all

definition slot_arrival :: "ring_slot \<Rightarrow> bytes \<times> u32" where
  "slot_arrival sl = (slot_data sl, sl_snaplen sl)"

definition core_history :: "buffer_pool \<Rightarrow> ring_slot list \<Rightarrow> u64 list mq_sys \<Rightarrow> bool" where
  "core_history p0 fs sys \<longleftrightarrow> (\<exists>mevs. mq_run count_callback mevs (mq_start p0) = Some sys \<and>
     (\<forall>ev \<in> set mevs. arrival_ok ev) \<and> arrived mevs = map slot_arrival fs)"

lemma core_history_start: "core_history p0 [] (mq_start p0)"
  unfolding core_history_def by (intro exI [of _ "[]"]) simp

lemma core_history_step:
  assumes "core_history p0 fs sys" "mq_step count_callback ev sys = Some sys'" "arrival_ok ev"
    "arrived [ev] = map slot_arrival gs"
  shows "core_history p0 (fs @ gs) sys'"
proof -
  obtain mevs where "mq_run count_callback mevs (mq_start p0) = Some sys" "\<forall>ev \<in> set mevs. arrival_ok ev"
      "arrived mevs = map slot_arrival fs"
    using assms(1) by (auto simp: core_history_def)
  then show ?thesis
    unfolding core_history_def using assms(2-4) by (intro exI [of _ "mevs @ [ev]"]) (simp add: mq_run_append)
qed

lemma core_history_ok:
  assumes "mq_ok (mq_start p0) 0" "core_history p0 fs sys"
  shows "mq_ok sys (length fs)" "length (mq_locals sys) = kQueues" "pool_blocks (mq_pool sys) = pool_blocks p0"
proof -
  obtain mevs where m: "mq_run count_callback mevs (mq_start p0) = Some sys" "\<forall>ev \<in> set mevs. arrival_ok ev"
      "arrived mevs = map slot_arrival fs"
    using assms(2) by (auto simp: core_history_def)
  have "arrivals mevs = length fs" using m(3) length_arrived [of mevs] by simp
  then show "mq_ok sys (length fs)" "length (mq_locals sys) = kQueues" "pool_blocks (mq_pool sys) = pool_blocks p0"
    using mq_run_ok [OF assms(1) m(2), of count_callback] m(1) blocks_run [OF m(1)] by (auto simp: mq_start_def)
qed

text \<open>
  The invariant: the core has been given the first \<open>k\<close> frames the kernel has put into the ring, in order.
  After the loop the stop flag is set. \<open>regs\<close> are the registries while the pool exists and before.
\<close>

definition prog_ok ::
  "'w machine \<Rightarrow> ('w \<Rightarrow> ring_slot list) \<Rightarrow> buffer_pool \<Rightarrow> registry \<times> registry \<Rightarrow> nat \<Rightarrow> ('w, 'm) mq_prog \<Rightarrow> bool" where
  "prog_ok os sent p0 regs k s \<longleftrightarrow>
     (\<exists>w. mg_world s = (if mg_phase s = Finished then ring_delete (co_ring os) (mg_ring s) w else w) \<and>
        ring_at (mg_ring s) (mg_slots s) (sent w) k \<and> core_history p0 (take k (sent w)) (mg_sys s)) \<and>
     (mg_phase s \<noteq> Looping \<longrightarrow> wp_stop (mq_workers (mg_sys s))) \<and>
     (if mg_phase s = Finished
      then mg_reg s = snd regs \<and> (\<forall>l \<in> set (mq_locals (mg_sys s)). \<not> wl_running l) \<and>
        (\<exists>out. mg_out s = out @ [Mq_summary (worker_rows (mq_workers (mg_sys s))) (print_totals (mq_workers (mg_sys s)))])
      else mg_reg s = fst regs)"

text \<open>Taking a frame takes the next one of the ring.\<close>

lemma mq_tick_fields [simp]:
  "mg_ring (mq_tick now s) = mg_ring s" "mg_slots (mq_tick now s) = mg_slots s" "mg_sys (mq_tick now s) = mg_sys s"
  "mg_start (mq_tick now s) = mg_start s" "mg_duration (mq_tick now s) = mg_duration s" "mg_phase (mq_tick now s) = mg_phase s"
  "mg_world (mq_tick now s) = mg_world s" "mg_reg (mq_tick now s) = mg_reg s"
  by (simp_all add: mq_tick_def)

lemma mq_frame_ok:
  assumes "mq_ok (mq_start p0) 0" "ring_at (mg_ring s) (mg_slots s) fs k" "core_history p0 (take k fs) (mg_sys s)"
  shows "\<exists>r slots sys k'. mq_frame s = Some (s\<lparr>mg_ring := r, mg_slots := slots, mg_sys := sys\<rparr>) \<and>
    ring_at r slots fs k' \<and> core_history p0 (take k' fs) sys"
proof (cases "k < length fs")
  case True
  let ?f = "fs ! k"
  let ?ev = "Arrive (slot_data ?f) (sl_snaplen ?f)"
  obtain r1 where r1: "receive (mg_ring s) (mg_slots s) = Some (Some (slot_frame ?f), r1)" "ring_at r1 (mg_slots s) fs k"
    using ring_at_receive [OF assms(2)] True assms(2) by (auto simp: ring_at_drops)
  obtain r2 slots2 where r2: "ring_release r1 (mg_slots s) = Some (r2, slots2)" "ring_at r2 slots2 fs (Suc k)"
    using ring_at_release [OF r1(2) True] by blast
  have len: "arrival_ok ?ev" using ring_atD(5) [OF assms(2), of ?f] True by (simp add: slot_ready_def)
  obtain sys where sys: "mq_step count_callback ?ev (mg_sys s) = Some sys"
    using mq_step_ok [OF core_history_ok(1) [OF assms(1,3)] len, of count_callback] by blast
  have "mq_frame s = Some (s\<lparr>mg_ring := r2, mg_slots := slots2, mg_sys := sys\<rparr>)"
    using r1(1) r2(1) sys by (auto simp: mq_frame_def slot_frame_def bind_eq_Some_conv)
  moreover have "core_history p0 (take (Suc k) fs) sys"
    using core_history_step [OF assms(3) sys len, of "[?f]"] True by (simp add: slot_arrival_def take_Suc_conv_app_nth)
  ultimately show ?thesis using r2(2) by blast
next
  case False
  then have "mq_frame s = Some (s\<lparr>mg_ring := mg_ring s, mg_slots := mg_slots s, mg_sys := mg_sys s\<rparr>)"
    using ring_at_receive [OF assms(2)] by (simp add: mq_frame_def)
  then show ?thesis using assms(2,3) by blast
qed

lemma mq_pass_ok:
  assumes "tpacket_kernel os sent" "mq_ok (mq_start p0) 0" "prog_ok os sent p0 regs k s" "mg_phase s = Looping"
  shows "\<exists>s' k'. mq_pass os s = Some s' \<and> prog_ok os sent p0 regs k' s' \<and> mg_start s' = mg_start s \<and>
    mg_duration s' = mg_duration s \<and> mg_phase s' \<noteq> Finished \<and>
    mg_world s' = snd (co_next os (mg_world s) (mg_slots s)) \<and>
    (mg_phase s' = Looping \<longrightarrow> \<not> of_int (mg_duration s) * 1000000000 \<le> now_ns os CLOCK_MONOTONIC (mg_world s') - mg_start s)"
proof -
  have inv: "ring_at (mg_ring s) (mg_slots s) (sent (mg_world s)) k" "core_history p0 (take k (sent (mg_world s))) (mg_sys s)"
    "mg_reg s = fst regs"
    using assms(3,4) by (auto simp: prog_ok_def)
  obtain slots w where n: "co_next os (mg_world s) (mg_slots s) = (slots, w)" by fastforce
  obtain gs where gs: "sent w = sent (mg_world s) @ gs" and ra: "ring_at (mg_ring s) slots (sent w) k"
    using ring_at_kernel [OF assms(1) inv(1) n] by blast
  have hist: "core_history p0 (take k (sent w)) (mg_sys s)" using inv(2) ring_atD(3) [OF inv(1)] by (simp add: gs)
  let ?now = "now_ns os CLOCK_MONOTONIC w"
  show ?thesis
  proof (cases "co_stop os w \<or> of_int (mg_duration s) * 1000000000 \<le> ?now - mg_start s")
    case True
    let ?s = "s\<lparr>mg_slots := slots, mg_world := w, mg_phase := Joining,
      mg_sys := (mg_sys s)\<lparr>mq_workers := request_stop (mq_workers (mg_sys s))\<rparr>\<rparr>"
    have "core_history p0 (take k (sent w)) (mg_sys ?s)"
      using core_history_step [OF hist, of Stop _ "[]"] by simp
    then have "prog_ok os sent p0 regs k ?s" using inv(3) ra by (auto simp: prog_ok_def request_stop_def)
    then show ?thesis using True n by (intro exI [of _ ?s] exI [of _ k]) (simp add: mq_pass_def)
  next
    case False
    obtain r slots2 sys k' where f: "mq_frame (s\<lparr>mg_slots := slots, mg_world := w\<rparr>) =
        Some (s\<lparr>mg_slots := slots, mg_world := w, mg_ring := r, mg_slots := slots2, mg_sys := sys\<rparr>)"
        "ring_at r slots2 (sent w) k'" "core_history p0 (take k' (sent w)) sys"
      using mq_frame_ok [OF assms(2), of "s\<lparr>mg_slots := slots, mg_world := w\<rparr>" "sent w" k] ra hist by auto
    let ?s = "mq_tick ?now (s\<lparr>mg_world := w, mg_ring := r, mg_slots := slots2, mg_sys := sys\<rparr>)"
    have "mq_pass os s = Some ?s" using n False f(1) by (simp add: mq_pass_def)
    moreover have "prog_ok os sent p0 regs k' ?s" using inv(3) assms(4) f(2,3) by (simp add: prog_ok_def)
    ultimately show ?thesis using assms(4) n False by (intro exI [of _ ?s] exI [of _ k']) simp
  qed
qed

section \<open>Schedules\<close>

definition pool_returns :: "'m os_calls \<Rightarrow> buffer_pool \<Rightarrow> registry \<times> registry \<Rightarrow> bool" where
  "pool_returns mk p0 regs \<longleftrightarrow> (\<forall>mem p. pool_blocks p = pool_blocks p0 \<longrightarrow>
     (\<exists>mem'. buffer_pool_delete mk mem (fst regs) p = (Inr (), snd regs, mem')))"

definition main_passes :: "prog_event list \<Rightarrow> nat" where
  "main_passes evs = length (filter (\<lambda>ev. ev = Main_pass) evs)"

definition turns :: "nat \<Rightarrow> prog_event list \<Rightarrow> nat" where
  "turns i evs = length (filter (\<lambda>ev. ev = Worker_pass i) evs)"

lemma worker_step_ok:
  assumes "mq_ok (mq_start p0) 0" "prog_ok os sent p0 regs k s"
  shows "\<exists>sys. worker_pass count_callback j (mg_sys s) = Some sys \<and> prog_ok os sent p0 regs k (s\<lparr>mg_sys := sys\<rparr>) \<and>
    (mg_phase s \<noteq> Looping \<longrightarrow> (\<forall>i < kQueues. mq_locals sys ! i = worker_nexts (if j = i then 1 else 0) (mq_locals (mg_sys s) ! i)))"
proof -
  obtain w where w: "mg_world s = (if mg_phase s = Finished then ring_delete (co_ring os) (mg_ring s) w else w)"
      "ring_at (mg_ring s) (mg_slots s) (sent w) k" "core_history p0 (take k (sent w)) (mg_sys s)"
    using assms(2) by (auto simp: prog_ok_def)
  have ok: "mq_ok (mg_sys s) k" "length (mq_locals (mg_sys s)) = kQueues"
    using core_history_ok [OF assms(1) w(3)] ring_atD(3) [OF w(2)] by simp_all
  obtain sys where sys: "mq_step count_callback (Pass j) (mg_sys s) = Some sys"
      "wp_stop (mq_workers (mg_sys s)) \<longrightarrow> wp_stop (mq_workers sys)"
      "wp_stop (mq_workers (mg_sys s)) \<longrightarrow> (\<forall>i < length (mq_locals (mg_sys s)).
         mq_locals sys ! i = worker_nexts (if Pass j = Pass i then 1 else 0) (mq_locals (mg_sys s) ! i))"
    using mq_step_ok [OF ok(1), of "Pass j" count_callback] by auto
  have hist: "core_history p0 (take k (sent w)) sys" using core_history_step [OF w(3) sys(1), of "[]"] by simp
  have "sys = mg_sys s" if "\<forall>l \<in> set (mq_locals (mg_sys s)). \<not> wl_running l"
    using sys(1) that by (auto simp: worker_pass_def split: if_splits)
  then have "prog_ok os sent p0 regs k (s\<lparr>mg_sys := sys\<rparr>)"
    using assms(2) w(1,2) hist sys(2) by (cases "mg_phase s = Finished") (auto simp: prog_ok_def)
  moreover have "mg_phase s \<noteq> Looping \<longrightarrow> wp_stop (mq_workers (mg_sys s))" using assms(2) by (simp add: prog_ok_def)
  ultimately show ?thesis using sys ok(2) by auto
qed

lemma mq_finish_ok:
  assumes "mq_ok (mq_start p0) 0" "pool_returns mk p0 regs" "prog_ok os sent p0 regs k s" "mg_phase s = Joining"
    "\<forall>l \<in> set (mq_locals (mg_sys s)). \<not> wl_running l"
  shows "\<exists>s'. mq_finish mk os s = Some s' \<and> prog_ok os sent p0 regs k s' \<and> mg_phase s' = Finished \<and>
    mg_sys s' = mg_sys s \<and> mg_start s' = mg_start s \<and> mg_duration s' = mg_duration s"
proof -
  have inv: "ring_at (mg_ring s) (mg_slots s) (sent (mg_world s)) k" "core_history p0 (take k (sent (mg_world s))) (mg_sys s)"
    "mg_reg s = fst regs" "wp_stop (mq_workers (mg_sys s))"
    using assms(3,4) by (auto simp: prog_ok_def)
  have "pool_blocks (mq_pool (mg_sys s)) = pool_blocks p0" by (rule core_history_ok(3) [OF assms(1) inv(2)])
  then obtain mem where "buffer_pool_delete mk (mg_mem s) (mg_reg s) (mq_pool (mg_sys s)) = (Inr (), snd regs, mem)"
    using assms(2) inv(3) by (auto simp: pool_returns_def)
  then show ?thesis
    using inv assms(5) by (auto simp: mq_finish_def worker_print_stats_def prog_ok_def)
qed

text \<open>
  A clock that advances by at least \<open>c\<close> in every pass: any clock does so by 0. \<open>timed m s\<close>: at least \<open>m\<close> have
  gone by since the start, and the time is not over.
\<close>

definition paced_clock :: "'w machine \<Rightarrow> ('w \<Rightarrow> nat) \<Rightarrow> nat \<Rightarrow> bool" where
  "paced_clock os tm c \<longleftrightarrow> machine_clock os tm \<and> (\<forall>w ss. tm w + c \<le> tm (snd (co_next os w ss)))"

lemma paced_clock_0: "machine_clock os tm \<Longrightarrow> paced_clock os tm 0"
  by (simp add: paced_clock_def machine_clock_def)

definition timed :: "('w \<Rightarrow> nat) \<Rightarrow> nat \<Rightarrow> nat \<Rightarrow> nat \<Rightarrow> ('w, 'm) mq_prog \<Rightarrow> bool" where
  "timed tm t0 limit m s \<longleftrightarrow> mg_start s = of_nat t0 \<and> limit_ns (mg_duration s) = limit \<and>
     (mg_phase s = Looping \<longrightarrow> t0 + m \<le> tm (mg_world s) \<and> tm (mg_world s) \<le> t0 + limit)"

lemma main_step_timed:
  assumes "paced_clock os tm c" "limit < 2 ^ 63" "timed tm t0 limit m s" "mg_phase s = Looping"
    and "mg_start s' = mg_start s" "mg_duration s' = mg_duration s" "mg_world s' = snd (co_next os (mg_world s) (mg_slots s))"
    and "mg_phase s' = Looping \<longrightarrow> \<not> of_int (mg_duration s) * 1000000000 \<le> now_ns os CLOCK_MONOTONIC (mg_world s') - mg_start s"
  shows "timed tm t0 limit (m + c) s'"
proof -
  have clk: "machine_clock os tm" using assms(1) by (simp add: paced_clock_def)
  have t: "tm (mg_world s) + c \<le> tm (mg_world s')" "tm (mg_world s') \<le> tm (mg_world s) + 2 ^ 61"
    using assms(1,7) machine_clockD(2) [OF clk, of "mg_world s" "mg_slots s"] unfolding paced_clock_def by (metis prod.collapse)+
  have e: "unat (now_ns os CLOCK_MONOTONIC (mg_world s') - of_nat t0) = tm (mg_world s') - t0"
    using elapsed [OF clk, of t0 "mg_world s'"] t assms(2-4) by (simp add: timed_def)
  show ?thesis
    using assms(3-6,8) t(1) e by (auto simp: timed_def word_le_nat_alt limit_ns_def)
qed

text \<open>Every event keeps the invariant; once the loop has been left, a worker's turns bring it nearer to its end.\<close>

lemma prog_step_ok:
  assumes "tpacket_kernel os sent" "paced_clock os tm c" "mq_ok (mq_start p0) 0" "pool_returns mk p0 regs" "limit < 2 ^ 63"
    and "prog_ok os sent p0 regs k s" "timed tm t0 limit m s"
  shows "\<exists>s' k'. mq_prog_step mk os ev s = Some s' \<and> prog_ok os sent p0 regs k' s' \<and>
    timed tm t0 limit (m + c * main_passes [ev]) s' \<and>
    (mg_phase s \<noteq> Looping \<longrightarrow> mg_phase s' \<noteq> Looping \<and>
       (\<forall>i < kQueues. mq_locals (mg_sys s') ! i = worker_nexts (turns i [ev]) (mq_locals (mg_sys s) ! i)))"
proof (cases ev)
  case Main_pass
  show ?thesis
  proof (cases "mg_phase s = Looping")
    case True
    obtain s' k' where s': "mq_pass os s = Some s'" "prog_ok os sent p0 regs k' s'" "mg_start s' = mg_start s"
        "mg_duration s' = mg_duration s" "mg_world s' = snd (co_next os (mg_world s) (mg_slots s))"
        "mg_phase s' = Looping \<longrightarrow> \<not> of_int (mg_duration s) * 1000000000 \<le> now_ns os CLOCK_MONOTONIC (mg_world s') - mg_start s"
      using mq_pass_ok [OF assms(1,3,6) True] by auto
    have "timed tm t0 limit (m + c) s'" by (rule main_step_timed [OF assms(2,5,7) True s'(3-6)])
    then show ?thesis using True Main_pass s'(1,2) by (intro exI [of _ s'] exI [of _ k']) (simp add: main_passes_def)
  next
    case False
    then show ?thesis
      using Main_pass assms(6,7) by (intro exI [of _ s] exI [of _ k]) (simp add: timed_def turns_def main_passes_def)
  qed
next
  case (Worker_pass j)
  obtain sys where sys: "worker_pass count_callback j (mg_sys s) = Some sys" "prog_ok os sent p0 regs k (s\<lparr>mg_sys := sys\<rparr>)"
      "mg_phase s \<noteq> Looping \<longrightarrow> (\<forall>i < kQueues. mq_locals sys ! i = worker_nexts (if j = i then 1 else 0) (mq_locals (mg_sys s) ! i))"
    using worker_step_ok [OF assms(3,6), of j] by blast
  then show ?thesis
    using Worker_pass assms(7)
    by (intro exI [of _ "s\<lparr>mg_sys := sys\<rparr>"] exI [of _ k]) (auto simp: timed_def turns_def main_passes_def)
next
  case Join
  show ?thesis
  proof (cases "mg_phase s = Joining \<and> (\<forall>l \<in> set (mq_locals (mg_sys s)). \<not> wl_running l)")
    case True
    then obtain s' where "mq_finish mk os s = Some s'" "prog_ok os sent p0 regs k s'" "mg_phase s' = Finished"
        "mg_sys s' = mg_sys s" "mg_start s' = mg_start s" "mg_duration s' = mg_duration s"
      using mq_finish_ok [OF assms(3,4,6)] by blast
    then show ?thesis
      using Join True assms(7) by (intro exI [of _ s'] exI [of _ k]) (simp add: timed_def turns_def main_passes_def)
  next
    case False
    then show ?thesis
      using Join assms(6,7) by (intro exI [of _ s] exI [of _ k]) (auto simp: timed_def turns_def main_passes_def)
  qed
qed

lemma prog_run_ok:
  assumes "tpacket_kernel os sent" "paced_clock os tm c" "mq_ok (mq_start p0) 0" "pool_returns mk p0 regs" "limit < 2 ^ 63"
    and "prog_ok os sent p0 regs k s" "timed tm t0 limit m s"
  shows "\<exists>s' k'. mq_prog_run mk os evs s = Some s' \<and> prog_ok os sent p0 regs k' s' \<and>
    timed tm t0 limit (m + c * main_passes evs) s' \<and>
    (mg_phase s \<noteq> Looping \<longrightarrow> mg_phase s' \<noteq> Looping \<and>
       (\<forall>i < kQueues. mq_locals (mg_sys s') ! i = worker_nexts (turns i evs) (mq_locals (mg_sys s) ! i)))"
  using assms(6,7)
proof (induction evs arbitrary: s k m)
  case Nil
  then show ?case by (auto simp: main_passes_def turns_def)
next
  case (Cons ev evs)
  obtain s1 k1 where 1: "mq_prog_step mk os ev s = Some s1" "prog_ok os sent p0 regs k1 s1"
      "timed tm t0 limit (m + c * main_passes [ev]) s1"
      "mg_phase s \<noteq> Looping \<longrightarrow> mg_phase s1 \<noteq> Looping \<and>
         (\<forall>i < kQueues. mq_locals (mg_sys s1) ! i = worker_nexts (turns i [ev]) (mq_locals (mg_sys s) ! i))"
    using prog_step_ok [OF assms(1-5) Cons.prems, of ev] by blast
  obtain s' k' where 2: "mq_prog_run mk os evs s1 = Some s'" "prog_ok os sent p0 regs k' s'"
      "timed tm t0 limit (m + c * main_passes [ev] + c * main_passes evs) s'"
      "mg_phase s1 \<noteq> Looping \<longrightarrow> mg_phase s' \<noteq> Looping \<and>
         (\<forall>i < kQueues. mq_locals (mg_sys s') ! i = worker_nexts (turns i evs) (mq_locals (mg_sys s1) ! i))"
    using Cons.IH [OF 1(2,3)] by blast
  have "main_passes (ev # evs) = main_passes [ev] + main_passes evs" "turns i (ev # evs) = turns i [ev] + turns i evs" for i
    by (simp_all add: main_passes_def turns_def)
  then show ?case using 1(1,4) 2 by (intro exI [of _ s'] exI [of _ k']) (simp add: add.assoc worker_nexts_add distrib_left)
qed

lemma prog_run_append: "mq_prog_run mk os (xs @ ys) s = Option.bind (mq_prog_run mk os xs s) (mq_prog_run mk os ys)"
proof (induction xs arbitrary: s)
  case (Cons x xs)
  then show ?case by (cases "mq_prog_step mk os x s") simp_all
qed simp

text \<open>What \<^verbatim>\<open>main\<close> has set up when its loop begins.\<close>

lemma mq_open_start:
  assumes "mq_open mk os iface d mem reg w = Some (Inr s0, mem1, reg1, w1)"
  shows "\<exists>p0. buffer_pool_new mk mem reg 2048 8192 (-1) = Some (Inr p0, reg1, mem1) \<and> mg_sys s0 = mq_start p0 \<and>
    ring_at (mg_ring s0) (mg_slots s0) [] 0 \<and> mg_phase s0 = Looping \<and> mg_reg s0 = reg1 \<and> mg_duration s0 = d \<and>
    mg_start s0 = now_ns os CLOCK_MONOTONIC (mg_world s0)"
  using assms ring_at_new [of "co_ring os" iface 128]
  by (auto simp: mq_open_def Let_def split: option.splits sum.splits prod.splits)

text \<open>Once the loop has been left, a thousand turns of each worker and a join end the program.\<close>

lemma workers_finish:
  assumes "tpacket_kernel os sent" "paced_clock os tm c" "mq_ok (mq_start p0) 0" "pool_returns mk p0 regs" "limit < 2 ^ 63"
    and "prog_ok os sent p0 regs k s" "timed tm t0 limit m s" "mg_phase s \<noteq> Looping" "\<forall>i < kQueues. 1000 \<le> turns i evs"
    and "mq_prog_run mk os (evs @ [Join]) s = Some s'"
  shows "mg_phase s' = Finished"
proof -
  obtain s2 k2 where 2: "mq_prog_run mk os evs s = Some s2" "prog_ok os sent p0 regs k2 s2" "mg_phase s2 \<noteq> Looping"
      "\<forall>i < kQueues. mq_locals (mg_sys s2) ! i = worker_nexts (turns i evs) (mq_locals (mg_sys s) ! i)"
    using prog_run_ok [OF assms(1-7), of evs] assms(8) by auto
  have len: "length (mq_locals (mg_sys s2)) = kQueues"
    using 2(2) core_history_ok(2) [OF assms(3)] by (auto simp: prog_ok_def)
  have "\<not> wl_running (mq_locals (mg_sys s2) ! i)" if "i < kQueues" for i
  proof -
    have "turns i evs = 1000 + (turns i evs - 1000)" using assms(9) that by simp
    then have "mq_locals (mg_sys s2) ! i = worker_nexts (turns i evs - 1000) (worker_nexts 1000 (mq_locals (mg_sys s) ! i))"
      using 2(4) that worker_nexts_add by metis
    then show ?thesis using worker_nexts_1000 [of "mq_locals (mg_sys s) ! i"] worker_nexts_stopped by metis
  qed
  then have stopped: "\<forall>l \<in> set (mq_locals (mg_sys s2)). \<not> wl_running l" using len by (metis in_set_conv_nth)
  have "mq_prog_run mk os [Join] s2 = Some s'"
    using assms(10) 2(1) by (simp add: prog_run_append)
  moreover have "mg_phase s2 = Joining \<or> mg_phase s2 = Finished" using 2(3) by (cases "mg_phase s2") simp_all
  ultimately show ?thesis
    using mq_finish_ok [OF assms(3,4) 2(2) _ stopped] stopped by (auto simp: bind_eq_Some_conv)
qed

text \<open>
  A finite schedule that lets the program end on a clock that advances in every pass: more passes than
  nanoseconds, then a thousand turns for each worker.
\<close>

definition fair_schedule :: "nat \<Rightarrow> prog_event list \<Rightarrow> bool" where
  "fair_schedule n evs \<longleftrightarrow> (\<exists>evs1 evs2. evs = evs1 @ evs2 @ [Join] \<and> limit_ns (int n) < main_passes evs1 \<and>
     (\<forall>i < kQueues. 1000 \<le> turns i evs2))"

lemma fair_schedule_finishes:
  assumes "tpacket_kernel os sent" "paced_clock os tm 1" "mq_ok (mq_start p0) 0" "pool_returns mk p0 regs"
    and "limit_ns (int n) < 2 ^ 63" "prog_ok os sent p0 regs k s" "timed tm t0 (limit_ns (int n)) 0 s"
    and "fair_schedule n evs" "mq_prog_run mk os evs s = Some s'"
  shows "mg_phase s' = Finished"
proof -
  obtain evs1 evs2 where evs: "evs = evs1 @ evs2 @ [Join]" "limit_ns (int n) < main_passes evs1" "\<forall>i < kQueues. 1000 \<le> turns i evs2"
    using assms(8) by (auto simp: fair_schedule_def)
  obtain s1 k1 where 1: "mq_prog_run mk os evs1 s = Some s1" "prog_ok os sent p0 regs k1 s1"
      "timed tm t0 (limit_ns (int n)) (main_passes evs1) s1"
    using prog_run_ok [OF assms(1-7), of evs1] by auto
  have "mg_phase s1 \<noteq> Looping" using 1(3) evs(2) by (auto simp: timed_def)
  moreover have "mq_prog_run mk os (evs2 @ [Join]) s1 = Some s'" using assms(9) 1(1) by (simp add: evs(1) prog_run_append)
  ultimately show ?thesis using workers_finish [OF assms(1-5) 1(2,3) _ evs(3)] by blast
qed

text \<open>An endless schedule in which the main thread, each worker and the join get their turn again and again.\<close>

definition fair_forever :: "(nat \<Rightarrow> prog_event) \<Rightarrow> bool" where
  "fair_forever sched \<longleftrightarrow>
     (\<forall>n. \<forall>ev \<in> {Main_pass, Join} \<union> Worker_pass ` {..<kQueues}. \<exists>j \<ge> n. sched j = ev)"

lemma other_events:
  assumes "mq_prog_run mk os evs s = Some s'" "Main_pass \<notin> set evs" "mg_phase s = Looping"
  shows "mg_phase s' = Looping \<and> mg_world s' = mg_world s"
  using assms
proof (induction evs arbitrary: s)
  case (Cons ev evs)
  then obtain s1 where s1: "mq_prog_step mk os ev s = Some s1" "mq_prog_run mk os evs s1 = Some s'"
    by (auto simp: bind_eq_Some_conv)
  then have "mg_phase s1 = Looping \<and> mg_world s1 = mg_world s"
    using Cons.prems(2,3) by (cases ev) (auto simp: bind_eq_Some_conv)
  then show ?case using Cons.IH [OF s1(2)] Cons.prems(2) by simp
qed simp

lemma upt_split3: "a \<le> j \<Longrightarrow> j < b \<Longrightarrow> [a..<b] = [a..<j] @ j # [Suc j..<b]"
  using upt_add_eq_append [of a j "b - j"] by (simp add: upt_conv_Cons)

lemma loop_ends:
  assumes "tpacket_kernel os sent" "machine_clock os tm" "mq_ok (mq_start p0) 0" "pool_returns mk p0 regs" "limit < 2 ^ 63"
    and "fair_forever sched" "prog_ok os sent p0 regs k s" "timed tm t0 limit 0 s"
  shows "\<exists>b \<ge> a. \<exists>s' k'. mq_prog_run mk os (map sched [a..<b]) s = Some s' \<and> prog_ok os sent p0 regs k' s' \<and>
    timed tm t0 limit 0 s' \<and> mg_phase s' \<noteq> Looping"
  using assms(7,8)
proof (induction "mg_world s" arbitrary: s k a rule: wf_induct_rule [OF pass_wf [OF assms(2), of "t0 + limit"]])
  case 1
  note clk = paced_clock_0 [OF assms(2)]
  show ?case
  proof (cases "mg_phase s = Looping")
    case True
    define j where "j = (LEAST j. a \<le> j \<and> sched j = Main_pass)"
    have ex: "\<exists>j. a \<le> j \<and> sched j = Main_pass" using assms(6) by (auto simp: fair_forever_def)
    have j: "a \<le> j" "sched j = Main_pass" using LeastI_ex [OF ex] unfolding j_def by blast+
    have before: "\<not> (a \<le> i \<and> sched i = Main_pass)" if "i < j" for i using not_less_Least that unfolding j_def by blast
    obtain s1 k1 where s1: "mq_prog_run mk os (map sched [a..<j]) s = Some s1" "prog_ok os sent p0 regs k1 s1" "timed tm t0 limit 0 s1"
      using prog_run_ok [OF assms(1) clk assms(3-5) "1.prems", of "map sched [a..<j]"] by auto
    have "Main_pass \<notin> set (map sched [a..<j])" using before by (auto simp: image_iff) metis
    then have w1: "mg_phase s1 = Looping" "mg_world s1 = mg_world s" using other_events [OF s1(1) _ True] by simp_all
    obtain s2 k2 where s2: "mq_pass os s1 = Some s2" "prog_ok os sent p0 regs k2 s2" "mg_start s2 = mg_start s1"
        "mg_duration s2 = mg_duration s1" "mg_world s2 = snd (co_next os (mg_world s1) (mg_slots s1))"
        "mg_phase s2 = Looping \<longrightarrow> \<not> of_int (mg_duration s1) * 1000000000 \<le> now_ns os CLOCK_MONOTONIC (mg_world s2) - mg_start s1"
      using mq_pass_ok [OF assms(1,3) s1(2) w1(1)] by auto
    have t2: "timed tm t0 limit 0 s2" using main_step_timed [OF clk assms(5) s1(3) w1(1) s2(3-6)] by simp
    have "\<exists>b \<ge> Suc j. \<exists>s' k'. mq_prog_run mk os (map sched [Suc j..<b]) s2 = Some s' \<and> prog_ok os sent p0 regs k' s' \<and>
        timed tm t0 limit 0 s' \<and> mg_phase s' \<noteq> Looping"
    proof (cases "mg_phase s2 = Looping")
      case True
      then have "(mg_world s2, mg_world s) \<in> {(w', w). (\<exists>ss. w' = snd (co_next os w ss)) \<and> tm w' \<le> t0 + limit}"
        using s2(5) w1(2) t2 by (auto simp: timed_def)
      then show ?thesis by (rule "1.hyps" [OF _ s2(2) t2])
    next
      case False
      then show ?thesis using s2(2) t2 by (intro exI [of _ "Suc j"] conjI) auto
    qed
    then obtain b s' k' where b: "Suc j \<le> b" "mq_prog_run mk os (map sched [Suc j..<b]) s2 = Some s'" "prog_ok os sent p0 regs k' s'"
        "timed tm t0 limit 0 s'" "mg_phase s' \<noteq> Looping"
      by blast
    have "mq_prog_run mk os (map sched [a..<b]) s = Some s'"
      using upt_split3 [OF j(1), of b] b(1,2) s1(1) s2(1) w1(1) j(2) by (simp add: prog_run_append)
    then show ?thesis using b j(1) by (intro exI [of _ b]) auto
  next
    case False
    then show ?thesis using "1.prems" by (intro exI [of _ a]) auto
  qed
qed

lemma turns_map_mono: "b \<le> b' \<Longrightarrow> turns i (map sched [a..<b]) \<le> turns i (map sched [a..<b'])"
proof (induction b' rule: dec_induct)
  case (step b')
  then show ?case by (cases "a \<le> b'") (simp_all add: turns_def)
qed simp

lemma turns_come:
  assumes "fair_forever sched" "i < kQueues"
  shows "\<exists>b \<ge> a. m \<le> turns i (map sched [a..<b])"
proof (induction m)
  case 0
  then show ?case by auto
next
  case (Suc m)
  then obtain b where b: "a \<le> b" "m \<le> turns i (map sched [a..<b])" by blast
  obtain j where j: "b \<le> j" "sched j = Worker_pass i" using assms by (auto simp: fair_forever_def)
  have "turns i (map sched [a..<Suc j]) = Suc (turns i (map sched [a..<j]))" using b(1) j by (simp add: turns_def)
  then show ?case using turns_map_mono [OF j(1), of i sched a] b j(1) by (intro exI [of _ "Suc j"]) simp
qed

lemma all_turns_come:
  assumes "fair_forever sched"
  shows "q \<le> kQueues \<Longrightarrow> \<exists>b \<ge> a. \<forall>i < q. m \<le> turns i (map sched [a..<b])"
proof (induction q)
  case (Suc q)
  then obtain b where b: "a \<le> b" "\<forall>i < q. m \<le> turns i (map sched [a..<b])" by auto
  obtain c where c: "a \<le> c" "m \<le> turns q (map sched [a..<c])" using turns_come [OF assms, of q] Suc.prems by auto
  have "m \<le> turns i (map sched [a..<max b c])" if "i < Suc q" for i
    using b(2) c(2) that turns_map_mono [of b "max b c" i sched a] turns_map_mono [of c "max b c" i sched a]
    by (metis less_Suc_eq max.cobounded1 max.cobounded2 order_trans)
  then show ?case using b(1) by (intro exI [of _ "max b c"]) auto
qed auto

lemma fair_forever_finishes:
  assumes "tpacket_kernel os sent" "machine_clock os tm" "mq_ok (mq_start p0) 0" "pool_returns mk p0 regs" "limit < 2 ^ 63"
    and "fair_forever sched" "prog_ok os sent p0 regs k s" "timed tm t0 limit 0 s"
  shows "\<exists>b s' k'. mq_prog_run mk os (map sched [0..<b]) s = Some s' \<and> prog_ok os sent p0 regs k' s' \<and> mg_phase s' = Finished"
proof -
  obtain a s1 k1 where a: "mq_prog_run mk os (map sched [0..<a]) s = Some s1" "prog_ok os sent p0 regs k1 s1"
      "timed tm t0 limit 0 s1" "mg_phase s1 \<noteq> Looping"
    using loop_ends [OF assms, of 0] by blast
  obtain b where b: "a \<le> b" "\<forall>i < kQueues. 1000 \<le> turns i (map sched [a..<b])"
    using all_turns_come [OF assms(6), of kQueues a 1000] by auto
  obtain j where j: "b \<le> j" "sched j = Join" using assms(6) by (auto simp: fair_forever_def)
  have t: "\<forall>i < kQueues. 1000 \<le> turns i (map sched [a..<j])" using b(2) turns_map_mono [OF j(1)] order_trans by blast
  have split: "map sched [0..<Suc j] = map sched [0..<a] @ map sched [a..<j] @ [Join]"
    using b(1) j upt_add_eq_append [of 0 a "j - a"] by simp
  note clk = paced_clock_0 [OF assms(2)]
  obtain s' k' where s': "mq_prog_run mk os (map sched [a..<j] @ [Join]) s1 = Some s'" "prog_ok os sent p0 regs k' s'"
    using prog_run_ok [OF assms(1) clk assms(3-5) a(2,3), of "map sched [a..<j] @ [Join]"] by blast
  have "mg_phase s' = Finished" by (rule workers_finish [OF assms(1) clk assms(3-5) a(2-4) t s'(1)])
  moreover have "mq_prog_run mk os (map sched [0..<Suc j]) s = Some s'" unfolding split using a(1) s'(1) by (simp add: prog_run_append)
  ultimately show ?thesis using s'(2) by blast
qed

section \<open>Properties\<close>

text \<open>
  C5. The multi-queue program as a whole. Under every schedule of the main thread and the workers no
  step leaves an array or a buffer; the core is given the first \<open>k\<close> frames the kernel has put into the ring, in
  order; every buffer is free or in exactly one queue; and the frames are those processed, those dropped at a full
  queue, those lost because the pool was empty and those still queued. Under every endless schedule in which the main
  thread, each worker and the join get their turn again and again the program ends: it has printed the statistics, and the
  ring and the blocks of the pool are given back. If the clock advances in every pass, so does every finite schedule with
  more passes than nanoseconds and then a thousand turns for each worker. This assumes that the kernel fills the ring as
  documented, that the clock does not go back or stand still for ever, and that the kernel's mappings are new and can be
  unmapped.
\<close>

theorem mq_program:
  assumes "mq_open mk os iface (int n) mem reg w = Some (Inr s0, mem1, reg1, w1)" "n < 2 ^ 31"
    and "tpacket_kernel os sent" "sent (mg_world s0) = []" "machine_clock os tm"
    and "p0 = mq_pool (mg_sys s0)" "bp_backing p0 \<noteq> 0" "bp_descriptors p0 \<noteq> 0" "bp_backing p0 \<noteq> bp_descriptors p0"
    and "map_of reg (bp_backing p0) = None" "map_of reg (bp_descriptors p0) = None" "\<And>m q l. fst (os_munmap mk m q l)"
  shows "(\<exists>s k w'. mq_prog_run mk os evs s0 = Some s \<and> k \<le> length (sent w') \<and> core_history p0 (take k (sent w')) (mg_sys s) \<and>
    mset (pool_free (mq_pool (mg_sys s))) + mset (queued (mq_rss (mg_sys s))) = mset [0..<8192] \<and>
    (case print_totals (mq_workers (mg_sys s)) of (processed, dropped, idle) \<Rightarrow>
       processed + dropped + bp_exhausted (mq_pool (mg_sys s)) + of_nat (length (queued (mq_rss (mg_sys s)))) = of_nat k) \<and>
    (paced_clock os tm 1 \<and> fair_schedule n evs \<longrightarrow> mg_phase s = Finished) \<and>
    (mg_phase s = Finished \<longrightarrow> mg_reg s = reg \<and> mg_world s = ring_delete (co_ring os) (mg_ring s) w' \<and>
       (\<exists>out. mg_out s = out @ [Mq_summary (worker_rows (mq_workers (mg_sys s))) (print_totals (mq_workers (mg_sys s)))]))) \<and>
   (fair_forever sched \<longrightarrow> (\<exists>b s. mq_prog_run mk os (map sched [0..<b]) s0 = Some s \<and> mg_phase s = Finished))"
proof -
  obtain p where open0: "buffer_pool_new mk mem reg 2048 8192 (-1) = Some (Inr p, reg1, mem1)" "mg_sys s0 = mq_start p"
      "ring_at (mg_ring s0) (mg_slots s0) [] 0" "mg_phase s0 = Looping" "mg_reg s0 = reg1" "mg_duration s0 = int n"
      "mg_start s0 = now_ns os CLOCK_MONOTONIC (mg_world s0)"
    using mq_open_start [OF assms(1)] by blast
  have p: "p = p0" using assms(6) open0(2) by (simp add: mq_start_def)
  note new = open0(1) [unfolded p]
  have ok: "mq_ok (mq_start p0) 0" "length (bp_descs p0) = 8192" using mq_start_ok [OF new] by simp_all
  have un: "os_munmap mk m q l = (True, snd (os_munmap mk m q l))" for m q l
    using assms(12) [of m q l] by (cases "os_munmap mk m q l") simp
  have ret: "pool_returns mk p0 (reg1, reg)"
    unfolding pool_returns_def fst_conv snd_conv
    using pool_delete_returns [OF new _ assms(7-11) un un] by blast
  have lim: "limit_ns (int n) < 2 ^ 63" using limit_ns_eq [OF assms(2)] assms(2) by simp
  have inv: "prog_ok os sent p0 (reg1, reg) 0 s0"
    using open0 p assms(4) core_history_start [of p0] by (simp add: prog_ok_def)
  have time: "timed tm (tm (mg_world s0)) (limit_ns (int n)) 0 s0"
    using open0(6,7) machine_clockD(1) [OF assms(5)] by (simp add: timed_def)
  note clk = paced_clock_0 [OF assms(5)]
  obtain s k where s: "mq_prog_run mk os evs s0 = Some s" "prog_ok os sent p0 (reg1, reg) k s"
    using prog_run_ok [OF assms(3) clk ok(1) ret lim inv time, of evs] by blast
  obtain w' where w': "mg_world s = (if mg_phase s = Finished then ring_delete (co_ring os) (mg_ring s) w' else w')"
      "ring_at (mg_ring s) (mg_slots s) (sent w') k" "core_history p0 (take k (sent w')) (mg_sys s)"
    using s(2) by (auto simp: prog_ok_def)
  have k: "k \<le> length (sent w')" by (rule ring_atD(3) [OF w'(2)])
  obtain mevs where m: "mq_run count_callback mevs (mq_start p0) = Some (mg_sys s)" "\<forall>ev \<in> set mevs. arrival_ok ev"
    using w'(3) by (auto simp: core_history_def)
  have "length (bp_descs (mq_pool (mg_sys s))) = 8192"
    using mq_run_ok [OF ok(1) m(2), of count_callback] m(1) ok(2) by (auto simp: mq_start_def)
  then have acc: "mset (pool_free (mq_pool (mg_sys s))) + mset (queued (mq_rss (mg_sys s))) = mset [0..<8192]"
    "total_of ws_processed (mq_workers (mg_sys s)) + total_of ws_dropped (mq_workers (mg_sys s)) +
       bp_exhausted (mq_pool (mg_sys s)) + of_nat (length (queued (mq_rss (mg_sys s)))) = of_nat k"
    using core_history_ok(1) [OF ok(1) w'(3)] k by (simp_all add: mq_ok_def core_ok_def)
  have fin: "paced_clock os tm 1 \<and> fair_schedule n evs \<longrightarrow> mg_phase s = Finished"
    using fair_schedule_finishes [OF assms(3) _ ok(1) ret lim inv time _ s(1)] by blast
  have endless: "fair_forever sched \<longrightarrow> (\<exists>b s. mq_prog_run mk os (map sched [0..<b]) s0 = Some s \<and> mg_phase s = Finished)"
    using fair_forever_finishes [OF assms(3,5) ok(1) ret lim _ inv time] by blast
  have over: "mg_phase s = Finished \<longrightarrow> mg_reg s = reg \<and> mg_world s = ring_delete (co_ring os) (mg_ring s) w' \<and>
      (\<exists>out. mg_out s = out @ [Mq_summary (worker_rows (mq_workers (mg_sys s))) (print_totals (mq_workers (mg_sys s)))])"
    using s(2) w'(1) by (auto simp: prog_ok_def)
  show ?thesis
    by (rule conjI [OF _ endless], intro exI [of _ s] exI [of _ k] exI [of _ w'] conjI)
      (use s(1) w'(3) k acc fin over in \<open>simp_all add: print_totals_eq\<close>)
qed

text \<open>
  The machine of \<^verbatim>\<open>Capture_Main\<close> with a kernel that grants one mapping after the other, for two seconds with a
  frame to come, and the schedule that gives everyone a turn in a circle.
\<close>

definition round_robin :: "nat \<Rightarrow> prog_event" where
  "round_robin j = [Main_pass, Worker_pass 0, Worker_pass 1, Worker_pass 2, Worker_pass 3, Join] ! (j mod 6)"

lemma round_robin_fair: "fair_forever round_robin"
  unfolding fair_forever_def
proof (intro allI ballI)
  fix n ev assume "ev \<in> {Main_pass, Join} \<union> Worker_pass ` {..<kQueues}"
  moreover have "{..<kQueues} = {0, 1, 2, 3}" by (auto simp: kQueues_def)
  ultimately have "\<exists>i \<in> {0, 1, 2, 3, 4, 5}. ev = round_robin i" by (auto simp: round_robin_def)
  then obtain i where "ev = round_robin i" by blast
  then show "\<exists>j \<ge> n. round_robin j = ev" by (intro exI [of _ "6 * n + i"]) (simp add: round_robin_def)
qed

lemma demo_open:
  fixes w :: "nat \<times> ring_slot list \<times> ring_slot list"
  shows "\<exists>s0 mem1 reg1. mq_open bump_os demo_machine ''eth0'' (int n) 4096 [] w = Some (Inr s0, mem1, reg1, w) \<and>
    mg_world s0 = w \<and> bp_backing (mq_pool (mg_sys s0)) = 4096 \<and> bp_descriptors (mq_pool (mg_sys s0)) = 16781312"
proof -
  obtain p reg1 mem1 where new: "buffer_pool_new bump_os 4096 [] 2048 8192 (-1) = Some (Inr p, reg1, mem1)"
    using bump_pool_new [of 2048 8192] by auto
  have b: "bp_backing p = 4096" "bp_descriptors p = 16781312"
    using bump_blocks [OF new] by (simp_all add: round_up_def HUGE_PAGE_SIZE_def)
  obtain r where r: "ring_new demo_ring_os ''eth0'' 128 w = (Inr r, w)" "set_busy_poll demo_ring_os r 50 w = (Inr (), w)"
    using demo_ring [of w] by (elim exE conjE)
  have os: "co_ring demo_machine = demo_ring_os" by (simp add: demo_machine_def)
  define start where "start = now_ns demo_machine CLOCK_MONOTONIC w"
  let ?s0 = "\<lparr>mg_ring = r, mg_slots = mapped_slots r, mg_sys = mq_start p, mg_start = start, mg_duration = int n,
    mg_last_tick = start, mg_phase = Looping, mg_out = [], mg_world = w, mg_mem = mem1, mg_reg = reg1\<rparr>"
  have "mq_open bump_os demo_machine ''eth0'' (int n) 4096 [] w = Some (Inr ?s0, mem1, reg1, w)"
    unfolding mq_open_def new os by (simp add: r Let_def flip: start_def)
  then show ?thesis using b by (intro exI [of _ ?s0] exI [of _ mem1] exI [of _ reg1]) (simp add: mq_start_def)
qed

theorem mq_program_witness:
  "\<exists>s0 s b mem1 reg1 w1 out. mq_open bump_os demo_machine ''eth0'' (int 2) 4096 [] (0, [demo_slot demo_frame], []) = Some (Inr s0, mem1, reg1, w1) \<and>
     mq_prog_run bump_os demo_machine (map round_robin [0..<b]) s0 = Some s \<and> mg_phase s = Finished \<and> mg_reg s = [] \<and>
     mg_out s = out @ [Mq_summary (worker_rows (mq_workers (mg_sys s))) (print_totals (mq_workers (mg_sys s)))]"
proof -
  let ?w = "(0, [demo_slot demo_frame], []) :: nat \<times> ring_slot list \<times> ring_slot list"
  obtain s0 mem1 reg1 where o: "mq_open bump_os demo_machine ''eth0'' (int 2) 4096 [] ?w = Some (Inr s0, mem1, reg1, ?w)" "mg_world s0 = ?w"
      "bp_backing (mq_pool (mg_sys s0)) = 4096" "bp_descriptors (mq_pool (mg_sys s0)) = 16781312"
    using demo_open [of 2 ?w] by (elim exE conjE)
  have w: "snd (snd (mg_world s0)) = []" "(2 :: nat) < 2 ^ 31" using o(2) by simp_all
  have un: "fst (os_munmap bump_os m q l)" for m q l by (simp add: bump_os_def)
  have p: "bp_backing (mq_pool (mg_sys s0)) \<noteq> 0" "bp_descriptors (mq_pool (mg_sys s0)) \<noteq> 0"
      "bp_backing (mq_pool (mg_sys s0)) \<noteq> bp_descriptors (mq_pool (mg_sys s0))"
      "map_of [] (bp_backing (mq_pool (mg_sys s0))) = (None :: alloc_info option)"
      "map_of [] (bp_descriptors (mq_pool (mg_sys s0))) = (None :: alloc_info option)"
    using o(3,4) by simp_all
  note run = mq_program [OF o(1) w(2) demo_kernel w(1) demo_clock refl p un]
  obtain b s where b: "mq_prog_run bump_os demo_machine (map round_robin [0..<b]) s0 = Some s" "mg_phase s = Finished"
    using run [of "[]" round_robin] round_robin_fair by blast
  then obtain out where "mg_reg s = []" "mg_out s = out @ [Mq_summary (worker_rows (mq_workers (mg_sys s))) (print_totals (mq_workers (mg_sys s)))]"
    using run [of "map round_robin [0..<b]" round_robin] by auto
  then show ?thesis using o(1) b by blast
qed

end
