(* ===== verification/Rdtsc.thy ===== *)
theory Rdtsc
  imports Binary64
begin

text \<open>
  \<^verbatim>\<open>include/rdtsc.h\<close>: the time-stamp counter and its calibration against the monotonic clock. The
  processor's counter, \<^verbatim>\<open>clock_gettime\<close> and \<^verbatim>\<open>nanosleep\<close> are the parameter \<open>clk\<close> on a state \<open>'w\<close>; the
  function-local \<^verbatim>\<open>static double cached\<close> is passed in and out.
\<close>

record 'w clock =
  ck_tsc :: "'w \<Rightarrow> u64 \<times> 'w"
  ck_gettime :: "'w \<Rightarrow> (u64 \<times> u64) \<times> 'w"
  ck_sleep :: "'w \<Rightarrow> 'w"

definition rdtsc :: "'w clock \<Rightarrow> 'w \<Rightarrow> u64 \<times> 'w" where
  "rdtsc clk w = ck_tsc clk w"

definition rdtscp :: "'w clock \<Rightarrow> 'w \<Rightarrow> u64 \<times> 'w" where
  "rdtscp clk w = ck_tsc clk w"

definition mono_ns :: "'w clock \<Rightarrow> 'w \<Rightarrow> u64 \<times> 'w" where
  "mono_ns clk w = (case ck_gettime clk w of ((sec, nsec), w1) \<Rightarrow> (sec * 1000000000 + nsec, w1))"

definition tsc_frequency_ghz :: "'w clock \<Rightarrow> rat \<times> 'w \<Rightarrow> (rat \<times> rat \<times> 'w) option" where
  "tsc_frequency_ghz clk = (\<lambda>(cached, w).
     if cached \<noteq> 0 then Some (cached, cached, w)
     else
       (let (c0, w1) = rdtsc clk w;
            (n0, w2) = mono_ns clk w1;
            w3 = ck_sleep clk w2;
            (c1, w4) = rdtsc clk w3;
            (n1, w5) = mono_ns clk w4
        in case ddiv (double_of (c1 - c0)) (double_of (n1 - n0)) of
             None \<Rightarrow> None
           | Some f \<Rightarrow> Some (f, f, w5)))"

definition cycles_to_ns :: "'w clock \<Rightarrow> rat \<times> 'w \<Rightarrow> u64 \<Rightarrow> (rat \<times> rat \<times> 'w) option" where
  "cycles_to_ns clk st cycles =
     (case tsc_frequency_ghz clk st of
        None \<Rightarrow> None
      | Some (f, cached, w) \<Rightarrow>
          (case ddiv (double_of cycles) f of None \<Rightarrow> None | Some ns \<Rightarrow> Some (ns, cached, w)))"

text \<open>Once calibrated, the clock is not consulted again.\<close>

lemma cycles_to_ns_cached:
  "f \<noteq> 0 \<Longrightarrow> cycles_to_ns clk (f, w) cycles = Some (dround (double_of cycles / f), f, w)"
  by (simp add: cycles_to_ns_def tsc_frequency_ghz_def ddiv_def)

text \<open>Three roundings: of both operands and of the quotient.\<close>

lemma ddiv_error:
  assumes "b \<noteq> 0"
  obtains q where "ddiv (double_of a) (double_of b) = Some q"
    "of_nat (unat a) / of_nat (unat b) * (1 - 1 / 2 ^ 51) \<le> q"
    "q \<le> of_nat (unat a) / of_nat (unat b) * (1 + 1 / 2 ^ 51)"
proof -
  let ?e = "1 / 2 ^ 53 :: rat"
  define A B :: rat where "A = of_nat (unat a)" and "B = of_nat (unat b)"
  let ?x = "double_of a" and ?y = "double_of b"
  have b: "0 < B" using assms unfolding B_def by (simp only: of_nat_0_less_iff unat_gt_0 simp_thms)
  have x: "A * (1 - ?e) \<le> ?x" "?x \<le> A * (1 + ?e)" and y: "B * (1 - ?e) \<le> ?y" "?y \<le> B * (1 + ?e)"
    unfolding A_def B_def by (rule double_of_bounds)+
  have "0 \<le> A" by (simp only: A_def of_nat_0_le_iff)
  have "0 < B * (1 - ?e)" using b by simp
  then have y0: "0 < ?y" using y(1) by linarith
  have x0: "0 \<le> ?x" unfolding double_of_def by (rule dround_nonneg) (rule of_nat_0_le_iff)
  have "A * (1 - ?e) / (B * (1 + ?e)) \<le> ?x / ?y"
    using x x0 y y0 b \<open>0 \<le> A\<close> by (intro frac_le) auto
  then have lo: "A / B * ((1 - ?e) / (1 + ?e)) \<le> ?x / ?y" by (simp add: field_simps)
  have "?x / ?y \<le> A * (1 + ?e) / (B * (1 - ?e))"
    using x x0 y b \<open>0 \<le> A\<close> by (intro frac_le) auto
  then have up: "?x / ?y \<le> A / B * ((1 + ?e) / (1 - ?e))" by (simp add: field_simps)
  have q0: "0 \<le> A / B" using b \<open>0 \<le> A\<close> by simp
  have r: "?x / ?y * (1 - ?e) \<le> dround (?x / ?y)" "dround (?x / ?y) \<le> ?x / ?y * (1 + ?e)"
    using dround_bounds [of "?x / ?y"] x0 y0 by auto
  have "A / B * (1 - 1 / 2 ^ 51) \<le> A / B * ((1 - ?e) / (1 + ?e) * (1 - ?e))"
    using q0 by (intro mult_left_mono) simp_all
  also have "\<dots> = A / B * ((1 - ?e) / (1 + ?e)) * (1 - ?e)" by (simp only: mult.assoc)
  also have "\<dots> \<le> ?x / ?y * (1 - ?e)" using lo by (intro mult_right_mono) simp_all
  also note r(1)
  finally have 1: "A / B * (1 - 1 / 2 ^ 51) \<le> dround (?x / ?y)" .
  note r(2)
  also have "?x / ?y * (1 + ?e) \<le> A / B * ((1 + ?e) / (1 - ?e)) * (1 + ?e)" using up by (intro mult_right_mono) simp_all
  also have "\<dots> = A / B * ((1 + ?e) / (1 - ?e) * (1 + ?e))" by (simp only: mult.assoc)
  also have "\<dots> \<le> A / B * (1 + 1 / 2 ^ 51)" using q0 by (intro mult_left_mono) simp_all
  finally have "dround (?x / ?y) \<le> A / B * (1 + 1 / 2 ^ 51)" .
  with 1 show thesis using y0 by (intro that [of "dround (?x / ?y)"]) (simp_all only: ddiv_def A_def B_def, simp)
qed

end
