(* ===== verification/Latency_Histogram.thy ===== *)
theory Latency_Histogram
  imports Rdtsc
begin

text \<open>
  \<^verbatim>\<open>LatencyHistogram\<close> of \<^verbatim>\<open>include/perf_counters.h\<close> and \<^verbatim>\<open>src/perf_counters.cpp\<close>: samples in nanoseconds are
  counted in 3701 buckets of four widths; percentiles and the printed rows are computed from the counts.
  \<open>None\<close> is an index outside the bucket array or a conversion without a result. \<^verbatim>\<open>print\<close> returns what is
  printed, as a value of type \<open>hist_output\<close>.
\<close>

section \<open>The code\<close>

definition kR0 :: u64 where "kR0 = 1000"
definition kR1 :: u64 where "kR1 = 1900"
definition kR2 :: u64 where "kR2 = 2800"
definition kR3 :: u64 where "kR3 = 3700"
definition kOverflow :: u64 where "kOverflow = 3700"
definition kNumBuckets :: nat where "kNumBuckets = 3701"

definition ns_to_bucket :: "u64 \<Rightarrow> u64" where
  "ns_to_bucket ns =
     (if ns < 1000 then ns
      else if ns < 10000 then kR0 + (ns - 1000) div 10
      else if ns < 100000 then kR1 + (ns - 10000) div 100
      else if ns < 1000000 then kR2 + (ns - 100000) div 1000
      else kOverflow)"

definition bucket_lo_ns :: "u64 \<Rightarrow> u64" where
  "bucket_lo_ns i =
     (if i < kR0 then i
      else if i < kR1 then 1000 + (i - kR0) * 10
      else if i < kR2 then 10000 + (i - kR1) * 100
      else if i < kR3 then 100000 + (i - kR2) * 1000
      else 1000000)"

definition bucket_step_ns :: "u64 \<Rightarrow> u64" where
  "bucket_step_ns i =
     (if i < kR0 then 1 else if i < kR1 then 10 else if i < kR2 then 100 else if i < kR3 then 1000 else 0)"

record latency_histogram =
  lh_buckets :: "u64 list"
  lh_count :: u64
  lh_sum_ns :: u64
  lh_max_ns :: u64

definition hist_new :: latency_histogram where
  "hist_new = \<lparr>lh_buckets = replicate kNumBuckets 0, lh_count = 0, lh_sum_ns = 0, lh_max_ns = 0\<rparr>"

text \<open>\<^verbatim>\<open>record\<close>, from the sample in nanoseconds on and as a whole.\<close>

definition add_sample :: "latency_histogram \<Rightarrow> u64 \<Rightarrow> latency_histogram option" where
  "add_sample h ns =
     (let b = unat (ns_to_bucket ns) in
      if b < length (lh_buckets h) then
        Some \<lparr>lh_buckets = (lh_buckets h)[b := lh_buckets h ! b + 1], lh_count = lh_count h + 1,
              lh_sum_ns = lh_sum_ns h + ns, lh_max_ns = (if lh_max_ns h < ns then ns else lh_max_ns h)\<rparr>
      else None)"

definition hist_record ::
  "'w clock \<Rightarrow> latency_histogram \<times> rat \<times> 'w \<Rightarrow> u64 \<Rightarrow> u64 \<Rightarrow> (latency_histogram \<times> rat \<times> 'w) option" where
  "hist_record clk = (\<lambda>(h, cached, w) start_tsc end_tsc.
     if end_tsc \<le> start_tsc then Some (h, cached, w)
     else
       (case cycles_to_ns clk (cached, w) (end_tsc - start_tsc) of
          None \<Rightarrow> None
        | Some (d, cached', w') \<Rightarrow>
            (case u64_of d of
               None \<Rightarrow> None
             | Some ns \<Rightarrow> (case add_sample h ns of None \<Rightarrow> None | Some h' \<Rightarrow> Some (h', cached', w')))))"

fun pct_loop :: "u64 list \<Rightarrow> u64 \<Rightarrow> u64 \<Rightarrow> u64 \<Rightarrow> u64 option" where
  "pct_loop [] i cum target = None"
| "pct_loop (b # bs) i cum target =
     (if target + 1 \<le> cum + b then Some (bucket_lo_ns i + bucket_step_ns i div 2)
      else pct_loop bs (i + 1) (cum + b) target)"

definition percentile_ns :: "latency_histogram \<Rightarrow> rat \<Rightarrow> u64 option" where
  "percentile_ns h p =
     (if lh_count h = 0 then Some 0
      else
        (case u64_of (dmul p (double_of (lh_count h))) of
           None \<Rightarrow> None
         | Some target \<Rightarrow>
             (case pct_loop (lh_buckets h) 0 0 target of None \<Rightarrow> Some (lh_max_ns h) | Some ns \<Rightarrow> Some ns)))"

definition edges :: "u64 list" where
  "edges = [100, 250, 500, 1000, 2500, 5000, 10000, 25000, 50000, 100000, 250000, 500000, 1000000, -1]"

definition row_labels :: "string list" where
  "row_labels = [''  <100ns'', ''100-250ns'', ''250-500ns'', ''0.5-1us'', ''1-2.5us'', ''2.5-5us'', ''5-10us'',
     ''10-25us'', ''25-50us'', ''50-100us'', ''0.1-0.25ms'', ''0.25-0.5ms'', ''0.5-1ms'', ''  >1ms'']"

text \<open>The inner loop: the first row whose edge lies above \<^verbatim>\<open>lo\<close> takes the bucket.\<close>

fun add_row :: "u64 list \<Rightarrow> u64 \<Rightarrow> u64 \<Rightarrow> u64 list \<Rightarrow> u64 list" where
  "add_row (e # es) lo b (r # rs) = (if lo < e then (r + b) # rs else r # add_row es lo b rs)"
| "add_row es lo b rs = rs"

fun row_loop :: "u64 list \<Rightarrow> u64 \<Rightarrow> u64 list \<Rightarrow> u64 list" where
  "row_loop [] i rows = rows"
| "row_loop (b # bs) i rows =
     row_loop bs (i + 1) (if b = 0 then rows else add_row edges (bucket_lo_ns i) b rows)"

definition hist_rows :: "latency_histogram \<Rightarrow> u64 list" where
  "hist_rows h = row_loop (lh_buckets h) 0 (replicate (length edges) 0)"

definition row_bars :: "u64 list \<Rightarrow> u64 \<Rightarrow> nat" where
  "row_bars rows r =
     (let rmax = foldl (\<lambda>m r. if m < r then r else m) 1 rows in unat (r * 40 div rmax))"

datatype hist_output =
    No_samples
  | Report u64 "u64 list" u64 u64 "(string \<times> u64 \<times> nat) list"
      \<comment> \<open>samples, percentiles, maximum, mean, rows with their bars\<close>

definition percentile_points :: "rat list" where
  "percentile_points = map dround [1 / 2, 9 / 10, 99 / 100, 999 / 1000, 9999 / 10000]"

definition hist_print :: "latency_histogram \<Rightarrow> hist_output option" where
  "hist_print h =
     (if lh_count h = 0 then Some No_samples
      else
        (case those (map (percentile_ns h) percentile_points) of
           None \<Rightarrow> None
         | Some ps \<Rightarrow>
             (let rows = hist_rows h in
              Some (Report (lh_count h) ps (lh_max_ns h) (lh_sum_ns h div lh_count h)
                (map2 (\<lambda>l r. (l, r, row_bars rows r)) row_labels rows)))))"

section \<open>The buckets\<close>

text \<open>The same functions on naturals.\<close>

definition bucket :: "nat \<Rightarrow> nat" where
  "bucket n = (if n < 1000 then n else if n < 10000 then 1000 + (n - 1000) div 10
     else if n < 100000 then 1900 + (n - 10000) div 100
     else if n < 1000000 then 2800 + (n - 100000) div 1000 else 3700)"

definition bucket_lo :: "nat \<Rightarrow> nat" where
  "bucket_lo i = (if i < 1000 then i else if i < 1900 then 1000 + (i - 1000) * 10
     else if i < 2800 then 10000 + (i - 1900) * 100
     else if i < 3700 then 100000 + (i - 2800) * 1000 else 1000000)"

definition bucket_mid :: "nat \<Rightarrow> nat" where
  "bucket_mid i = bucket_lo i + (if i < 1000 then 0 else if i < 1900 then 5 else if i < 2800 then 50
     else if i < 3700 then 500 else 0)"

lemmas bucket_bounds = kR0_def kR1_def kR2_def kR3_def kOverflow_def

lemma unat_less_u64: "x < y \<longleftrightarrow> unat x < unat (y :: u64)"
  by (simp add: word_less_nat_alt)

lemma unat_minus_u64: "y \<le> x \<Longrightarrow> unat (x - y) = unat x - unat (y :: u64)"
  by (simp add: unat_sub)

lemma unat_plus_u64: "unat x + unat y < 2 ^ 64 \<Longrightarrow> unat (x + y) = unat x + unat (y :: u64)"
  by (simp add: unat_word_ariths)

lemma unat_times_u64: "unat x * unat y < 2 ^ 64 \<Longrightarrow> unat (x * y) = unat x * unat (y :: u64)"
  by (simp add: unat_word_ariths)

lemma of_nat_le_u64: "m < 2 ^ 64 \<Longrightarrow> n < 2 ^ 64 \<Longrightarrow> (of_nat m \<le> (of_nat n :: u64)) = (m \<le> n)"
  by (simp add: word_le_nat_alt unat_of_nat_mod)

lemma unat_segment:
  fixes x :: u64
  assumes "\<not> x < lo" "unat k + unat x < 2 ^ 64"
  shows "unat (k + (x - lo) div d) = unat k + (unat x - unat lo) div unat d"
proof -
  have "unat ((x - lo) div d) = (unat x - unat lo) div unat d"
    using assms(1) by (simp add: unat_div unat_minus_u64)
  moreover have "(unat x - unat lo) div unat d \<le> unat x"
    using div_le_dividend [of "unat x - unat lo" "unat d"] by linarith
  ultimately show ?thesis using assms(2) by (subst unat_plus_u64) linarith+
qed

lemma unat_ns_to_bucket: "unat (ns_to_bucket ns) = bucket (unat ns)"
proof -
  consider "unat ns < 1000" | "1000 \<le> unat ns" "unat ns < 10000" | "10000 \<le> unat ns" "unat ns < 100000"
    | "100000 \<le> unat ns" "unat ns < 1000000" | "1000000 \<le> unat ns"
    by linarith
  then show ?thesis
    by cases (simp_all add: ns_to_bucket_def bucket_def unat_less_u64 bucket_bounds unat_segment)
qed

text \<open>A sample by its range, its bucket in the range and its offset in the bucket.\<close>

lemma segment_split:
  assumes "lo \<le> n" "n < lo + w * d" "0 < (d :: nat)"
  obtains q r where "n = lo + d * q + r" "q < w" "r < d" "(n - lo) div d = q"
proof
  let ?q = "(n - lo) div d" and ?r = "(n - lo) mod d"
  show "n = lo + d * ?q + ?r" using assms(1) by (simp add: add.assoc)
  show "?q < w" using assms(1,2) by (intro less_mult_imp_div_less) linarith
  show "?r < d" using assms(3) by simp
qed (rule refl)

lemma bucket_cases:
  obtains (ns1) "n < 1000" "bucket n = n"
  | (ns10) q r where "n = 1000 + 10 * q + r" "r < 10" "q < 900" "bucket n = 1000 + q"
  | (ns100) q r where "n = 10000 + 100 * q + r" "r < 100" "q < 900" "bucket n = 1900 + q"
  | (us1) q r where "n = 100000 + 1000 * q + r" "r < 1000" "q < 900" "bucket n = 2800 + q"
  | (over) "1000000 \<le> n" "bucket n = 3700"
proof -
  consider "n < 1000" | "1000 \<le> n" "n < 10000" | "10000 \<le> n" "n < 100000"
    | "100000 \<le> n" "n < 1000000" | "1000000 \<le> n"
    by linarith
  then show thesis
  proof cases
    case 1
    then show ?thesis by (intro ns1) (simp_all add: bucket_def)
  next
    case 2
    then show ?thesis by (elim segment_split [of 1000 n 900 10]) (simp_all add: bucket_def ns10)
  next
    case 3
    then show ?thesis by (elim segment_split [of 10000 n 900 100]) (simp_all add: bucket_def ns100)
  next
    case 4
    then show ?thesis by (elim segment_split [of 100000 n 900 1000]) (simp_all add: bucket_def us1)
  next
    case 5
    then show ?thesis by (intro over) (simp_all add: bucket_def)
  qed
qed

lemma bucket_less: "bucket n < 3701"
  by (cases n rule: bucket_cases) auto

lemma bucket_mono: "m \<le> n \<Longrightarrow> bucket m \<le> bucket n"
  by (cases n rule: bucket_cases; cases m rule: bucket_cases) linarith+

text \<open>The middle of a bucket is the sample below a microsecond, within half a percent below a millisecond.\<close>

lemma bucket_mid_simps:
  "n < 1000 \<Longrightarrow> bucket_mid n = n"
  "q < 900 \<Longrightarrow> bucket_mid (1000 + q) = 1005 + 10 * q"
  "q < 900 \<Longrightarrow> bucket_mid (1900 + q) = 10050 + 100 * q"
  "q < 900 \<Longrightarrow> bucket_mid (2800 + q) = 100500 + 1000 * q"
  "bucket_mid 3700 = 1000000"
  by (simp_all add: bucket_mid_def bucket_lo_def)

lemma bucket_lo_simps:
  "n < 1000 \<Longrightarrow> bucket_lo n = n"
  "q < 900 \<Longrightarrow> bucket_lo (1000 + q) = 1000 + 10 * q"
  "q < 900 \<Longrightarrow> bucket_lo (1900 + q) = 10000 + 100 * q"
  "q < 900 \<Longrightarrow> bucket_lo (2800 + q) = 100000 + 1000 * q"
  "bucket_lo 3700 = 1000000"
  by (simp_all add: bucket_lo_def)

lemma bucket_range:
  obtains (ns1) "n < 1000" "bucket_mid (bucket n) = n" "bucket_lo (bucket n) = n"
  | (ns10) q r where "n = 1000 + 10 * q + r" "r < 10" "q < 900" "bucket_mid (bucket n) = 1005 + 10 * q"
      "bucket_lo (bucket n) = 1000 + 10 * q"
  | (ns100) q r where "n = 10000 + 100 * q + r" "r < 100" "q < 900" "bucket_mid (bucket n) = 10050 + 100 * q"
      "bucket_lo (bucket n) = 10000 + 100 * q"
  | (us1) q r where "n = 100000 + 1000 * q + r" "r < 1000" "q < 900" "bucket_mid (bucket n) = 100500 + 1000 * q"
      "bucket_lo (bucket n) = 100000 + 1000 * q"
  | (over) "1000000 \<le> n" "bucket_mid (bucket n) = 1000000" "bucket_lo (bucket n) = 1000000"
  by (cases n rule: bucket_cases) (metis bucket_mid_simps bucket_lo_simps)+

definition within_half_percent :: "nat \<Rightarrow> nat \<Rightarrow> bool" where
  "within_half_percent r n \<longleftrightarrow> 200 * r \<le> 201 * n \<and> 199 * n \<le> 200 * r"

lemma bucket_mid_error:
  shows "n < 1000 \<Longrightarrow> bucket_mid (bucket n) = n"
    and "n < 1000000 \<Longrightarrow> within_half_percent (bucket_mid (bucket n)) n"
    and "1000000 \<le> n \<Longrightarrow> bucket_mid (bucket n) = 1000000"
proof -
  show "n < 1000 \<Longrightarrow> bucket_mid (bucket n) = n" by (cases n rule: bucket_range) linarith+
  show "within_half_percent (bucket_mid (bucket n)) n" if "n < 1000000"
    unfolding within_half_percent_def using that by (cases n rule: bucket_range) (intro conjI; linarith)+
  show "1000000 \<le> n \<Longrightarrow> bucket_mid (bucket n) = 1000000" by (cases n rule: bucket_range) linarith+
qed

lemma segment_less:
  assumes "r < (d :: nat)"
  shows "c + d * q + r < c + d * k \<longleftrightarrow> c + d * q < c + d * k"
proof
  assume "c + d * q < c + d * k"
  then have "Suc q \<le> k" by simp
  then have "d * Suc q \<le> d * k" by (rule mult_le_mono2)
  then show "c + d * q + r < c + d * k" using assms by simp
qed linarith

text \<open>An edge of the printed rows does not cut a bucket.\<close>

lemma bucket_cut:
  assumes "n = c + d * q + r" "r < (d :: nat)" "q < 900" "lo = c + d * q" "(\<exists>k. e = c + d * k) \<or> e \<le> c \<or> c + d * 900 \<le> e"
  shows "lo < e \<longleftrightarrow> n < e"
  using assms(5)
proof (elim disjE exE)
  fix k assume "e = c + d * k"
  then show ?thesis using segment_less [OF assms(2), of c q k] by (simp only: assms(1,4))
next
  assume "c + d * 900 \<le> e"
  moreover have "d * Suc q \<le> d * 900" using assms(3) by (intro mult_le_mono2) simp
  ultimately show ?thesis using assms(1,2,4) unfolding mult_Suc_right by linarith
qed (use assms in linarith)

lemma bucket_lo_less:
  assumes "e \<in> {100, 250, 500, 1000, 2500, 5000, 10000, 25000, 50000, 100000, 250000, 500000, 1000000}"
  shows "bucket_lo (bucket n) < e \<longleftrightarrow> n < e"
proof -
  have e: "(\<exists>k. e = 1000 + 10 * k) \<or> e \<le> 1000 \<or> 1000 + 10 * 900 \<le> e"
    "(\<exists>k. e = 10000 + 100 * k) \<or> e \<le> 10000 \<or> 10000 + 100 * 900 \<le> e"
    "(\<exists>k. e = 100000 + 1000 * k) \<or> e \<le> 100000 \<or> 100000 + 1000 * 900 \<le> e" "e \<le> 1000000"
    using assms by auto
  show ?thesis
    by (cases n rule: bucket_range)
      (simp_all only: bucket_cut [OF _ _ _ _ e(1)] bucket_cut [OF _ _ _ _ e(2)] bucket_cut [OF _ _ _ _ e(3)], use e(4) in linarith)
qed

lemma unat_bucket_mid:
  assumes "i < 3701"
  shows "bucket_lo_ns (of_nat i) + bucket_step_ns (of_nat i) div 2 = of_nat (bucket_mid i)"
    and "bucket_lo_ns (of_nat i) = of_nat (bucket_lo i)"
proof -
  have less: "(of_nat i < (c :: u64)) = (i < unat c)" for c
    using assms by (simp add: unat_less_u64 unat_of_nat_mod)
  consider "i < 1000" | "1000 \<le> i" "i < 1900" | "1900 \<le> i" "i < 2800" | "2800 \<le> i" "i < 3700" | "3700 \<le> i"
    by linarith
  then show "bucket_lo_ns (of_nat i) = of_nat (bucket_lo i)"
    by cases (simp_all add: bucket_lo_ns_def bucket_lo_def bucket_bounds less of_nat_diff)
  then show "bucket_lo_ns (of_nat i) + bucket_step_ns (of_nat i) div 2 = of_nat (bucket_mid i)"
    by (simp add: bucket_step_ns_def bucket_mid_def bucket_bounds less)
qed

section \<open>A histogram of a list of samples\<close>

definition in_bucket :: "u64 list \<Rightarrow> nat \<Rightarrow> nat" where
  "in_bucket xs i = length (filter (\<lambda>x. bucket (unat x) = i) xs)"

definition hist_of :: "u64 list \<Rightarrow> latency_histogram \<Rightarrow> bool" where
  "hist_of xs h \<longleftrightarrow> length (lh_buckets h) = 3701 \<and> (\<forall>i < 3701. lh_buckets h ! i = of_nat (in_bucket xs i)) \<and>
     lh_count h = of_nat (length xs) \<and> lh_sum_ns h = sum_list xs \<and> lh_max_ns h = foldl max 0 xs"

fun add_samples :: "latency_histogram \<Rightarrow> u64 list \<Rightarrow> latency_histogram option" where
  "add_samples h [] = Some h"
| "add_samples h (x # xs) = (case add_sample h x of None \<Rightarrow> None | Some h' \<Rightarrow> add_samples h' xs)"

lemma hist_of_new: "hist_of [] hist_new"
  by (simp add: hist_of_def hist_new_def kNumBuckets_def in_bucket_def)

lemma in_bucket_snoc: "in_bucket (xs @ [x]) i = in_bucket xs i + (if bucket (unat x) = i then 1 else 0)"
  by (simp add: in_bucket_def)

lemma add_sample_ok:
  assumes "hist_of xs h"
  shows "\<exists>h'. add_sample h x = Some h' \<and> hist_of (xs @ [x]) h'"
  using assms bucket_less [of "unat x"]
  by (auto simp: hist_of_def add_sample_def Let_def unat_ns_to_bucket in_bucket_snoc nth_list_update max_def)

lemma add_samples_ok:
  assumes "hist_of xs h"
  shows "\<exists>h'. add_samples h ys = Some h' \<and> hist_of (xs @ ys) h'"
  using assms
proof (induction ys arbitrary: xs h)
  case (Cons y ys)
  obtain h1 where "add_sample h y = Some h1" "hist_of (xs @ [y]) h1" using add_sample_ok [OF Cons.prems] by blast
  with Cons.IH [of "xs @ [y]" h1] show ?case by simp
qed simp

section \<open>Percentiles\<close>

text \<open>Fewer than \<open>k + 1\<close> of the elements lie in the first buckets exactly when the \<open>k\<close>-th smallest does not.\<close>

lemma nth_sorted_filter:
  assumes "sorted ys" "\<And>x y. x \<le> y \<Longrightarrow> f x \<le> (f y :: nat)" "k < length ys"
  shows "k < length (filter (\<lambda>x. f x < i) ys) \<longleftrightarrow> f (ys ! k) < i"
  using assms(1,3)
proof (induction ys arbitrary: k)
  case (Cons y ys)
  show ?case
  proof (cases "f y < i")
    case True
    then show ?thesis using Cons by (cases k) auto
  next
    case False
    have "\<not> f x < i" if "x \<in> set (y # ys)" for x
      using assms(2) [of y x] False Cons.prems(1) that by fastforce
    then show ?thesis using Cons.prems(2) nth_mem [of k "y # ys"] by (simp add: filter_False)
  qed
qed simp

lemma rank_bucket:
  assumes "k < length xs"
  shows "k < length (filter (\<lambda>x. bucket (unat x) < i) xs) \<longleftrightarrow> bucket (sort (map unat xs) ! k) < i"
proof -
  have "length (filter (\<lambda>x. bucket (unat x) < i) xs) = length (filter (\<lambda>x. bucket x < i) (map unat xs))"
    by (simp add: filter_map o_def)
  also have "\<dots> = length (filter (\<lambda>x. bucket x < i) (sort (map unat xs)))"
    by (metis filter_sort length_sort)
  finally show ?thesis
    using nth_sorted_filter [of "sort (map unat xs)" bucket k i] bucket_mono assms by simp
qed

lemma below_Suc: "length (filter (\<lambda>x. bucket (unat x) < Suc i) xs) =
    length (filter (\<lambda>x. bucket (unat x) < i) xs) + in_bucket xs i"
  by (induction xs) (auto simp: in_bucket_def less_Suc_eq)

lemma pct_loop_rank:
  assumes "hist_of xs h" "length xs < 2 ^ 64" "k < length xs" "i \<le> 3701" "i \<le> bucket (sort (map unat xs) ! k)"
  shows "pct_loop (drop i (lh_buckets h)) (of_nat i) (of_nat (length (filter (\<lambda>x. bucket (unat x) < i) xs))) (of_nat k)
    = Some (of_nat (bucket_mid (bucket (sort (map unat xs) ! k))))"
  using assms(4,5)
proof (induction "3701 - i" arbitrary: i)
  case 0
  then show ?case using bucket_less [of "sort (map unat xs) ! k"] by simp
next
  case (Suc n)
  let ?c = "\<lambda>i. length (filter (\<lambda>x. bucket (unat x) < i) xs)" and ?b = "bucket (sort (map unat xs) ! k)"
  have i: "i < 3701" using Suc.hyps(2) by simp
  have drop: "drop i (lh_buckets h) = of_nat (in_bucket xs i) # drop (Suc i) (lh_buckets h)"
    using assms(1) i by (simp add: hist_of_def Cons_nth_drop_Suc flip: Cons_nth_drop_Suc)
  have cum: "of_nat (?c i) + of_nat (in_bucket xs i) = (of_nat (?c (Suc i)) :: u64)"
    by (simp add: below_Suc)
  have len: "?c (Suc i) < 2 ^ 64" using assms(2) length_filter_le le_less_trans by blast
  have "(of_nat k + 1 \<le> (of_nat (?c (Suc i)) :: u64)) = (Suc k \<le> ?c (Suc i))"
    using of_nat_le_u64 [of "Suc k" "?c (Suc i)"] len assms(2,3) by (simp add: add.commute)
  also have "\<dots> = (?b < Suc i)" using rank_bucket [OF assms(3)] by (simp only: Suc_le_eq)
  finally have hit: "(of_nat k + 1 \<le> (of_nat (?c (Suc i)) :: u64)) = (?b < Suc i)" .
  show ?case
  proof (cases "?b = i")
    case True
    then show ?thesis using hit unat_bucket_mid [OF i] by (simp add: drop cum)
  next
    case False
    then have "Suc i \<le> ?b" using Suc.prems(2) by simp
    then have "pct_loop (drop i (lh_buckets h)) (of_nat i) (of_nat (?c i)) (of_nat k)
        = pct_loop (drop (Suc i) (lh_buckets h)) (of_nat i + 1) (of_nat (?c (Suc i))) (of_nat k)"
      unfolding drop pct_loop.simps cum using hit by simp
    also have "(of_nat i + 1 :: u64) = of_nat (Suc i)" by simp
    moreover have "n = 3701 - Suc i" "Suc i \<le> 3701" using Suc.hyps(2) i by linarith+
    note ih = Suc.hyps(1) [OF this \<open>Suc i \<le> ?b\<close>]
    ultimately show ?thesis by (simp only: ih)
  qed
qed

lemma unat_u64_rat: "(of_nat (unat (c :: u64)) :: rat) < 2 ^ 64"
proof -
  have "(of_nat (unat c) :: rat) < of_nat (2 ^ 64)" using unat_u64_less [of c] by (simp only: of_nat_less_iff)
  then show ?thesis by (simp only: of_nat_power of_nat_numeral)
qed

text \<open>The rank computed in floating point.\<close>

lemma percentile_rank:
  assumes "0 \<le> p" "p \<le> 99999 / 100000" "c \<noteq> 0"
  shows "\<exists>k. u64_of (dmul p (double_of c)) = Some k \<and> unat k < unat c \<and>
    p * of_nat (unat c) - of_nat (unat c) / 2 ^ 51 - 1 < of_nat (unat k) \<and>
    of_nat (unat k) \<le> p * of_nat (unat c) + of_nat (unat c) / 2 ^ 51"
proof -
  let ?e = "1 / 2 ^ 53 :: rat"
  define N :: rat where "N = of_nat (unat c)"
  define x where "x = dmul p (double_of c)"
  have N: "0 < N" "N < 2 ^ 64"
    using assms(3) unat_u64_rat [of c] unfolding N_def by (simp_all only: of_nat_0_less_iff unat_gt_0 simp_thms)
  have d: "N * (1 - ?e) \<le> double_of c" "double_of c \<le> N * (1 + ?e)" unfolding N_def by (rule double_of_bounds)+
  have pd: "p * (N * (1 - ?e)) \<le> p * double_of c" "p * double_of c \<le> p * (N * (1 + ?e))"
    using d assms(1) by (intro mult_left_mono; simp)+
  have "0 \<le> p * (N * (1 - ?e))" using assms(1) N(1) by (intro mult_nonneg_nonneg) simp_all
  then have pd0: "0 \<le> p * double_of c" using pd(1) by linarith
  then have r: "p * double_of c * (1 - ?e) \<le> x" "x \<le> p * double_of c * (1 + ?e)"
    unfolding x_def dmul_def by (rule dround_bounds)+
  have pN: "0 \<le> p * N" "p * N \<le> 99999 / 100000 * N"
    using assms(1,2) N(1) by (auto intro: mult_right_mono)
  have "p * N * (1 - 1 / 2 ^ 51) \<le> p * N * ((1 - ?e) * (1 - ?e))" using pN(1) by (intro mult_left_mono) simp_all
  also have "\<dots> = p * (N * (1 - ?e)) * (1 - ?e)" by (simp only: mult.assoc)
  also have "\<dots> \<le> x" by (rule order_trans [OF mult_right_mono [OF pd(1)] r(1)]) simp
  finally have lo: "p * N * (1 - 1 / 2 ^ 51) \<le> x" .
  have "x \<le> p * (N * (1 + ?e)) * (1 + ?e)" by (rule order_trans [OF r(2) mult_right_mono [OF pd(2)]]) simp
  also have "\<dots> = p * N * ((1 + ?e) * (1 + ?e))" by (simp only: mult.assoc)
  also have "\<dots> \<le> p * N * (1 + 1 / 2 ^ 51)" using pN(1) by (intro mult_left_mono) simp_all
  finally have up: "x \<le> p * N * (1 + 1 / 2 ^ 51)" .
  have small: "p * N / 2 ^ 51 \<le> N / 2 ^ 51" using pN(2) N(1) by (intro divide_right_mono) (linarith, simp)
  have x: "p * N - N / 2 ^ 51 \<le> x" "x \<le> p * N + N / 2 ^ 51"
    using lo up small unfolding right_diff_distrib distrib_left times_divide_eq_right mult_1_right by linarith+
  have "0 \<le> x" unfolding x_def dmul_def by (rule dround_nonneg [OF pd0])
  moreover have "N / 2 ^ 51 < N / 100000" using N(1) by (intro divide_strict_left_mono) simp_all
  then have "x < N" using x(2) pN(2) N(1) by linarith
  ultimately have x2: "0 \<le> x" "x < N" by simp_all
  obtain k where k: "u64_of x = Some k" "of_nat (unat k) \<le> x" "x < of_nat (unat k) + 1"
    using u64_of_floor [of x] x2 N(2) by (auto simp only: dest: less_trans)
  have "(of_nat (unat k) :: rat) < of_nat (unat c)" using k(2) x2(2) unfolding N_def by (rule le_less_trans)
  then have "unat k < unat c" by (simp only: of_nat_less_iff)
  then show ?thesis using k x unfolding x_def N_def by (intro exI [of _ k] conjI) linarith+
qed

text \<open>The rounding of a sample: conversion, quotient and truncation.\<close>

lemma sample_rounding:
  assumes "1 \<le> f" "unat c < 2 ^ 63"
  shows "\<exists>ns. u64_of (dround (double_of c / f)) = Some ns \<and>
    of_nat (unat ns) \<le> of_nat (unat c) / f * (1 + 1 / 2 ^ 51) \<and>
    of_nat (unat c) / f * (1 - 1 / 2 ^ 51) < of_nat (unat ns) + 1"
proof -
  let ?e = "1 / 2 ^ 53 :: rat"
  define N :: rat where "N = of_nat (unat c)"
  define x where "x = dround (double_of c / f)"
  have "(of_nat (unat c) :: rat) < of_nat (2 ^ 63)" using assms(2) by (simp only: of_nat_less_iff)
  then have N: "0 \<le> N" "N < 2 ^ 63" unfolding N_def by (simp_all only: of_nat_0_le_iff of_nat_power of_nat_numeral)
  have d: "N * (1 - ?e) \<le> double_of c" "double_of c \<le> N * (1 + ?e)" unfolding N_def by (rule double_of_bounds)+
  have df: "N * (1 - ?e) / f \<le> double_of c / f" "double_of c / f \<le> N * (1 + ?e) / f"
    using d assms(1) by (intro divide_right_mono; simp)+
  have "0 \<le> N * (1 - ?e) / f" using N(1) assms(1) by simp
  then have df0: "0 \<le> double_of c / f" using df(1) by linarith
  have r: "double_of c / f * (1 - ?e) \<le> x" "x \<le> double_of c / f * (1 + ?e)"
    unfolding x_def by (rule dround_bounds [OF df0])+
  have q: "0 \<le> N / f" "N / f \<le> N" using N(1) assms(1) by (auto simp: divide_le_eq mult_left_le_one_le intro: mult_le_cancel_left1 [THEN iffD2])
  have "N / f * (1 - 1 / 2 ^ 51) \<le> N / f * ((1 - ?e) * (1 - ?e))" using q(1) by (intro mult_left_mono) simp_all
  also have "\<dots> = N * (1 - ?e) / f * (1 - ?e)" by (simp only: mult.assoc times_divide_eq_left)
  also have "\<dots> \<le> x" by (rule order_trans [OF mult_right_mono [OF df(1)] r(1)]) simp
  finally have lo: "N / f * (1 - 1 / 2 ^ 51) \<le> x" .
  have "x \<le> N * (1 + ?e) / f * (1 + ?e)" by (rule order_trans [OF r(2) mult_right_mono [OF df(2)]]) simp
  also have "\<dots> = N / f * ((1 + ?e) * (1 + ?e))" by (simp only: mult.assoc times_divide_eq_left)
  also have "\<dots> \<le> N / f * (1 + 1 / 2 ^ 51)" using q(1) by (intro mult_left_mono) simp_all
  finally have up: "x \<le> N / f * (1 + 1 / 2 ^ 51)" .
  have "N / f * (1 + 1 / 2 ^ 51) \<le> N * 2" using q by (intro mult_mono) simp_all
  then have "x < 2 ^ 64" using up N(2) by simp
  moreover have "0 \<le> x" unfolding x_def by (rule dround_nonneg [OF df0])
  ultimately obtain ns where ns: "u64_of x = Some ns" "of_nat (unat ns) \<le> x" "x < of_nat (unat ns) + 1"
    using u64_of_floor [of x] by blast
  then show ?thesis
    using lo up unfolding x_def N_def by (intro exI [of _ ns] conjI) (assumption | rule order_trans le_less_trans)+
qed

section \<open>The printed rows\<close>

definition row_of :: "nat \<Rightarrow> nat" where
  "row_of n = length (takeWhile (\<lambda>e. unat e \<le> n) (butlast edges))"

lemma add_row_nth:
  assumes "length es = length rs" "j = length (takeWhile (\<lambda>e. \<not> lo < e) es)" "j < length rs"
  shows "add_row es lo b rs = rs[j := rs ! j + b]"
  using assms by (induction es lo b rs arbitrary: j rule: add_row.induct) auto

lemma row_of_less: "row_of n < length edges"
  using length_takeWhile_le [of "\<lambda>e. unat e \<le> n" "butlast edges"] by (simp add: row_of_def edges_def)

lemma takeWhile_edges:
  assumes "lo < 2 ^ 63"
  shows "length (takeWhile (\<lambda>e. \<not> of_nat lo < e) edges) = row_of lo"
proof -
  have less: "(of_nat lo < e) = (lo < unat e)" for e :: u64
    using assms by (simp add: unat_less_u64 unat_of_nat_mod)
  have "edges = butlast edges @ [- 1]" by (simp add: edges_def)
  moreover have "lo < unat (- 1 :: u64)" using assms by (simp add: unsigned_minus_1_eq_mask mask_eq_exp_minus_1)
  ultimately show ?thesis
    unfolding row_of_def by (metis (no_types, lifting) less not_le takeWhile_tail takeWhile_cong)
qed

lemma bucket_lo_le: "bucket_lo i \<le> 1000000"
  unfolding bucket_lo_def by (split if_split; intro conjI impI; linarith?)+

lemma row_loop_nth:
  assumes "hist_of xs h" "i \<le> 3701" "length rows = length edges" "r < length edges"
  shows "row_loop (drop i (lh_buckets h)) (of_nat i) rows ! r =
    rows ! r + of_nat (length (filter (\<lambda>x. i \<le> bucket (unat x) \<and> row_of (bucket_lo (bucket (unat x))) = r) xs))"
  using assms(2,3)
proof (induction "3701 - i" arbitrary: i rows)
  case 0
  then have "drop i (lh_buckets h) = []" using assms(1) by (simp add: hist_of_def)
  moreover have "\<not> i \<le> bucket n" for n using 0 bucket_less [of n] by simp
  ultimately show ?case by simp
next
  case (Suc n)
  let ?n = "of_nat (in_bucket xs i) :: u64" and ?j = "row_of (bucket_lo i)"
  let ?f = "\<lambda>i. length (filter (\<lambda>x. i \<le> bucket (unat x) \<and> row_of (bucket_lo (bucket (unat x))) = r) xs)"
  have i: "i < 3701" "n = 3701 - Suc i" "Suc i \<le> 3701" using Suc.hyps(2) by linarith+
  have lo: "bucket_lo i < 2 ^ 63" using bucket_lo_le [of i] by simp
  have drop: "drop i (lh_buckets h) = ?n # drop (Suc i) (lh_buckets h)"
    using assms(1) i(1) by (simp add: hist_of_def Cons_nth_drop_Suc flip: Cons_nth_drop_Suc)
  define rows' where "rows' = rows[?j := rows ! ?j + ?n]"
  have "(if ?n = 0 then rows else add_row edges (bucket_lo_ns (of_nat i)) ?n rows) = rows'"
    using add_row_nth [OF Suc.prems(2) [symmetric] refl] takeWhile_edges [OF lo] row_of_less Suc.prems(2)
    by (simp add: rows'_def unat_bucket_mid(2) [OF i(1)])
  then have "row_loop (drop i (lh_buckets h)) (of_nat i) rows = row_loop (drop (Suc i) (lh_buckets h)) (of_nat (Suc i)) rows'"
    unfolding drop row_loop.simps by (simp add: add.commute)
  also have "\<dots> ! r = rows' ! r + of_nat (?f (Suc i))"
    using Suc.hyps(1) [OF i(2,3), of rows'] Suc.prems(2) by (simp add: rows'_def)
  also have "rows' ! r = rows ! r + of_nat (if ?j = r then in_bucket xs i else 0)"
    using Suc.prems(2) assms(4) by (auto simp: rows'_def nth_list_update)
  also have "of_nat (?f i) = (of_nat (if ?j = r then in_bucket xs i else 0) + of_nat (?f (Suc i)) :: u64)"
    unfolding in_bucket_def of_nat_add [symmetric] by (rule arg_cong [where f = of_nat], induction xs) auto
  ultimately show ?case by (simp only: add.assoc)
qed

lemma row_loop_length: "length (row_loop bs i rows) = length rows"
proof -
  have "length (add_row es lo b rs) = length rs" for es lo b rs
    by (induction es lo b rs rule: add_row.induct) auto
  then show ?thesis by (induction bs i rows rule: row_loop.induct) auto
qed

lemma row_of_bucket_lo: "row_of (bucket_lo (bucket n)) = row_of n"
proof -
  have "unat e \<in> {100, 250, 500, 1000, 2500, 5000, 10000, 25000, 50000, 100000, 250000, 500000, 1000000}"
    if "e \<in> set (butlast edges)" for e
    using that by (auto simp: edges_def)
  then have "(unat e \<le> bucket_lo (bucket n)) = (unat e \<le> n)" if "e \<in> set (butlast edges)" for e
    using bucket_lo_less [of "unat e" n] that by (simp only: not_le [symmetric] not_less) blast
  then show ?thesis unfolding row_of_def by (metis (no_types, lifting) takeWhile_cong)
qed

text \<open>The samples a row counts.\<close>

definition row_lower :: "nat \<Rightarrow> nat" where
  "row_lower r = (if r = 0 then 0 else unat (edges ! (r - 1)))"

definition in_row :: "nat \<Rightarrow> nat \<Rightarrow> bool" where
  "in_row r n \<longleftrightarrow> row_lower r \<le> n \<and> (r = 13 \<or> n < unat (edges ! r))"

lemma takeWhile_sorted:
  assumes "sorted (map f es)" "r \<le> length es"
  shows "length (takeWhile (\<lambda>e. f e \<le> n) es) = r \<longleftrightarrow>
    (r = 0 \<or> f (es ! (r - 1)) \<le> n) \<and> (r = length es \<or> n < (f (es ! r) :: nat))"
  using assms
proof (induction es arbitrary: r)
  case (Cons e es)
  show ?case
  proof (cases r)
    case 0
    then show ?thesis by auto
  next
    case (Suc r')
    have "f e \<le> f ((e # es) ! r')" if "r' < length (e # es)" using Cons.prems(1) that by (cases r') auto
    then have "\<not> f ((e # es) ! r') \<le> n" if "\<not> f e \<le> n" using that Cons.prems(2) Suc by fastforce
    then show ?thesis using Cons.IH [of r'] Cons.prems Suc by (cases r') auto
  qed
qed simp

lemma row_of_in_row:
  assumes "r < 14"
  shows "row_of n = r \<longleftrightarrow> in_row r n"
proof -
  have "sorted (map unat (butlast edges))" and len: "length (butlast edges) = 13" by (simp_all add: edges_def)
  then have "row_of n = r \<longleftrightarrow> (r = 0 \<or> unat (butlast edges ! (r - 1)) \<le> n) \<and> (r = 13 \<or> n < unat (butlast edges ! r))"
    using takeWhile_sorted [of unat "butlast edges" r n] assms by (simp add: row_of_def)
  moreover have "butlast edges ! i = edges ! i" if "i < 13" for i
    using that len by (simp add: nth_butlast)
  ultimately show ?thesis using assms by (cases "r = 13") (auto simp: in_row_def row_lower_def)
qed

lemma foldl_max: "m \<le> foldl (\<lambda>m r. if m < r then r else m) m rows"
  "r \<in> set rows \<Longrightarrow> r \<le> foldl (\<lambda>m r. if m < r then r else (m :: u64)) m rows"
proof (induction rows arbitrary: m)
  case (Cons x rows)
  {
    case 1
    show ?case using Cons(1) [of "if m < x then x else m"] by (auto simp: not_less split: if_splits)
  next
    case 2
    then show ?case using Cons(1) [of "if m < x then x else m"] Cons(2) [of "if m < x then x else m"]
      by (auto simp: not_less split: if_splits intro: order_trans)
  }
qed simp_all

lemma row_bars_le:
  assumes "r \<in> set rows" "unat r < 2 ^ 58"
  shows "row_bars rows r \<le> 40"
proof -
  let ?m = "foldl (\<lambda>m r. if m < r then r else m) 1 rows"
  have "unat r \<le> unat ?m" using foldl_max(2) [OF assms(1)] by (simp add: word_le_nat_alt)
  moreover have "unat (r * 40) = unat r * 40" using assms(2) by (subst unat_times_u64) simp_all
  ultimately have "unat (r * 40) \<le> 40 * unat ?m" by simp
  then have "unat (r * 40) div unat ?m \<le> 40 * unat ?m div unat ?m" by (rule div_le_mono)
  also have "\<dots> \<le> 40" by simp
  finally show ?thesis by (simp add: row_bars_def unat_div Let_def)
qed

section \<open>Properties\<close>

text \<open>
  C17. A percentile is an order statistic. For a histogram of any samples, \<^verbatim>\<open>percentile_ns(p)\<close> is the middle
  of the bucket of the sample of rank \<open>k\<close>, where \<open>k\<close> is \<open>p\<close> times the number of samples up to the rounding of the
  floating-point product: the sample itself below a microsecond, within half a percent below a
  millisecond, and one millisecond above.
\<close>

theorem hist_percentile:
  assumes "xs \<noteq> []" "length xs < 2 ^ 64" "0 \<le> p" "p \<le> 99999 / 100000"
  shows "\<exists>h k r s. add_samples hist_new xs = Some h \<and> percentile_ns h p = Some r \<and> k < length xs \<and>
    p * of_nat (length xs) - of_nat (length xs) / 2 ^ 51 - 1 < of_nat k \<and>
    of_nat k \<le> p * of_nat (length xs) + of_nat (length xs) / 2 ^ 51 \<and> s = sort (map unat xs) ! k \<and>
    (s < 1000 \<longrightarrow> unat r = s) \<and> (s < 1000000 \<longrightarrow> within_half_percent (unat r) s) \<and> (1000000 \<le> s \<longrightarrow> unat r = 1000000)"
proof -
  obtain h where h: "add_samples hist_new xs = Some h" "hist_of xs h"
    using add_samples_ok [OF hist_of_new, of xs] by auto
  have c: "lh_count h = of_nat (length xs)" "unat (lh_count h) = length xs"
    using h(2) assms(2) by (simp_all add: hist_of_def unat_of_nat_u64)
  then have "lh_count h \<noteq> 0" using assms(1) by (metis length_0_conv unat_0)
  then obtain k where k: "u64_of (dmul p (double_of (lh_count h))) = Some k" "unat k < length xs"
      "p * of_nat (length xs) - of_nat (length xs) / 2 ^ 51 - 1 < of_nat (unat k)"
      "of_nat (unat k) \<le> p * of_nat (length xs) + of_nat (length xs) / 2 ^ 51"
    using percentile_rank [OF assms(3,4)] unfolding c(2) [symmetric] by metis
  define s where "s = sort (map unat xs) ! unat k"
  define r where "r = (of_nat (bucket_mid (bucket s)) :: u64)"
  have "pct_loop (lh_buckets h) 0 0 k = Some r"
    using pct_loop_rank [OF h(2) assms(2) k(2), of 0] by (simp add: s_def r_def)
  then have r: "percentile_ns h p = Some r"
    using k(1) \<open>lh_count h \<noteq> 0\<close> by (simp add: percentile_ns_def)
  have "bucket_mid (bucket s) \<le> 1000500" by (cases s rule: bucket_range) linarith+
  then have "unat r = bucket_mid (bucket s)" unfolding r_def by (intro unat_of_nat_u64) simp
  then have "(s < 1000 \<longrightarrow> unat r = s) \<and> (s < 1000000 \<longrightarrow> within_half_percent (unat r) s) \<and>
      (1000000 \<le> s \<longrightarrow> unat r = 1000000)"
    using bucket_mid_error [of s] by (simp only:) blast
  then show ?thesis using h(1) r k(2-4) s_def by blast
qed

text \<open>
  C26. The printed rows. Every row counts the samples between its edges, for any samples, although it is
  computed from the buckets; its bar has at most 40 marks.
\<close>

theorem hist_rows_count:
  assumes "length xs < 2 ^ 58" "r < 14"
  shows "\<exists>h. add_samples hist_new xs = Some h \<and>
    hist_rows h ! r = of_nat (length (filter (\<lambda>x. in_row r (unat x)) xs)) \<and> row_bars (hist_rows h) (hist_rows h ! r) \<le> 40"
proof -
  obtain h where h: "add_samples hist_new xs = Some h" "hist_of xs h"
    using add_samples_ok [OF hist_of_new, of xs] by auto
  have e: "length edges = 14" by (simp add: edges_def)
  have "hist_rows h ! r = of_nat (length (filter (\<lambda>x. in_row r (unat x)) xs))"
    using row_loop_nth [OF h(2), of 0 "replicate 14 0" r] assms(2) e
    by (simp add: hist_rows_def row_of_bucket_lo row_of_in_row)
  moreover have "length (filter (\<lambda>x. in_row r (unat x)) xs) < 2 ^ 58"
    using assms(1) length_filter_le le_less_trans by blast
  ultimately have row: "unat (hist_rows h ! r) < 2 ^ 58" by (simp add: unat_of_nat_u64)
  moreover have "length (hist_rows h) = 14"
    by (simp add: hist_rows_def row_loop_length e)
  ultimately show ?thesis
    using h(1) \<open>hist_rows h ! r = _\<close> row_bars_le [OF nth_mem row] assms(2) by auto
qed

text \<open>
  C35. \<^verbatim>\<open>record\<close> keeps the histogram well formed. With a calibrated counter of at least one cycle per
  nanosecond and an interval below \<open>2 ^ 63\<close> cycles, no index leaves the bucket array; an interval that does not
  run forward is ignored, and any other adds one sample, the interval in nanoseconds rounded down, up to
  the floating-point rounding.
\<close>

theorem hist_record_type:
  assumes "hist_of xs h" "1 \<le> f" "unat (b - a) < 2 ^ 63"
  shows "\<exists>h' ys. hist_record clk (h, f, w) a b = Some (h', f, w) \<and> hist_of (xs @ ys) h' \<and>
    (b \<le> a \<longrightarrow> ys = []) \<and> (a < b \<longrightarrow> (\<exists>ns. ys = [ns] \<and>
       of_nat (unat ns) \<le> of_nat (unat (b - a)) / f * (1 + 1 / 2 ^ 51) \<and>
       of_nat (unat (b - a)) / f * (1 - 1 / 2 ^ 51) < of_nat (unat ns) + 1))"
proof (cases "b \<le> a")
  case True
  then show ?thesis using assms(1) by (auto simp: hist_record_def)
next
  case False
  obtain ns where ns: "u64_of (dround (double_of (b - a) / f)) = Some ns"
      "of_nat (unat ns) \<le> of_nat (unat (b - a)) / f * (1 + 1 / 2 ^ 51)"
      "of_nat (unat (b - a)) / f * (1 - 1 / 2 ^ 51) < of_nat (unat ns) + 1"
    using sample_rounding [OF assms(2,3)] by blast
  obtain h' where "add_sample h ns = Some h'" "hist_of (xs @ [ns]) h'"
    using add_sample_ok [OF assms(1)] by blast
  then show ?thesis
    using False ns assms(2) by (auto simp: hist_record_def cycles_to_ns_cached)
qed

text \<open>Witnesses: the median of three samples, a row of two, and an interval of 1000 cycles at 2 GHz.\<close>

theorem hist_percentile_witness:
  "\<exists>h r. add_samples hist_new [2000000, 5, 1500] = Some h \<and> percentile_ns h (1 / 2) = Some r \<and>
    within_half_percent (unat r) 1500"
proof -
  obtain h k r s where h: "add_samples hist_new [2000000, 5, 1500] = Some h" "percentile_ns h (1 / 2) = Some r"
      and k: "k < 3" "1 / 2 * 3 - 3 / 2 ^ 51 - 1 < (of_nat k :: rat)" "of_nat k \<le> (1 / 2 * 3 + 3 / 2 ^ 51 :: rat)"
      and s: "s = sort (map unat [2000000, 5, 1500 :: u64]) ! k" "s < 1000000 \<longrightarrow> within_half_percent (unat r) s"
    using hist_percentile [of "[2000000, 5, 1500]" "1 / 2"] by auto
  have "k \<noteq> 0" using k(2) by auto
  moreover have "k \<noteq> 2" using k(3) by auto
  ultimately have "k = 1" using k(1) by linarith
  then have "s = 1500" using s(1) by simp
  then show ?thesis using h s(2) by auto
qed

theorem hist_rows_count_witness:
  "\<exists>h. add_samples hist_new [50, 150, 160] = Some h \<and> hist_rows h ! 1 = 2 \<and> row_bars (hist_rows h) (hist_rows h ! 1) \<le> 40"
proof -
  have "length (filter (\<lambda>x. in_row 1 (unat x)) [50, 150, 160 :: u64]) = 2"
    by (simp add: in_row_def row_lower_def edges_def)
  then show ?thesis using hist_rows_count [of "[50, 150, 160]" 1] by auto
qed

definition tick_clock :: "u64 clock" where
  "tick_clock = \<lparr>ck_tsc = (\<lambda>w. (w, w + 1)), ck_gettime = (\<lambda>w. ((0, w), w + 1)), ck_sleep = (\<lambda>w. w + 100000000)\<rparr>"

theorem hist_record_type_witness:
  "\<exists>h' ns. hist_record tick_clock (hist_new, 2, 0) 100 1100 = Some (h', 2, 0) \<and> hist_of [ns] h' \<and> unat ns \<in> {499, 500}"
proof -
  obtain h' ys ns where h: "hist_record tick_clock (hist_new, 2, 0) 100 1100 = Some (h', 2, 0)" "hist_of ([] @ ys) h'" "ys = [ns]"
      and ns: "(of_nat (unat ns) :: rat) \<le> of_nat (unat (1100 - 100 :: u64)) / 2 * (1 + 1 / 2 ^ 51)"
      "of_nat (unat (1100 - 100 :: u64)) / 2 * (1 - 1 / 2 ^ 51) < (of_nat (unat ns) :: rat) + 1"
    using hist_record_type [OF hist_of_new, of 2 1100 100 tick_clock 0] by auto
  define m where "m = unat ns"
  have "unat (1100 - 100 :: u64) = 1000" by simp
  then have "(of_nat m :: rat) < of_nat 501" "(of_nat 499 :: rat) < of_nat (m + 1)"
    using ns unfolding m_def [symmetric] by simp_all
  then have "m < 501" "499 < m + 1" by (simp_all only: of_nat_less_iff)
  then have "unat ns \<in> {499, 500}" unfolding m_def by auto
  then show ?thesis using h by auto
qed

end
