(* ===== verification/Perf_Counters.thy ===== *)
theory Perf_Counters
  imports Rdtsc
begin

unbundle bit_operations_syntax

text \<open>
  \<^verbatim>\<open>PerfCounter\<close> and \<^verbatim>\<open>PerfScope\<close> of \<^verbatim>\<open>include/perf_counters.h\<close> and \<^verbatim>\<open>src/perf_counters.cpp\<close>. The calls
  \<^verbatim>\<open>perf_event_open\<close>, \<^verbatim>\<open>ioctl\<close>, \<^verbatim>\<open>read\<close> and \<^verbatim>\<open>close\<close> are the parameter \<open>os\<close> on a kernel state \<open>'k\<close>; the constants of
  \<^verbatim>\<open><linux/perf_event.h>\<close> are the parameter \<open>abi\<close>. What is printed is returned.
\<close>

section \<open>Events and attributes\<close>

datatype perf_event =
  L1_CACHE_MISSES | LLC_CACHE_MISSES | BRANCH_MISSES | INSTRUCTIONS | CYCLES | TLB_LOAD_MISSES | TLB_STORE_MISSES

record perf_abi =
  pa_attr_size :: u32
  pa_TYPE_HARDWARE :: u32
  pa_TYPE_HW_CACHE :: u32
  pa_HW_CACHE_MISSES :: u64
  pa_HW_BRANCH_MISSES :: u64
  pa_HW_INSTRUCTIONS :: u64
  pa_HW_CPU_CYCLES :: u64
  pa_CACHE_L1D :: u64
  pa_CACHE_DTLB :: u64
  pa_OP_READ :: u64
  pa_OP_WRITE :: u64
  pa_RESULT_MISS :: u64

record perf_event_attr =
  at_size :: u32
  at_type :: u32
  at_config :: u64
  at_exclude_kernel :: bool
  at_exclude_hv :: bool
  at_disabled :: bool
  at_inherit :: bool

definition cache_config :: "u64 \<Rightarrow> u64 \<Rightarrow> u64 \<Rightarrow> u64" where
  "cache_config cid op result = cid OR push_bit 8 op OR push_bit 16 result"

definition fill_attr :: "perf_abi \<Rightarrow> perf_event \<Rightarrow> perf_event_attr" where
  "fill_attr abi event =
     (let attr = \<lparr>at_size = pa_attr_size abi, at_type = 0, at_config = 0, at_exclude_kernel = False,
                  at_exclude_hv = True, at_disabled = True, at_inherit = True\<rparr>;
          hw = attr\<lparr>at_type := pa_TYPE_HARDWARE abi\<rparr>;
          cache = attr\<lparr>at_type := pa_TYPE_HW_CACHE abi\<rparr>
      in case event of
           LLC_CACHE_MISSES \<Rightarrow> hw\<lparr>at_config := pa_HW_CACHE_MISSES abi\<rparr>
         | BRANCH_MISSES \<Rightarrow> hw\<lparr>at_config := pa_HW_BRANCH_MISSES abi\<rparr>
         | INSTRUCTIONS \<Rightarrow> hw\<lparr>at_config := pa_HW_INSTRUCTIONS abi\<rparr>
         | CYCLES \<Rightarrow> hw\<lparr>at_config := pa_HW_CPU_CYCLES abi\<rparr>
         | L1_CACHE_MISSES \<Rightarrow>
             cache\<lparr>at_config := cache_config (pa_CACHE_L1D abi) (pa_OP_READ abi) (pa_RESULT_MISS abi)\<rparr>
         | TLB_LOAD_MISSES \<Rightarrow>
             cache\<lparr>at_config := cache_config (pa_CACHE_DTLB abi) (pa_OP_READ abi) (pa_RESULT_MISS abi)\<rparr>
         | TLB_STORE_MISSES \<Rightarrow>
             cache\<lparr>at_config := cache_config (pa_CACHE_DTLB abi) (pa_OP_WRITE abi) (pa_RESULT_MISS abi)\<rparr>)"

fun perf_event_name :: "perf_event \<Rightarrow> string" where
  "perf_event_name L1_CACHE_MISSES = ''L1_CACHE_MISSES''"
| "perf_event_name LLC_CACHE_MISSES = ''LLC_CACHE_MISSES''"
| "perf_event_name BRANCH_MISSES = ''BRANCH_MISSES''"
| "perf_event_name INSTRUCTIONS = ''INSTRUCTIONS''"
| "perf_event_name CYCLES = ''CYCLES''"
| "perf_event_name TLB_LOAD_MISSES = ''TLB_LOAD_MISSES''"
| "perf_event_name TLB_STORE_MISSES = ''TLB_STORE_MISSES''"

text \<open>Different events are different to the kernel, when its constants are different bytes.\<close>

definition abi_ok :: "perf_abi \<Rightarrow> bool" where
  "abi_ok abi \<longleftrightarrow> pa_TYPE_HARDWARE abi \<noteq> pa_TYPE_HW_CACHE abi \<and>
     distinct [pa_HW_CACHE_MISSES abi, pa_HW_BRANCH_MISSES abi, pa_HW_INSTRUCTIONS abi, pa_HW_CPU_CYCLES abi] \<and>
     pa_CACHE_L1D abi \<noteq> pa_CACHE_DTLB abi \<and> pa_OP_READ abi \<noteq> pa_OP_WRITE abi \<and>
     list_all (\<lambda>c. take_bit 8 c = c) [pa_CACHE_L1D abi, pa_CACHE_DTLB abi, pa_OP_READ abi, pa_OP_WRITE abi]"

lemma cache_config_fields:
  assumes "take_bit 8 a = a" "take_bit 8 b = b"
  shows "take_bit 8 (cache_config a b c) = a" "take_bit 8 (drop_bit 8 (cache_config a b c)) = b"
proof -
  have "bit a n \<Longrightarrow> n < 8" "bit b n \<Longrightarrow> n < 8" for n
    using assms bit_take_bit_iff [of 8 a n] bit_take_bit_iff [of 8 b n] by auto
  then show "take_bit 8 (cache_config a b c) = a" "take_bit 8 (drop_bit 8 (cache_config a b c)) = b"
    by (auto intro!: bit_word_eqI simp: cache_config_def bit_simps) force+
qed

lemma fill_attr_inj:
  assumes "abi_ok abi" "fill_attr abi e = fill_attr abi e'"
  shows "e = e'"
proof -
  have cfg: "a = a' \<and> b = b'"
    if "cache_config a b c = cache_config a' b' c" "take_bit 8 a = a" "take_bit 8 b = b" "take_bit 8 a' = a'" "take_bit 8 b' = b'"
    for a b c a' b'
    using cache_config_fields [OF that(2,3), of c] cache_config_fields [OF that(4,5), of c] that(1) by metis
  show ?thesis
    using assms
    by (cases e; cases e'; simp add: fill_attr_def abi_ok_def Let_def) (auto dest: cfg)
qed

section \<open>One counter\<close>

datatype perf_ioctl = IOC_RESET | IOC_ENABLE | IOC_DISABLE

text \<open>\<open>po_read\<close> returns the value when all eight bytes were read.\<close>

record 'k perf_os =
  po_open :: "perf_event_attr \<Rightarrow> int \<Rightarrow> int \<Rightarrow> 'k \<Rightarrow> int \<times> 'k"
  po_ioctl :: "int \<Rightarrow> perf_ioctl \<Rightarrow> 'k \<Rightarrow> 'k"
  po_read :: "int \<Rightarrow> 'k \<Rightarrow> u64 option \<times> 'k"
  po_close :: "int \<Rightarrow> 'k \<Rightarrow> 'k"

record perf_counter =
  pc_event :: perf_event
  pc_fd :: int

definition counter_valid :: "perf_counter \<Rightarrow> bool" where
  "counter_valid c \<longleftrightarrow> 0 \<le> pc_fd c"

definition counter_new ::
  "'k perf_os \<Rightarrow> perf_abi \<Rightarrow> perf_event \<Rightarrow> int \<Rightarrow> int \<Rightarrow> 'k \<Rightarrow> perf_counter \<times> 'k" where
  "counter_new os abi event cpu pid k =
     (let (fd, k1) = po_open os (fill_attr abi event) pid cpu k; c = \<lparr>pc_event = event, pc_fd = fd\<rparr> in
      if fd < 0 then (c, k1) else (c, po_ioctl os fd IOC_RESET k1))"

definition counter_delete :: "'k perf_os \<Rightarrow> perf_counter \<Rightarrow> 'k \<Rightarrow> 'k" where
  "counter_delete os c k = (if 0 \<le> pc_fd c then po_close os (pc_fd c) k else k)"

definition counter_start :: "'k perf_os \<Rightarrow> perf_counter \<Rightarrow> 'k \<Rightarrow> 'k" where
  "counter_start os c k = (if 0 \<le> pc_fd c then po_ioctl os (pc_fd c) IOC_ENABLE k else k)"

definition counter_stop :: "'k perf_os \<Rightarrow> perf_counter \<Rightarrow> 'k \<Rightarrow> 'k" where
  "counter_stop os c k = (if 0 \<le> pc_fd c then po_ioctl os (pc_fd c) IOC_DISABLE k else k)"

definition counter_read :: "'k perf_os \<Rightarrow> perf_counter \<Rightarrow> 'k \<Rightarrow> u64 \<times> 'k" where
  "counter_read os c k =
     (if pc_fd c < 0 then (0, k)
      else (case po_read os (pc_fd c) k of (None, k1) \<Rightarrow> (0, k1) | (Some v, k1) \<Rightarrow> (v, k1)))"

section \<open>A scope\<close>

fun counters_new ::
  "'k perf_os \<Rightarrow> perf_abi \<Rightarrow> perf_event list \<Rightarrow> int \<Rightarrow> int \<Rightarrow> 'k \<Rightarrow> perf_counter list \<times> 'k" where
  "counters_new os abi [] cpu pid k = ([], k)"
| "counters_new os abi (e # es) cpu pid k =
     (let (c, k1) = counter_new os abi e cpu pid k; (cs, k2) = counters_new os abi es cpu pid k1 in (c # cs, k2))"

definition scope_new ::
  "'k perf_os \<Rightarrow> perf_abi \<Rightarrow> perf_event list \<Rightarrow> int \<Rightarrow> int \<Rightarrow> 'k \<Rightarrow> perf_counter list \<times> 'k" where
  "scope_new os abi events cpu pid k =
     (let (cs, k1) = counters_new os abi events cpu pid k in (cs, fold (counter_start os) cs k1))"

text \<open>The destructor stops the counters; destroying the vector then destroys them.\<close>

definition scope_delete :: "'k perf_os \<Rightarrow> perf_counter list \<Rightarrow> 'k \<Rightarrow> 'k" where
  "scope_delete os cs k = fold (counter_delete os) cs (fold (counter_stop os) cs k)"

fun scope_count :: "'k perf_os \<Rightarrow> perf_counter list \<Rightarrow> perf_event \<Rightarrow> 'k \<Rightarrow> u64 \<times> 'k" where
  "scope_count os [] event k = (0, k)"
| "scope_count os (c # cs) event k =
     (if pc_event c = event then counter_read os c k else scope_count os cs event k)"

text \<open>The lines of \<^verbatim>\<open>report\<close>: name, value and availability of each counter; then the instructions per cycle.\<close>

fun report_lines ::
  "'k perf_os \<Rightarrow> perf_counter list \<Rightarrow> u64 option \<times> u64 option \<Rightarrow> 'k \<Rightarrow>
     (string \<times> u64 \<times> bool) list \<times> (u64 option \<times> u64 option) \<times> 'k" where
  "report_lines os [] acc k = ([], acc, k)"
| "report_lines os (c # cs) (ins, cyc) k =
     (let (v, k1) = counter_read os c k;
          ins1 = (if pc_event c = INSTRUCTIONS then Some v else ins);
          cyc1 = (if pc_event c = CYCLES then Some v else cyc);
          (ls, acc, k2) = report_lines os cs (ins1, cyc1) k1
      in ((perf_event_name (pc_event c), v, counter_valid c) # ls, acc, k2))"

definition scope_report ::
  "'k perf_os \<Rightarrow> perf_counter list \<Rightarrow> 'k \<Rightarrow> (string \<times> u64 \<times> bool) list \<times> rat option \<times> 'k" where
  "scope_report os cs k =
     (let (ls, (ins, cyc), k1) = report_lines os cs (None, None) (fold (counter_stop os) cs k);
          ipc = (case (ins, cyc) of
                   (Some i, Some c) \<Rightarrow> if 0 < c then ddiv (double_of i) (double_of c) else None
                 | _ \<Rightarrow> None)
      in (ls, ipc, k1))"

section \<open>What the kernel promises\<close>

text \<open>
  \<open>fds k\<close> are the open descriptors, \<open>running k\<close> the enabled counters and \<open>value k fd\<close> what a read of a
  counter returns: a new descriptor is not in use, a control call affects its counter only, a
  descriptor that is closed is gone, and opening, enabling and disabling leave the other counters alone.
\<close>

definition perf_kernel ::
  "'k perf_os \<Rightarrow> ('k \<Rightarrow> int set) \<Rightarrow> ('k \<Rightarrow> int set) \<Rightarrow> ('k \<Rightarrow> int \<Rightarrow> u64) \<Rightarrow> bool" where
  "perf_kernel os fds running val \<longleftrightarrow>
     (\<forall>a pid cpu k fd k'. po_open os a pid cpu k = (fd, k') \<longrightarrow>
        running k' = running k \<and> (if fd < 0 then fds k' = fds k else fd \<notin> fds k \<and> fds k' = insert fd (fds k))) \<and>
     (\<forall>fd r k. fds (po_ioctl os fd r k) = fds k \<and>
        running (po_ioctl os fd r k) =
          (case r of IOC_RESET \<Rightarrow> running k | IOC_ENABLE \<Rightarrow> insert fd (running k) | IOC_DISABLE \<Rightarrow> running k - {fd})) \<and>
     (\<forall>fd k. fds (po_close os fd k) = fds k - {fd} \<and> running (po_close os fd k) = running k - {fd}) \<and>
     (\<forall>fd k. fd \<in> fds k \<longrightarrow> po_read os fd k = (Some (val k fd), k))"

lemma perf_kernel_open:
  assumes "perf_kernel os fds running val" "po_open os a pid cpu k = (fd, k')"
  shows "running k' = running k" "fd < 0 \<Longrightarrow> fds k' = fds k" "\<not> fd < 0 \<Longrightarrow> fd \<notin> fds k \<and> fds k' = insert fd (fds k)"
  using assms unfolding perf_kernel_def by metis+

lemma perf_kernel_ioctl:
  assumes "perf_kernel os fds running val"
  shows "fds (po_ioctl os fd r k) = fds k" "running (po_ioctl os fd IOC_RESET k) = running k"
    "running (po_ioctl os fd IOC_ENABLE k) = insert fd (running k)" "running (po_ioctl os fd IOC_DISABLE k) = running k - {fd}"
    "fds (po_close os fd k) = fds k - {fd}" "running (po_close os fd k) = running k - {fd}"
  using assms by (simp_all add: perf_kernel_def)

definition fds_of :: "perf_counter list \<Rightarrow> int set" where
  "fds_of cs = {pc_fd c | c. c \<in> set cs \<and> counter_valid c}"

lemma fds_of_simps [simp]:
  "fds_of [] = {}"
  "fds_of (c # cs) = (if 0 \<le> pc_fd c then insert (pc_fd c) (fds_of cs) else fds_of cs)"
  by (auto simp: fds_of_def counter_valid_def)

lemma counter_new_fds:
  assumes "perf_kernel os fds running val" "counter_new os abi e cpu pid k = (c, k1)"
  shows "pc_event c = e \<and> running k1 = running k \<and>
    (if pc_fd c < 0 then fds k1 = fds k else pc_fd c \<notin> fds k \<and> fds k1 = insert (pc_fd c) (fds k))"
proof -
  obtain fd k0 where o: "po_open os (fill_attr abi e) pid cpu k = (fd, k0)" by fastforce
  then show ?thesis
    using perf_kernel_open [OF assms(1) o] perf_kernel_ioctl [OF assms(1)] assms(2)
    by (auto simp: counter_new_def Let_def split: if_splits)
qed

lemma counters_new_fds:
  assumes "perf_kernel os fds running val" "counters_new os abi es cpu pid k = (cs, k')"
  shows "map pc_event cs = es \<and> fds k' = fds k \<union> fds_of cs \<and> fds k \<inter> fds_of cs = {} \<and> running k' = running k"
  using assms(2)
proof (induction es arbitrary: k cs)
  case (Cons e es)
  obtain c k1 cs' where c: "counter_new os abi e cpu pid k = (c, k1)" "counters_new os abi es cpu pid k1 = (cs', k')"
      "cs = c # cs'"
    using Cons.prems by (auto split: prod.splits)
  note counter_new_fds [OF assms(1) c(1)]
  then show ?case using Cons.IH [OF c(2)] c(3) by (auto split: if_splits)
qed simp

lemma counters_start_stop:
  assumes "perf_kernel os fds running val"
  shows "fds (fold (counter_start os) cs k) = fds k \<and> running (fold (counter_start os) cs k) = running k \<union> fds_of cs"
    and "fds (fold (counter_stop os) cs k) = fds k \<and> running (fold (counter_stop os) cs k) = running k - fds_of cs"
    and "fds (fold (counter_delete os) cs k) = fds k - fds_of cs \<and> running (fold (counter_delete os) cs k) = running k - fds_of cs"
  by (induction cs arbitrary: k)
    (auto simp: counter_start_def counter_stop_def counter_delete_def perf_kernel_ioctl [OF assms])

lemma find_in_set: "find P xs = Some x \<Longrightarrow> x \<in> set xs"
  by (auto simp: find_Some_iff)

lemma scope_count_first:
  "scope_count os cs event k =
     (case find (\<lambda>c. pc_event c = event) cs of None \<Rightarrow> (0, k) | Some c \<Rightarrow> counter_read os c k)"
  by (induction cs) auto

lemma scope_lifecycle:
  assumes "perf_kernel os fds running val" "running k \<subseteq> fds k"
  shows "\<exists>cs k'. scope_new os abi events cpu pid k = (cs, k') \<and> map pc_event cs = events \<and>
    fds k' = fds k \<union> fds_of cs \<and> fds k \<inter> fds_of cs = {} \<and> running k' = running k \<union> fds_of cs \<and>
    (\<forall>event. scope_count os cs event k' =
       (case find (\<lambda>c. pc_event c = event) cs of
          None \<Rightarrow> (0, k') | Some c \<Rightarrow> (if counter_valid c then val k' (pc_fd c) else 0, k'))) \<and>
    fds (scope_delete os cs k') = fds k \<and> running (scope_delete os cs k') = running k"
proof -
  obtain cs k1 where c: "counters_new os abi events cpu pid k = (cs, k1)" by fastforce
  let ?k' = "fold (counter_start os) cs k1"
  note n = counters_new_fds [OF assms(1) c] and st = counters_start_stop [OF assms(1)]
  have k': "scope_new os abi events cpu pid k = (cs, ?k')" using c by (simp add: scope_new_def)
  have "counter_read os c ?k' = (if counter_valid c then val ?k' (pc_fd c) else 0, ?k')" if "c \<in> set cs" for c
  proof (cases "counter_valid c")
    case True
    then have "pc_fd c \<in> fds ?k'" using that n st(1) by (auto simp: fds_of_def)
    then have "po_read os (pc_fd c) ?k' = (Some (val ?k' (pc_fd c)), ?k')"
      using assms(1) by (simp add: perf_kernel_def)
    then show ?thesis using True by (simp add: counter_read_def counter_valid_def)
  qed (simp add: counter_read_def counter_valid_def)
  then have "scope_count os cs event ?k' = (case find (\<lambda>c. pc_event c = event) cs of
      None \<Rightarrow> (0, ?k') | Some c \<Rightarrow> (if counter_valid c then val ?k' (pc_fd c) else 0, ?k'))" for event
    unfolding scope_count_first by (cases "find (\<lambda>c. pc_event c = event) cs") (simp_all add: find_in_set)
  moreover have "fds (scope_delete os cs ?k') = fds k" "running (scope_delete os cs ?k') = running k"
    using n st assms(2) by (auto simp: scope_delete_def)
  ultimately show ?thesis using k' n st(1) by (intro exI [of _ cs] exI [of _ ?k']) auto
qed

section \<open>Properties\<close>

text \<open>
  C29. A scope owns its counters. Its construction opens one counter per event, in order, and starts those
  that could be opened; \<^verbatim>\<open>count\<close> returns the value of the first counter of an event and 0 when there is none or
  it could not be opened; and destruction leaves the kernel with the descriptors and the running counters it
  had before.
\<close>

theorem perf_scope_raii:
  assumes "perf_kernel os fds running val" "running k \<subseteq> fds k"
  shows "\<exists>cs k'. scope_new os abi events cpu pid k = (cs, k') \<and> map pc_event cs = events \<and>
    fds k' = fds k \<union> fds_of cs \<and> fds k \<inter> fds_of cs = {} \<and> running k' = running k \<union> fds_of cs \<and>
    (\<forall>event. scope_count os cs event k' =
       (case find (\<lambda>c. pc_event c = event) cs of
          None \<Rightarrow> (0, k') | Some c \<Rightarrow> (if counter_valid c then val k' (pc_fd c) else 0, k'))) \<and>
    fds (scope_delete os cs k') = fds k \<and> running (scope_delete os cs k') = running k"
  by (rule scope_lifecycle [OF assms])

text \<open>Witness: a kernel that lists its descriptors and supports every event but the store misses.\<close>

definition list_kernel :: "(int list \<times> int list) perf_os" where
  "list_kernel = \<lparr>po_open = (\<lambda>a pid cpu (f, r). if at_config a = 65795 then (-1, f, r) else
       (Max (set (0 # f)) + 1, (Max (set (0 # f)) + 1) # f, r)),
     po_ioctl = (\<lambda>fd q (f, r). (f, case q of IOC_RESET \<Rightarrow> r | IOC_ENABLE \<Rightarrow> fd # r | IOC_DISABLE \<Rightarrow> removeAll fd r)),
     po_read = (\<lambda>fd (f, r). (if fd \<in> set f then Some 7 else None, f, r)),
     po_close = (\<lambda>fd (f, r). (removeAll fd f, removeAll fd r))\<rparr>"

definition sample_abi :: perf_abi where
  "sample_abi = \<lparr>pa_attr_size = 136, pa_TYPE_HARDWARE = 0, pa_TYPE_HW_CACHE = 3, pa_HW_CACHE_MISSES = 3,
     pa_HW_BRANCH_MISSES = 5, pa_HW_INSTRUCTIONS = 1, pa_HW_CPU_CYCLES = 0, pa_CACHE_L1D = 0, pa_CACHE_DTLB = 3,
     pa_OP_READ = 0, pa_OP_WRITE = 1, pa_RESULT_MISS = 1\<rparr>"

lemma list_kernel_ok: "perf_kernel list_kernel (\<lambda>k. set (fst k)) (\<lambda>k. set (snd k)) (\<lambda>_ _. 7)"
proof -
  have "\<not> Max (insert 0 (set f)) + 1 < 0" "Max (insert 0 (set f)) + 1 \<notin> set f" for f :: "int list"
  proof -
    have "0 \<le> Max (insert 0 (set f))" by simp
    then show "\<not> Max (insert 0 (set f)) + 1 < 0" by linarith
    show "Max (insert 0 (set f)) + 1 \<notin> set f"
      using Max_ge [of "insert 0 (set f)" "Max (insert 0 (set f)) + 1"] by auto
  qed
  then show ?thesis
    by (auto simp: perf_kernel_def list_kernel_def split: if_splits perf_ioctl.splits)
qed

theorem perf_scope_raii_witness:
  "\<exists>cs k'. scope_new list_kernel sample_abi [INSTRUCTIONS, TLB_STORE_MISSES] (-1) 0 ([5], [5]) = (cs, k') \<and>
    map pc_event cs = [INSTRUCTIONS, TLB_STORE_MISSES] \<and>
    set (fst (scope_delete list_kernel cs k')) = {5} \<and> set (snd (scope_delete list_kernel cs k')) = {5}"
proof -
  have "set (snd ([5 :: int], [5 :: int])) \<subseteq> set (fst ([5 :: int], [5 :: int]))" by simp
  from perf_scope_raii [OF list_kernel_ok this, of sample_abi "[INSTRUCTIONS, TLB_STORE_MISSES]" "-1" 0]
  show ?thesis by (elim exE conjE, intro exI conjI) (assumption, assumption, simp_all)
qed

end
