(* ===== verification/Perf_Baseline.thy ===== *)
theory Perf_Baseline
  imports Perf_Counters Huge_Alloc "HOL-Library.Multiset"
begin

unbundle bit_operations_syntax

text \<open>
  The measuring program \<^verbatim>\<open>tools/perf_baseline.cpp\<close>: the same workload over a region of regular pages and over
  one of huge pages, with the counters of \<open>Perf_Counters\<close> around it. The kernel is the parameter \<open>k\<close> of
  \<open>Huge_Alloc\<close> for the mappings and \<open>pos\<close> for the counters. Memory maps the address of a slot to the eight
  bytes there; \<open>None\<close> is an access outside the region. \<^verbatim>\<open>order\<close>, which \<^verbatim>\<open>std::shuffle\<close> produces from the
  indices, is a parameter.
\<close>

section \<open>The regions and the workload\<close>

definition kBufSize :: u64 where "kBufSize = 2048"
definition kBufCount :: u64 where "kBufCount = 65536"
definition kPasses :: nat where "kPasses = 64"

record region =
  re_base :: u64
  re_bytes :: u64
  re_huge :: bool

definition no_region :: region where
  "no_region = \<lparr>re_base = 0, re_bytes = 0, re_huge = False\<rparr>"

definition alloc_4k :: "'os os_calls \<Rightarrow> u64 \<Rightarrow> 'os \<Rightarrow> region \<times> 'os" where
  "alloc_4k k bytes os =
     (case os_mmap k os False bytes of
        (None, os1) \<Rightarrow> (no_region, os1)
      | (Some p, os1) \<Rightarrow> (\<lparr>re_base = p, re_bytes = bytes, re_huge = False\<rparr>, os1))"

definition alloc_huge :: "'os os_calls \<Rightarrow> u64 \<Rightarrow> 'os \<Rightarrow> region \<times> 'os" where
  "alloc_huge k bytes os =
     (let kHuge = 2 * 1024 * 1024; rounded = (bytes + kHuge - 1) div kHuge * kHuge in
      case os_mmap k os True rounded of
        (None, os1) \<Rightarrow> alloc_4k k bytes os1
      | (Some p, os1) \<Rightarrow> (\<lparr>re_base = p, re_bytes = rounded, re_huge = True\<rparr>, os1))"

type_synonym slots = "u64 \<Rightarrow> u64"

fun run_order :: "region \<Rightarrow> u64 \<Rightarrow> u32 list \<Rightarrow> slots \<times> u64 \<Rightarrow> (slots \<times> u64) option" where
  "run_order r p [] ms = Some ms"
| "run_order r p (idx # order) (mem, acc) =
     (let off = ucast idx * kBufSize in
      if unat off + 8 \<le> unat (re_bytes r) then
        (let slot = re_base r + off; mem1 = mem(slot := ucast idx + p)
         in run_order r p order (mem1, acc + mem1 slot))
      else None)"

fun run_passes :: "region \<Rightarrow> u32 list \<Rightarrow> nat list \<Rightarrow> slots \<times> u64 \<Rightarrow> (slots \<times> u64) option" where
  "run_passes r order [] ms = Some ms"
| "run_passes r order (p # ps) ms =
     (case run_order r (of_nat p) order ms of None \<Rightarrow> None | Some ms' \<Rightarrow> run_passes r order ps ms')"

definition run_workload :: "region \<Rightarrow> u32 list \<Rightarrow> slots \<Rightarrow> (slots \<times> u64) option" where
  "run_workload r order mem = run_passes r order [0..<kPasses] (mem, 0)"

section \<open>The measurement\<close>

record metrics =
  me_l1_miss :: u64
  me_llc_miss :: u64
  me_dtlb_load_miss :: u64
  me_dtlb_store_miss :: u64
  me_ins :: u64
  me_cyc :: u64

definition ipc :: "metrics \<Rightarrow> rat option" where
  "ipc m = (if me_cyc m \<noteq> 0 then ddiv (double_of (me_ins m)) (double_of (me_cyc m)) else Some 0)"

definition measured_events :: "perf_event list" where
  "measured_events = [L1_CACHE_MISSES, LLC_CACHE_MISSES, TLB_LOAD_MISSES, TLB_STORE_MISSES, INSTRUCTIONS, CYCLES]"

definition measure_region ::
  "'k perf_os \<Rightarrow> perf_abi \<Rightarrow> region \<Rightarrow> u32 list \<Rightarrow> slots \<times> 'k \<Rightarrow> (metrics \<times> slots \<times> 'k) option" where
  "measure_region pos abi r order = (\<lambda>(mem, k).
     (let (cs, k1) = scope_new pos abi measured_events (-1) 0 k in
      case run_workload r order mem of
        None \<Rightarrow> None
      | Some (mem1, sink) \<Rightarrow>
          (let (l1, k2) = scope_count pos cs L1_CACHE_MISSES k1;
               (llc, k3) = scope_count pos cs LLC_CACHE_MISSES k2;
               (ld, k4) = scope_count pos cs TLB_LOAD_MISSES k3;
               (st, k5) = scope_count pos cs TLB_STORE_MISSES k4;
               (ins, k6) = scope_count pos cs INSTRUCTIONS k5;
               (cyc, k7) = scope_count pos cs CYCLES k6
           in Some (\<lparr>me_l1_miss = l1, me_llc_miss = llc, me_dtlb_load_miss = ld, me_dtlb_store_miss = st,
                     me_ins = ins, me_cyc = cyc\<rparr>, mem1, scope_delete pos cs k7))))"

definition reduction_pct :: "u64 \<Rightarrow> u64 \<Rightarrow> rat option" where
  "reduction_pct base improved =
     (if base = 0 then Some 0
      else (case ddiv (dsub (double_of base) (double_of improved)) (double_of base) of
              None \<Rightarrow> None | Some q \<Rightarrow> Some (dmul q 100)))"

definition table_row :: "string \<Rightarrow> u64 \<Rightarrow> u64 \<Rightarrow> string \<times> u64 \<times> u64 \<times> rat option" where
  "table_row name a b = (name, a, b, reduction_pct a b)"

record baseline_output =
  bo_huge :: bool
  bo_counters :: bool
  bo_rows :: "(string \<times> u64 \<times> u64 \<times> rat option) list"
  bo_ipc :: "rat option \<times> rat option"
  bo_tlb_reduction :: "rat option"

definition baseline_table :: "metrics \<Rightarrow> metrics \<Rightarrow> (string \<times> u64 \<times> u64 \<times> rat option) list" where
  "baseline_table a b =
     [table_row ''L1_CACHE_MISSES'' (me_l1_miss a) (me_l1_miss b),
      table_row ''LLC_CACHE_MISSES'' (me_llc_miss a) (me_llc_miss b),
      table_row ''TLB_LOAD_MISSES'' (me_dtlb_load_miss a) (me_dtlb_load_miss b),
      table_row ''TLB_STORE_MISSES'' (me_dtlb_store_miss a) (me_dtlb_store_miss b),
      table_row ''INSTRUCTIONS'' (me_ins a) (me_ins b),
      table_row ''CYCLES'' (me_cyc a) (me_cyc b)]"

text \<open>\<^verbatim>\<open>main\<close>: the exit code, the output, and the states of the mappings, the memory and the counters.\<close>

definition baseline_main ::
  "'os os_calls \<Rightarrow> 'k perf_os \<Rightarrow> perf_abi \<Rightarrow> u32 list \<Rightarrow> 'os \<times> slots \<times> 'k \<Rightarrow>
     (nat \<times> baseline_output option \<times> 'os \<times> slots \<times> 'k) option" where
  "baseline_main k pos abi order = (\<lambda>(os, mem, pk).
     (let bytes = kBufSize * kBufCount;
          (r4k, os1) = alloc_4k k bytes os;
          (rhuge, os2) = alloc_huge k bytes os1
      in if re_base r4k = 0 \<or> re_base rhuge = 0 then Some (1, None, os2, mem, pk)
         else
           (let (probe, pk1) = counter_new pos abi TLB_LOAD_MISSES (-1) 0 pk;
                pk2 = counter_delete pos probe pk1
            in case measure_region pos abi r4k order (mem, pk2) of
                 None \<Rightarrow> None
               | Some (a, mem1, pk3) \<Rightarrow>
                   (case measure_region pos abi rhuge order (mem1, pk3) of
                      None \<Rightarrow> None
                    | Some (b, mem2, pk4) \<Rightarrow>
                        (let out = \<lparr>bo_huge = re_huge rhuge, bo_counters = counter_valid probe,
                               bo_rows = baseline_table a b, bo_ipc = (ipc a, ipc b),
                               bo_tlb_reduction = reduction_pct (me_dtlb_load_miss a + me_dtlb_store_miss a)
                                 (me_dtlb_load_miss b + me_dtlb_store_miss b)\<rparr>;
                             os3 = snd (os_munmap k os2 (re_base r4k) (re_bytes r4k));
                             os4 = snd (os_munmap k os3 (re_base rhuge) (re_bytes rhuge))
                         in Some (0, Some out, os4, mem2, pk4))))))"

section \<open>The workload is the same for both regions\<close>

lemma run_order_sum:
  assumes "\<forall>i \<in> set order. unat i < 65536" "2 ^ 27 \<le> unat (re_bytes r)"
  shows "\<exists>mem'. run_order r p order (mem, s) = Some (mem', s + (\<Sum>i \<leftarrow> order. ucast i + p))"
  using assms(1)
proof (induction order arbitrary: mem s)
  case (Cons i order)
  have "unat (ucast i :: u64) = unat i" using Cons.prems by (simp add: unsigned_ucast_eq take_bit_nat_eq_self)
  then have off: "unat (ucast i * kBufSize) = unat i * 2048" using Cons.prems by (simp add: kBufSize_def unat_word_ariths)
  then have "unat (ucast i * kBufSize) + 8 \<le> unat (re_bytes r)" using Cons.prems assms(2) by simp
  moreover obtain mem1 where "run_order r p order (mem(re_base r + ucast i * kBufSize := ucast i + p), s + (ucast i + p))
      = Some (mem1, s + (ucast i + p) + (\<Sum>i \<leftarrow> order. ucast i + p))"
    using Cons.IH Cons.prems by fastforce
  ultimately show ?case by (simp add: add.assoc)
qed simp

lemma run_passes_sum:
  assumes "\<forall>i \<in> set order. unat i < 65536" "2 ^ 27 \<le> unat (re_bytes r)"
  shows "\<exists>mem'. run_passes r order ps (mem, s) = Some (mem', s + (\<Sum>p \<leftarrow> ps. \<Sum>i \<leftarrow> order. ucast i + of_nat p))"
proof (induction ps arbitrary: mem s)
  case (Cons p ps)
  obtain mem1 where "run_order r (of_nat p) order (mem, s) = Some (mem1, s + (\<Sum>i \<leftarrow> order. ucast i + of_nat p))"
    using run_order_sum [OF assms] by blast
  then show ?case using Cons [of mem1 "s + (\<Sum>i \<leftarrow> order. ucast i + of_nat p)"] by (simp add: add.assoc)
qed simp

lemma sum_list_affine: "(\<Sum>p \<leftarrow> ps. a + b * of_nat p) = of_nat (length ps) * a + b * (of_nat (sum_list ps) :: u64)"
  by (induction ps) (simp_all add: algebra_simps)

lemma sum_list_offset: "(\<Sum>n \<leftarrow> ns. of_nat n + p) = of_nat (sum_list ns) + of_nat (length ns) * (p :: u64)"
  by (induction ns) (simp_all add: algebra_simps)

lemma sum_upt: "2 * sum_list [0..<n] = n * (n - 1)"
  by (induction n) (auto simp: algebra_simps)

definition all_slots :: "u32 list" where
  "all_slots = map of_nat [0..<65536]"

lemma all_slots_sum: "(\<Sum>i \<leftarrow> all_slots. ucast i + p) = 2147450880 + 65536 * (p :: u64)"
proof -
  have u: "ucast (of_nat n :: u32) = (of_nat n :: u64)" if "n < 65536" for n
    using that by (simp add: unsigned_of_nat take_bit_nat_eq_self)
  have "(\<Sum>i \<leftarrow> all_slots. ucast i + p) = (\<Sum>n \<leftarrow> [0..<65536]. of_nat n + p)"
    unfolding all_slots_def map_map by (rule arg_cong [where f = sum_list], rule map_cong) (simp_all add: u)
  also have "\<dots> = of_nat (sum_list [0..<65536]) + of_nat (length [0..<65536]) * p"
    by (rule sum_list_offset)
  also have "sum_list [0..<65536] = 2147450880"
    using sum_upt [of 65536] by simp
  finally show ?thesis by simp
qed

lemma run_workload_sum:
  assumes "mset order = mset all_slots" "2 ^ 27 \<le> unat (re_bytes r)"
  shows "\<exists>mem'. run_workload r order mem = Some (mem', 137568976896)"
proof -
  have small: "\<forall>i \<in> set order. unat i < 65536"
    using mset_eq_setD [OF assms(1)] by (auto simp: all_slots_def unat_of_nat_mod)
  have order: "(\<Sum>i \<leftarrow> order. ucast i + p) = 2147450880 + 65536 * p" for p :: u64
  proof -
    have "(\<Sum>i \<leftarrow> order. ucast i + p) = (\<Sum>i \<leftarrow> all_slots. ucast i + p)"
      by (simp only: sum_mset_sum_list [symmetric] mset_map assms(1))
    then show ?thesis by (simp only: all_slots_sum)
  qed
  have "(\<Sum>p \<leftarrow> [0..<kPasses]. \<Sum>i \<leftarrow> order. ucast i + of_nat p) = (137568976896 :: u64)"
  proof -
    have "(\<Sum>p \<leftarrow> [0..<kPasses]. \<Sum>i \<leftarrow> order. ucast i + of_nat p) = (\<Sum>p \<leftarrow> [0..<64]. 2147450880 + 65536 * of_nat p :: u64)"
      by (simp only: order kPasses_def)
    also have "\<dots> = of_nat (length [0..<64]) * 2147450880 + 65536 * of_nat (sum_list [0..<64])"
      by (rule sum_list_affine)
    also have "sum_list [0..<64] = 2016" using sum_upt [of 64] by simp
    finally show ?thesis by simp
  qed
  then show ?thesis using run_passes_sum [OF small assms(2), of "[0..<kPasses]" mem 0] by (simp add: run_workload_def)
qed

section \<open>The program leaves nothing behind\<close>

lemma measure_region_ok:
  assumes "perf_kernel pos fds running val" "running k \<subseteq> fds k" "run_workload r order mem = Some (mem1, s)"
  shows "\<exists>m k'. measure_region pos abi r order (mem, k) = Some (m, mem1, k') \<and> fds k' = fds k \<and> running k' = running k"
proof -
  obtain cs k1 where sc: "scope_new pos abi measured_events (-1) 0 k = (cs, k1)"
      "fds (scope_delete pos cs k1) = fds k" "running (scope_delete pos cs k1) = running k"
      "\<forall>event. scope_count pos cs event k1 = (case find (\<lambda>c. pc_event c = event) cs of
          None \<Rightarrow> (0, k1) | Some c \<Rightarrow> (if counter_valid c then val k1 (pc_fd c) else 0, k1))"
    using scope_lifecycle [OF assms(1,2), of abi measured_events "-1" 0] by blast
  have "snd (scope_count pos cs event k1) = k1" for event
    using sc(4) by (cases "find (\<lambda>c. pc_event c = event) cs") simp_all
  then have "scope_count pos cs event k1 = (fst (scope_count pos cs event k1), k1)" for event
    by (metis prod.collapse)
  then show ?thesis using sc(1-3) assms(3) by (simp add: measure_region_def) (metis (no_types) case_prod_conv)
qed

lemma probe_ok:
  assumes "perf_kernel pos fds running val" "running k \<subseteq> fds k" "counter_new pos abi e cpu pid k = (c, k1)"
  shows "fds (counter_delete pos c k1) = fds k \<and> running (counter_delete pos c k1) = running k"
  using counter_new_fds [OF assms(1,3)] perf_kernel_ioctl [OF assms(1)] assms(2)
  by (auto simp: counter_delete_def split: if_splits)

lemma region_bytes:
  assumes "alloc_4k k 134217728 os = (r, os1) \<or> alloc_huge k 134217728 os = (r, os1)" "re_base r \<noteq> 0"
  shows "re_bytes r = 134217728"
  using assms by (auto simp: alloc_4k_def alloc_huge_def no_region_def split: prod.splits option.splits)

text \<open>
  C37. The measuring program. When both regions can be mapped, the program finishes without leaving a
  region; the workload computes the same number over both of them, whatever the order of the slots; and
  the counters it opened are stopped and closed, and both regions unmapped.
\<close>

theorem baseline_finishes:
  assumes "perf_kernel pos fds running val" "running pk \<subseteq> fds pk" "mset order = mset all_slots"
    and "alloc_4k k 134217728 os = (r4k, os1)" "alloc_huge k 134217728 os1 = (rhuge, os2)"
    and "re_base r4k \<noteq> 0" "re_base rhuge \<noteq> 0"
  shows "\<exists>out mem1 mem2 pk'. baseline_main k pos abi order (os, mem, pk) =
      Some (0, Some out, snd (os_munmap k (snd (os_munmap k os2 (re_base r4k) (re_bytes r4k))) (re_base rhuge) (re_bytes rhuge)), mem2, pk') \<and>
    run_workload r4k order mem = Some (mem1, 137568976896) \<and> run_workload rhuge order mem1 = Some (mem2, 137568976896) \<and>
    fds pk' = fds pk \<and> running pk' = running pk"
proof -
  have bytes: "2 ^ 27 \<le> unat (re_bytes r4k)" "2 ^ 27 \<le> unat (re_bytes rhuge)"
    using region_bytes [of k os r4k os1] region_bytes [of k os1 rhuge os2] assms(4-7) by auto
  obtain probe pk1 where probe: "counter_new pos abi TLB_LOAD_MISSES (-1) 0 pk = (probe, pk1)" by fastforce
  define pk2 where "pk2 = counter_delete pos probe pk1"
  have pk2: "fds pk2 = fds pk" "running pk2 = running pk"
    using probe_ok [OF assms(1,2) probe] by (simp_all add: pk2_def)
  obtain mem1 where w1: "run_workload r4k order mem = Some (mem1, 137568976896)"
    using run_workload_sum [OF assms(3) bytes(1)] by blast
  obtain a pk3 where m1: "measure_region pos abi r4k order (mem, pk2) = Some (a, mem1, pk3)" "fds pk3 = fds pk" "running pk3 = running pk"
    using measure_region_ok [OF assms(1) _ w1, of pk2 abi] pk2 assms(2) by auto
  obtain mem2 where w2: "run_workload rhuge order mem1 = Some (mem2, 137568976896)"
    using run_workload_sum [OF assms(3) bytes(2)] by blast
  obtain b pk4 where m2: "measure_region pos abi rhuge order (mem1, pk3) = Some (b, mem2, pk4)" "fds pk4 = fds pk" "running pk4 = running pk"
    using measure_region_ok [OF assms(1) _ w2, of pk3 abi] m1 assms(2) by auto
  have "kBufSize * kBufCount = 134217728" by (simp add: kBufSize_def kBufCount_def)
  then show ?thesis
    using assms(4-7) probe m1 m2 w1 w2 by (simp add: baseline_main_def Let_def pk2_def [symmetric])
qed

definition seq_os :: "u64 os_calls" where
  "seq_os = \<lparr>os_mmap = (\<lambda>os huge len. (Some os, os + len)), os_munmap = (\<lambda>os p len. (True, os)),
     os_mbind = (\<lambda>os p len mask. os)\<rparr>"

theorem baseline_finishes_witness:
  "\<exists>out mem pk'. baseline_main seq_os list_kernel sample_abi (rev all_slots) (4096, \<lambda>_. 0, ([5], [5])) =
    Some (0, Some out, 268439552, mem, pk') \<and> set (fst pk') = {5} \<and> set (snd pk') = {5}"
proof -
  let ?r = "\<lambda>p h. \<lparr>re_base = p, re_bytes = 134217728, re_huge = h\<rparr>"
  have 1: "alloc_4k seq_os 134217728 4096 = (?r 4096 False, 134221824)"
    "alloc_huge seq_os 134217728 134221824 = (?r 134221824 True, 268439552)"
    by (simp_all add: alloc_4k_def alloc_huge_def seq_os_def)
  have "set (snd ([5 :: int], [5 :: int])) \<subseteq> set (fst ([5 :: int], [5 :: int]))" "mset (rev all_slots) = mset all_slots"
    by simp_all
  from baseline_finishes [OF list_kernel_ok this 1, of sample_abi "\<lambda>_. 0"]
  obtain out mem2 pk' where "baseline_main seq_os list_kernel sample_abi (rev all_slots) (4096, \<lambda>_. 0, ([5], [5])) =
      Some (0, Some out, snd (os_munmap seq_os (snd (os_munmap seq_os 268439552 4096 134217728)) 134221824 134217728), mem2, pk')"
      "set (fst pk') = set (fst ([5 :: int], [5 :: int]))" "set (snd pk') = set (snd ([5 :: int], [5 :: int]))"
    by (auto simp del: mset_rev)
  then show ?thesis by (simp add: seq_os_def)
qed

end
