(* ===== verification/Pkt_Gen.thy ===== *)
theory Pkt_Gen
  imports Rdtsc Inet_Text
begin

text \<open>
  The packet generator \<^verbatim>\<open>tools/pkt_gen.cpp\<close>: the arguments and the socket, the calibration of the time-stamp counter
  and the loop that paces the packets. The clocks are the parameter \<open>clk\<close>, \<^verbatim>\<open>sendto\<close> is the parameter \<open>snd_pkt\<close>, which
  tells whether the call succeeded, and the other calls are those of \<open>gen_os\<close>; all work on a state \<open>'w\<close>. The
  loops are partial functions: \<open>None\<close> stands for a loop that never ends, for the division by zero of the
  calibration, or for a number that does not fit an \<^verbatim>\<open>int\<close>. \<open>gen_run n\<close> is the first \<open>n\<close> rounds of the loop.
\<close>

section \<open>Calibration\<close>

partial_function (option) spin_ns :: "'w clock \<Rightarrow> u64 \<Rightarrow> 'w \<Rightarrow> 'w option" where
  [code]: "spin_ns clk t0 w =
     (let (t, w1) = mono_ns clk w in if t - t0 < 100000000 then spin_ns clk t0 w1 else Some w1)"

definition calibrate_tsc :: "'w clock \<Rightarrow> 'w \<Rightarrow> (u64 \<times> 'w) option" where
  "calibrate_tsc clk w =
     (let (t0, w1) = mono_ns clk w; (c0, w2) = rdtsc clk w1 in
      case spin_ns clk t0 w2 of
        None \<Rightarrow> None
      | Some w3 \<Rightarrow>
          (let (c1, w4) = rdtsc clk w3; (t1, w5) = mono_ns clk w4 in
           if t1 - t0 = 0 then None else Some ((c1 - c0) * 1000000000 div (t1 - t0), w5)))"

section \<open>The pacing loop\<close>

text \<open>The inner loop returns the reading that ended it.\<close>

partial_function (option) wait_tsc :: "'w clock \<Rightarrow> u64 \<Rightarrow> 'w \<Rightarrow> (u64 \<times> 'w) option" where
  [code]: "wait_tsc clk nxt w =
     (let (t, w1) = rdtsc clk w in if t < nxt then wait_tsc clk nxt w1 else Some (t, w1))"

text \<open>\<open>gs_log\<close> keeps the readings at which the packets were sent, \<open>gs_reports\<close> the printed rates.\<close>

record gen_state =
  gs_next :: u64
  gs_sec_mark :: u64
  gs_sent :: u64
  gs_last_sent :: u64
  gs_log :: "u64 list"
  gs_reports :: "(u64 \<times> u64) list"

definition gen_start :: "u64 \<Rightarrow> gen_state" where
  "gen_start t = \<lparr>gs_next = t, gs_sec_mark = t, gs_sent = 0, gs_last_sent = 0, gs_log = [], gs_reports = []\<rparr>"

definition gen_report :: "u64 \<Rightarrow> u64 \<Rightarrow> u64 \<Rightarrow> gen_state \<Rightarrow> gen_state" where
  "gen_report tsc_hz pps t g =
     (if tsc_hz \<le> t - gs_sec_mark g
      then g\<lparr>gs_reports := gs_reports g @ [(gs_sent g - gs_last_sent g, pps)], gs_last_sent := gs_sent g,
             gs_sec_mark := gs_sec_mark g + tsc_hz\<rparr>
      else g)"

definition gen_round ::
  "'w clock \<Rightarrow> ('w \<Rightarrow> bool \<times> 'w) \<Rightarrow> u64 \<Rightarrow> u64 \<Rightarrow> u64 \<Rightarrow> gen_state \<times> 'w \<Rightarrow> (gen_state \<times> 'w) option" where
  "gen_round clk snd_pkt tsc_hz interval pps = (\<lambda>(g, w).
     (let nxt = gs_next g + interval in
      case wait_tsc clk nxt w of
        None \<Rightarrow> None
      | Some (t, w1) \<Rightarrow>
          (let (ok, w2) = snd_pkt w1;
               g1 = g\<lparr>gs_next := nxt, gs_log := gs_log g @ [t], gs_sent := (if ok then gs_sent g + 1 else gs_sent g)\<rparr>;
               (t2, w3) = rdtsc clk w2
           in Some (gen_report tsc_hz pps t2 g1, w3))))"

fun gen_run ::
  "nat \<Rightarrow> 'w clock \<Rightarrow> ('w \<Rightarrow> bool \<times> 'w) \<Rightarrow> u64 \<Rightarrow> u64 \<Rightarrow> u64 \<Rightarrow> gen_state \<times> 'w \<Rightarrow> (gen_state \<times> 'w) option" where
  "gen_run 0 clk snd_pkt tsc_hz interval pps gw = Some gw"
| "gen_run (Suc n) clk snd_pkt tsc_hz interval pps gw =
     (case gen_run n clk snd_pkt tsc_hz interval pps gw of
        None \<Rightarrow> None | Some gw' \<Rightarrow> gen_round clk snd_pkt tsc_hz interval pps gw')"

text \<open>The loop itself ends when the signal has set the flag.\<close>

partial_function (option) gen_loop ::
  "('w \<Rightarrow> bool) \<Rightarrow> 'w clock \<Rightarrow> ('w \<Rightarrow> bool \<times> 'w) \<Rightarrow> u64 \<Rightarrow> u64 \<Rightarrow> u64 \<Rightarrow> gen_state \<times> 'w \<Rightarrow> (gen_state \<times> 'w) option" where
  [code]: "gen_loop stop clk snd_pkt tsc_hz interval pps gw =
     (if stop (snd gw) then Some gw
      else case gen_round clk snd_pkt tsc_hz interval pps gw of
        None \<Rightarrow> None | Some gw' \<Rightarrow> gen_loop stop clk snd_pkt tsc_hz interval pps gw')"

section \<open>The program\<close>

text \<open>
  The system calls: \<open>go_bind\<close> is \<^verbatim>\<open>setsockopt\<close> with the interface, \<open>go_calloc\<close> returns an address (0 when
  there is no memory), \<open>go_sendto\<close> gets the descriptor, the buffer, the size, the address and the port.
\<close>

record 'w gen_os =
  go_clock :: "'w clock"
  go_stop :: "'w \<Rightarrow> bool"
  go_socket :: "'w \<Rightarrow> int \<times> 'w"
  go_bind :: "int \<Rightarrow> string \<Rightarrow> 'w \<Rightarrow> bool \<times> 'w"
  go_calloc :: "u64 \<Rightarrow> 'w \<Rightarrow> u64 \<times> 'w"
  go_sendto :: "int \<Rightarrow> u64 \<Rightarrow> u64 \<Rightarrow> u32 \<Rightarrow> u16 \<Rightarrow> 'w \<Rightarrow> bool \<times> 'w"
  go_free :: "u64 \<Rightarrow> 'w \<Rightarrow> 'w"
  go_close :: "int \<Rightarrow> 'w \<Rightarrow> 'w"

datatype gen_output =
    Gen_usage string
  | Socket_error
  | Bind_warning
  | Bad_dst_ip string
  | Send_rate u64 u64
  | Total_sent u64

text \<open>The part of \<^verbatim>\<open>main\<close> from the allocation of the packet to the end.\<close>

definition gen_transmit ::
  "'w gen_os \<Rightarrow> int \<Rightarrow> u32 \<Rightarrow> u16 \<Rightarrow> u64 \<Rightarrow> u64 \<Rightarrow> 'w \<Rightarrow> (gen_output list \<times> 'w) option" where
  "gen_transmit os fd ip dst_port pkt_size pps w =
     (let (buf, w1) = go_calloc os (if pkt_size \<noteq> 0 then pkt_size else 1) w in
      case calibrate_tsc (go_clock os) w1 of
        None \<Rightarrow> None
      | Some (tsc_hz, w2) \<Rightarrow>
          (let interval = (if pps \<noteq> 0 then tsc_hz div pps else 0); (t, w3) = rdtsc (go_clock os) w2 in
           case gen_loop (go_stop os) (go_clock os) (go_sendto os fd buf pkt_size ip dst_port) tsc_hz interval pps
                  (gen_start t, w3) of
             None \<Rightarrow> None
           | Some (g, w4) \<Rightarrow>
               Some (map (\<lambda>(n, target). Send_rate n target) (gs_reports g) @ [Total_sent (gs_sent g)],
                     go_close os fd (go_free os buf w4))))"

definition gen_main :: "'w gen_os \<Rightarrow> string list \<Rightarrow> 'w \<Rightarrow> (int \<times> gen_output list \<times> 'w) option" where
  "gen_main os argv w =
     (if length argv < 6 then Some (1, [Gen_usage (concat (take 1 argv))], w)
      else case (atoi (argv ! 3), atoi (argv ! 4)) of
        (Some port, Some bytes) \<Rightarrow>
          (let (fd, w1) = go_socket os w in
           if fd < 0 then Some (1, [Socket_error], w1)
           else
             (let (bound, w2) = go_bind os fd (argv ! 1) w1;
                  warning = (if bound then [] else [Bind_warning])
              in case inet_pton (argv ! 2) of
                   None \<Rightarrow> Some (1, warning @ [Bad_dst_ip (argv ! 2)], w2)
                 | Some ip \<Rightarrow>
                     (case gen_transmit os fd ip (of_int port) (of_int bytes) (of_int (atoll (argv ! 5))) w2 of
                        None \<Rightarrow> None
                      | Some (out, w3) \<Rightarrow> Some (0, warning @ out, w3))))
      | _ \<Rightarrow> None)"

section \<open>The loops end\<close>

text \<open>When it is read often enough the counter, or the clock, shows a given value or a later one.\<close>

definition reaches :: "('w \<Rightarrow> u64 \<times> 'w) \<Rightarrow> u64 \<Rightarrow> bool" where
  "reaches rd b \<longleftrightarrow> (\<forall>w. \<exists>n. b \<le> fst (rd (((\<lambda>w. snd (rd w)) ^^ n) w)))"

lemma wait_tsc_ends:
  assumes "reaches (ck_tsc clk) b" "nxt \<le> b"
  shows "\<exists>t w'. wait_tsc clk nxt w = Some (t, w') \<and> nxt \<le> t"
proof -
  obtain n where "b \<le> fst (ck_tsc clk (((\<lambda>w. snd (ck_tsc clk w)) ^^ n) w))"
    using assms(1) by (auto simp: reaches_def)
  with assms(2) have "nxt \<le> fst (ck_tsc clk (((\<lambda>w. snd (ck_tsc clk w)) ^^ n) w))" by (rule order.trans)
  then show ?thesis
  proof (induction n arbitrary: w)
    case 0
    then show ?case by (subst wait_tsc.simps) (auto simp: rdtsc_def not_less split: prod.splits)
  next
    case (Suc n)
    obtain t w1 where rd: "ck_tsc clk w = (t, w1)" by fastforce
    then have "nxt \<le> fst (ck_tsc clk (((\<lambda>w. snd (ck_tsc clk w)) ^^ n) w1))"
      using Suc.prems by (simp add: funpow_Suc_right del: funpow.simps)
    then show ?case using Suc.IH rd by (subst wait_tsc.simps) (auto simp: rdtsc_def not_less)
  qed
qed

lemma spin_ns_ends:
  assumes "reaches (\<lambda>w. case mono_ns clk w of (t, w1) \<Rightarrow> (t - t0, w1)) 100000000"
  shows "\<exists>w'. spin_ns clk t0 w = Some w'"
proof -
  let ?rd = "\<lambda>w. case mono_ns clk w of (t, w1) \<Rightarrow> (t - t0, w1)"
  obtain n where "100000000 \<le> fst (?rd (((\<lambda>w. snd (?rd w)) ^^ n) w))"
    using assms by (auto simp: reaches_def)
  then show ?thesis
  proof (induction n arbitrary: w)
    case 0
    then show ?case by (subst spin_ns.simps) (auto simp: not_less split: prod.splits)
  next
    case (Suc n)
    obtain t w1 where rd: "mono_ns clk w = (t, w1)" by fastforce
    then have "100000000 \<le> fst (?rd (((\<lambda>w. snd (?rd w)) ^^ n) w1))"
      using Suc.prems by (simp add: funpow_Suc_right del: funpow.simps)
    then show ?case using Suc.IH rd by (subst spin_ns.simps) auto
  qed
qed

lemma gen_run_paced:
  assumes "reaches (ck_tsc clk) b" "unat t0 + n * unat interval \<le> unat b"
  shows "\<exists>g w'. gen_run n clk snd_pkt tsc_hz interval pps (gen_start t0, w) = Some (g, w') \<and>
    unat (gs_next g) = unat t0 + n * unat interval \<and> length (gs_log g) = n \<and>
    (\<forall>i < n. unat t0 + Suc i * unat interval \<le> unat (gs_log g ! i)) \<and>
    sum_list (map fst (gs_reports g)) = gs_last_sent g \<and> unat (gs_sent g) \<le> n"
  using assms(2)
proof (induction n)
  case 0
  then show ?case by (simp add: gen_start_def)
next
  case (Suc n)
  then obtain g w1 where g: "gen_run n clk snd_pkt tsc_hz interval pps (gen_start t0, w) = Some (g, w1)"
      "unat (gs_next g) = unat t0 + n * unat interval" "length (gs_log g) = n"
      "\<forall>i < n. unat t0 + Suc i * unat interval \<le> unat (gs_log g ! i)"
      "sum_list (map fst (gs_reports g)) = gs_last_sent g" "unat (gs_sent g) \<le> n"
    by auto
  have nxt: "unat (gs_next g + interval) = unat t0 + Suc n * unat interval"
    using Suc.prems g(2) unsigned_less [of b, where 'a = nat] by (simp add: unat_word_ariths)
  then have "gs_next g + interval \<le> b" using Suc.prems by (simp add: word_le_nat_alt)
  then obtain t w2 where t: "wait_tsc clk (gs_next g + interval) w1 = Some (t, w2)" "gs_next g + interval \<le> t"
    using wait_tsc_ends [OF assms(1)] by blast
  obtain ok w3 where s: "snd_pkt w2 = (ok, w3)" by fastforce
  obtain t2 w4 where r: "rdtsc clk w3 = (t2, w4)" by fastforce
  have "unat (gs_sent g + 1) \<le> Suc n"
    using g(6) by (simp add: unat_word_ariths le_trans [OF mod_less_eq_dividend])
  then show ?case
    using g t s r nxt
    by (auto simp: gen_round_def gen_report_def Let_def nth_append less_Suc_eq word_le_nat_alt)
qed

lemma paced_count:
  assumes "\<forall>i < length ts. t0 + Suc i * d \<le> ts ! i" "0 < (d :: nat)"
  shows "length (filter (\<lambda>t. t \<le> T) ts) \<le> (T - t0) div d"
proof -
  have "Suc i \<le> (T - t0) div d" if "i < length ts" "ts ! i \<le> T" for i
  proof -
    have "Suc i * d \<le> T - t0" using assms(1) that by (metis add_le_imp_le_diff add.commute le_trans)
    then show ?thesis using assms(2) by (simp add: less_eq_div_iff_mult_less_eq)
  qed
  then have "{i. i < length ts \<and> ts ! i \<le> T} \<subseteq> {..<(T - t0) div d}" by (auto simp: Suc_le_eq)
  then have "card {i. i < length ts \<and> ts ! i \<le> T} \<le> (T - t0) div d" by (metis card_lessThan card_mono finite_lessThan)
  then show ?thesis by (simp add: length_filter_conv_card)
qed

text \<open>The loop is as many rounds as pass before the flag is seen.\<close>

lemma gen_loop_run:
  assumes "gen_run n clk snd_pkt tsc_hz interval pps gw = Some gw'" "stop (snd gw')"
    and "\<And>m gw1. m < n \<Longrightarrow> gen_run m clk snd_pkt tsc_hz interval pps gw = Some gw1 \<Longrightarrow> \<not> stop (snd gw1)"
  shows "gen_loop stop clk snd_pkt tsc_hz interval pps gw = Some gw'"
proof -
  have "gen_loop stop clk snd_pkt tsc_hz interval pps gw = gen_loop stop clk snd_pkt tsc_hz interval pps gw1"
    if "gen_run m clk snd_pkt tsc_hz interval pps gw = Some gw1" "m \<le> n" for m gw1
    using that
  proof (induction m arbitrary: gw1)
    case (Suc m)
    obtain gw2 where gw2: "gen_run m clk snd_pkt tsc_hz interval pps gw = Some gw2"
        "gen_round clk snd_pkt tsc_hz interval pps gw2 = Some gw1"
      using Suc.prems(1) by (auto split: option.splits)
    have "gen_loop stop clk snd_pkt tsc_hz interval pps gw2 = gen_loop stop clk snd_pkt tsc_hz interval pps gw1"
      using assms(3) [OF _ gw2(1)] Suc.prems(2) gw2(2) by (subst gen_loop.simps) simp
    then show ?case using Suc.IH [OF gw2(1)] Suc.prems(2) by simp
  qed simp
  from this [OF assms(1)] show ?thesis using assms(2) gen_loop.simps [of stop] by simp
qed

text \<open>With printed arguments the program sends to that address and port at the calibrated interval.\<close>

lemma gen_main_args:
  assumes "go_socket os w = (fd, w1)" "0 \<le> fd" "go_bind os fd iface w1 = (True, w2)"
    and "port < 65536" "bytes < 2 ^ 31" "pps < 2 ^ 63"
  shows "gen_main os [prog, iface, ip_str ip, show_base 10 port, show_base 10 bytes, show_base 10 pps] w =
    map_option (\<lambda>(out, w3). (0, out, w3)) (gen_transmit os fd ip (of_nat port) (of_nat bytes) (of_nat pps) w2)"
proof -
  have "atoll (show_base 10 pps) = int pps" using strtol_show [of pps "[]"] assms(6) by (simp add: atoll_def)
  then show ?thesis
    using assms(1-5) atoi_show [of port] atoi_show [of bytes]
    by (auto simp: gen_main_def inet_round_trip split: option.splits)
qed

section \<open>Properties\<close>

text \<open>
  C28. The generator keeps its pace. With a counter that gets to \<open>n\<close> intervals after the start, \<open>n\<close> rounds end; the packet of
  round \<open>i\<close> is not sent before \<open>i + 1\<close> intervals have passed, so that by any reading \<open>T\<close> no more than one packet per
  interval has been sent; and the printed rates add up to the packets sent before the last report.
\<close>

theorem gen_paced:
  assumes "reaches (ck_tsc clk) b" "unat t0 + n * unat interval \<le> unat b" "interval \<noteq> 0"
  shows "\<exists>g w'. gen_run n clk snd_pkt tsc_hz interval pps (gen_start t0, w) = Some (g, w') \<and>
    length (gs_log g) = n \<and> (\<forall>i < n. unat t0 + Suc i * unat interval \<le> unat (gs_log g ! i)) \<and>
    (\<forall>T. length (filter (\<lambda>t. t \<le> T) (map unat (gs_log g))) \<le> (T - unat t0) div unat interval) \<and>
    sum_list (map fst (gs_reports g)) = gs_last_sent g \<and> unat (gs_sent g) \<le> n"
proof -
  obtain g w' where g: "gen_run n clk snd_pkt tsc_hz interval pps (gen_start t0, w) = Some (g, w')"
      "length (gs_log g) = n" "\<forall>i < n. unat t0 + Suc i * unat interval \<le> unat (gs_log g ! i)"
      "sum_list (map fst (gs_reports g)) = gs_last_sent g" "unat (gs_sent g) \<le> n"
    using gen_run_paced [OF assms(1,2), of snd_pkt tsc_hz pps w] by blast
  have "length (filter (\<lambda>t. t \<le> T) (map unat (gs_log g))) \<le> (T - unat t0) div unat interval" for T
    using g(2,3) assms(3) by (intro paced_count) (simp_all add: unat_gt_0)
  then show ?thesis using g by blast
qed

definition step_clock :: "u64 clock" where
  "step_clock = \<lparr>ck_tsc = (\<lambda>w. (w, w + 1)), ck_gettime = (\<lambda>w. ((0, w), w + 1)), ck_sleep = (\<lambda>w. w)\<rparr>"

lemma step_clock_reaches: "reaches (ck_tsc step_clock) b"
proof -
  have "((\<lambda>w. w + 1) ^^ n) w = w + of_nat n" for n and w :: u64 by (induction n) simp_all
  then have "\<exists>n. b \<le> fst (ck_tsc step_clock (((\<lambda>w. snd (ck_tsc step_clock w)) ^^ n) w))" for w
    by (intro exI [of _ "unat (b - w)"]) (simp add: step_clock_def)
  then show ?thesis by (simp add: reaches_def)
qed

theorem gen_paced_witness:
  "\<exists>g w'. gen_run 3 step_clock (\<lambda>w. (True, w)) 1000 10 100 (gen_start 5, 6) = Some (g, w') \<and>
    length (gs_log g) = 3 \<and> 35 \<le> unat (gs_log g ! 2)"
proof -
  have "unat (5 :: u64) + 3 * unat (10 :: u64) \<le> unat (35 :: u64)" "(10 :: u64) \<noteq> 0" by simp_all
  from gen_paced [OF step_clock_reaches this, of "\<lambda>w. (True, w)" 1000 100 6]
  obtain g w' where "gen_run 3 step_clock (\<lambda>w. (True, w)) 1000 10 100 (gen_start 5, 6) = Some (g, w')"
      "length (gs_log g) = 3" "unat (5 :: u64) + Suc 2 * unat (10 :: u64) \<le> unat (gs_log g ! 2)"
    by (metis less_add_one numeral_plus_one semiring_norm(5))
  then show ?thesis by auto
qed

end
