(* ===== verification/Spec2Isabelle.thy ===== *)
theory Spec2Isabelle
  imports Spsc_Concurrent Free_Stack_Concurrent Numa_Topology Tcp_Progress Tcp_Limits Tcp_Socket Batch_Processor
    Multiqueue_Main Latency_Histogram Perf_Baseline Pkt_Gen
begin

text \<open>
  \<^bold>\<open>Verification of uxnet\<close>, the userspace networking stack under \<^verbatim>\<open>src/\<close>.

  \<^bold>\<open>The program.\<close> A memory-mapped ring shared with the kernel (\<^verbatim>\<open>PacketRing\<close>) delivers frames. The multi-queue
  capture program copies a frame into a buffer of a lock-free pool (\<^verbatim>\<open>BufferPool\<close>, on huge pages from
  \<^verbatim>\<open>HugePageAllocator\<close> or on a NUMA node), parses it (\<^verbatim>\<open>PacketParser\<close>), hashes its flow (\<^verbatim>\<open>RSSDistributor\<close>)
  and pushes the buffer into a single-producer/single-consumer queue (\<^verbatim>\<open>SPSCRing\<close>). Worker threads (\<^verbatim>\<open>WorkerPool\<close>)
  or a batching consumer (\<^verbatim>\<open>BatchProcessor\<close>) take the buffers out, process and release them. A reliable
  byte stream over datagrams (\<^verbatim>\<open>TcpLiteSession\<close>) uses the same pool. Measuring code (\<^verbatim>\<open>PerfCounter\<close>,
  \<^verbatim>\<open>LatencyHistogram\<close>, \<^verbatim>\<open>rdtsc.h\<close>) and three tools complete the repository.

  \<^bold>\<open>Conventions.\<close> Integers keep their width (\<open>u8\<close> to \<open>u64\<close>, words that wrap around); a class is a record, a member
  function a function that returns the updated record, an exception a left value of a sum. \<open>None\<close> is
  undefined behaviour: an access outside an array or a buffer, a failed assertion, a loop that never ends.
  A statement that some result is \<open>Some\<close> says that none of these happens. A pointer to a buffer is its index.
  Code outside the repository (the kernel, the clocks, the application's handlers and callbacks) is a record of functions on a
  state of its own, passed as a parameter; what a theorem needs of it is a hypothesis with a name
  (\<open>tpacket_kernel\<close>, \<open>machine_clock\<close>, \<open>perf_kernel\<close>, \<open>reaches\<close>, \<dots>), and its witness has an instance. \<open>machine_clock\<close> is a
  clock that does not go back or stand still for ever; \<open>reaches\<close> is a counter that gets to a given value without wrapping around.

  \<^bold>\<open>Theories.\<close>
  \<^item> \<^verbatim>\<open>Prelude\<close>: the machine types, shared facts on words and lists.
  \<^item> \<^verbatim>\<open>Spsc_Ring\<close> (\<^verbatim>\<open>include/spsc_ring.h\<close>): push, pop, size, and the contract \<open>bounded_fifo\<close> as a locale that the ring
    interprets; the clients' proofs rest on \<open>spsc.push_result\<close> and \<open>spsc.pop_result\<close>. \<^verbatim>\<open>Spsc_Concurrent\<close>: the same code
    interleaved at every memory access, with stale loads. Shown: first-in first-out in every interleaving, and no slot
    accessed by both threads at once.
  \<^item> \<^verbatim>\<open>Huge_Alloc\<close> (\<^verbatim>\<open>src/huge_alloc.cpp\<close>), \<^verbatim>\<open>Numa_Util\<close>, \<^verbatim>\<open>Numa_Topology\<close> (\<^verbatim>\<open>src/numa_util.cpp\<close>, \<^verbatim>\<open>tools/numa_info.cpp\<close>): allocation
    with its registry, the readers of \<^verbatim>\<open>/proc\<close> and \<^verbatim>\<open>/sys\<close> on characters. \<^verbatim>\<open>C_Text\<close>, \<^verbatim>\<open>Inet_Text\<close>: the conversions
    between numbers, addresses and text that the sources use, with round trips. Shown: \<^verbatim>\<open>verify_allocation_node\<close> reads
    the kernel's format; the counter of free huge pages is always 0.
  \<^item> \<^verbatim>\<open>Buffer_Pool\<close> (\<^verbatim>\<open>src/buffer_pool.cpp\<close>): descriptors, the packed free list, construction and destruction, with the contract
    \<open>buffer_store\<close> as a locale that the pool interprets. \<^verbatim>\<open>Free_Stack_Concurrent\<close>: push and pop by any number of threads,
    interleaved at every access. \<^verbatim>\<open>Pool_Lifecycle\<close>: the destructor against the constructor, on a kernel that records the mappings
    (\<open>map_traced\<close>). Shown: conservation of buffers, sequentially and concurrently; each compare-and-swap is one operation of an
    abstract stack as long as no thread is overtaken by \<open>2 ^ 32\<close> updates, and a buffer handed out twice when one is; the race
    on the plain links; which blocks stay mapped, among them those of a NUMA pool on huge pages whose length is not
    rounded; the leak of the constructor. The safety theorem holds with loads of any earlier value of \<^verbatim>\<open>top_\<close>; the theorems that
    a bad run exists give a sequentially consistent one (\<open>fs_sc\<close>). Sizes that overflow 64 bits are \<open>None\<close>.
  \<^item> \<^verbatim>\<open>Packet_Parser\<close> (\<^verbatim>\<open>include/packet_parser.h\<close>): the views, the header checksum, \<^verbatim>\<open>parse\<close>. Shown: what it decides in terms of the
    bytes, which bytes it reads, that a well-formed frame is read back, that a damaged header word is detected.
  \<^item> \<^verbatim>\<open>Rss\<close> (\<^verbatim>\<open>src/rss_distributor.cpp\<close>): the Toeplitz loop equals its definition as an exclusive or of key windows (and the
    published test vectors), and \<^verbatim>\<open>submit\<close> appends to the queue of the flow.
  \<^item> \<^verbatim>\<open>Packet_Path\<close>, \<^verbatim>\<open>Batch_Processor\<close> (\<^verbatim>\<open>src/batch_processor.cpp\<close>), \<^verbatim>\<open>Worker_Pool\<close> (\<^verbatim>\<open>src/worker_pool.cpp\<close>): the consumers. Shown:
    what one batch does, the statistics, that a worker sees the stop flag within a thousand passes.
  \<^item> \<^verbatim>\<open>Packet_Ring\<close> (\<^verbatim>\<open>src/packet_ring.cpp\<close>): construction with every error path, receive and release. \<^verbatim>\<open>Ring_Fifo\<close>: the ring with the
    kernel on the other side. Shown: no leak, the slots tile the mapping, and the ring is a first-in first-out queue with as
    many places as it has slots (\<open>ring_fifo\<close>).
  \<^item> \<^verbatim>\<open>Capture\<close>, \<^verbatim>\<open>Multiqueue_Main\<close> (\<^verbatim>\<open>src/multiqueue_capture.cpp\<close>), \<^verbatim>\<open>Capture_Main\<close> (\<^verbatim>\<open>src/capture.cpp\<close>): the two programs from the
    arguments to the exit status. The multi-queue program is a state machine driven by a schedule of the main thread and the
    workers; its theorem composes the ring, the pool, the distributor, the queues and the workers.
  \<^item> TCP-Lite (\<^verbatim>\<open>include/tcp_lite.h\<close>, \<^verbatim>\<open>src/tcp_lite.cpp\<close>): \<^verbatim>\<open>Tcp_Header\<close> (layout, CRC-32, checksum), \<^verbatim>\<open>Recv_Bitmap\<close> (the receive
    window, with the contract \<open>seq_window\<close> as a locale that it interprets), \<^verbatim>\<open>Unacked_Queue\<close> (the send window), \<^verbatim>\<open>Tcp_Session\<close>
    (send, receive, timer), \<^verbatim>\<open>Tcp_Socket\<close> (the UDP socket), \<^verbatim>\<open>Tcp_Endpoint\<close> (the invariant of one end),
    \<^verbatim>\<open>Tcp_Channel\<close> (two ends and a network that loses, repeats, reorders and damages packets), \<^verbatim>\<open>Tcp_Progress\<close>,
    \<^verbatim>\<open>Tcp_Limits\<close>. Shown: what is delivered is a prefix of what was sent, no buffer is lost, every reachable state
    can still deliver everything; and three ways to make a session fail. Damage here is a complete packet whose length
    field stays inside it and whose checksum fails (\<open>damaged\<close>). Damage to the length field beyond that is not covered by the
    stream theorems: \<open>payload_len_unchecked\<close> and \<open>payload_len_undetected\<close> show what it can do.
  \<^item> \<^verbatim>\<open>Binary64\<close>, \<^verbatim>\<open>Rdtsc\<close> (\<^verbatim>\<open>include/rdtsc.h\<close>), \<^verbatim>\<open>Latency_Histogram\<close>, \<^verbatim>\<open>Perf_Counters\<close> (\<^verbatim>\<open>src/perf_counters.cpp\<close>): doubles as rationals
    rounded to 53 bits, calibration, percentiles and rows, counters as resources. \<^verbatim>\<open>Perf_Baseline\<close>, \<^verbatim>\<open>Pkt_Gen\<close>
    (\<^verbatim>\<open>tools/\<close>): the measuring program ends and releases everything, the generator keeps its pace.

  \<^bold>\<open>Bounds and loops.\<close> Loops whose end depends on the clock (\<open>cap_loop\<close>, \<open>gen_loop\<close>, \<open>wait_tsc\<close>, \<open>spin_ns\<close>) are partial functions, and
  that they end is proved from the hypothesis that the clock advances. Programs with threads take a schedule: the
  safety theorems hold for every schedule, the liveness theorem for every endless schedule in which each thread gets
  its turn again and again (\<open>fair_forever\<close>), and, if the clock advances in every pass (\<open>paced_clock\<close>), for every finite one with
  enough passes and a thousand turns for each worker, which is what the loop of a worker needs to see the flag. A TCP-Lite run sends less than
  \<open>2 ^ 31\<close> bytes in each direction, so that sequence numbers compared by the sign of a 32-bit difference do not become ambiguous. Buffers
  of the packet path have at least 78 bytes, the longest headers with the ports; the programs use 2048.

  \<^bold>\<open>Not modelled.\<close>
  \<^item> The tests, the benchmarks, and the build and container files: they exercise the library and are not part of it.
  \<^item> The layout of printed tables, and the texts of errors and warnings: outputs are values, except for the packet line of \<^verbatim>\<open>capture\<close>.
  \<^item> Weak memory beyond what is stated in the two concurrent theories (stale loads); everything else that threads share
    is accessed in atomic steps; a pass of a worker (pop, process, release) is one step of the multi-queue program. Cache
    lines, alignment and prefetching.
  \<^item> A transmit function or data callback that calls back into its TCP-Lite session, and handlers that release the
    buffers they are shown.
  \<^item> The shuffle of \<^verbatim>\<open>tools/perf_baseline.cpp\<close>, which is a parameter, and the mutex of the allocator's registry:
    each call of the allocator is one step.
\<close>

end
